(* ===== verification/Prelude.thy ===== *)
theory Prelude
  imports Main "HOL-Library.Word"
begin

text \<open>
  What every other theory of the development shares.

  \<^item> Type names: bytes and strings of Go, its 64-bit integers, and the error values the program
    builds (\<open>err\<close>).
  \<^item> Fallible stateful code: an operation takes a state and returns a result, \<open>Inl\<close> the error
    or \<open>Inr\<close> the value, together with the state it leaves.  \<open>bindE\<close> is Go's
    \<open>x, err := f(); if err != nil { return err }\<close>; \<open>tryE\<close> hands the result to code that inspects the
    error itself.
  \<^item> Guarantees: \<open>guar R m\<close> says that \<open>m\<close> only moves the state along the relation \<open>R\<close>,
    whatever it returns.  The rules for it are in the collection \<open>guar_rules\<close>.
  \<^item> The generic interfaces \<open>state_machine\<close> (an invariant), \<open>stable\<close> (a fact no step undoes), \<open>write_once\<close>
    (entries that never change) and \<open>retry_loop\<close> (a bounded loop of attempts).
\<close>

section \<open>Type names and errors\<close>

type_synonym byte = "8 word"
type_synonym bytes = "8 word list"
type_synonym u64 = "64 word"

text \<open>\<open>[]byte(s)\<close>: a Go string is a sequence of bytes.\<close>

definition bytes_of :: "string \<Rightarrow> bytes" where
  "bytes_of s = map of_char s"

lemma length_bytes_of [simp]: "length (bytes_of s) = length s"
  by (simp add: bytes_of_def)

lemma bytes_of_append [simp]: "bytes_of (s @ t) = bytes_of s @ bytes_of t"
  by (simp add: bytes_of_def)

lemma inj_of_char_byte: "inj (of_char :: char \<Rightarrow> byte)"
proof (rule injI)
  fix c d :: char
  assume "(of_char c :: byte) = of_char d"
  then have "unat (of_nat (of_char c) :: byte) = unat (of_nat (of_char d) :: byte)"
    by (simp add: of_nat_of_char)
  moreover have "(of_char x :: nat) < 2 ^ 8" for x
    by simp
  ultimately have "(of_char c :: nat) = of_char d"
    by (simp add: unat_of_nat take_bit_nat_eq_self)
  then show "c = d"
    by simp
qed

lemma bytes_of_inject [simp]: "bytes_of s = bytes_of t \<longleftrightarrow> s = t"
  unfolding bytes_of_def using inj_of_char_byte by (rule inj_map_eq_map)

text \<open>Conversion of an integer to Go's \<open>int64\<close> and \<open>int32\<close>: the low bits, read as two's complement.\<close>

definition int64 :: "int \<Rightarrow> int" where
  "int64 i = signed_take_bit 63 i"

definition int32 :: "int \<Rightarrow> int" where
  "int32 i = signed_take_bit 31 i"

lemma int64_id: "- (2 ^ 63) \<le> i \<Longrightarrow> i < 2 ^ 63 \<Longrightarrow> int64 i = i"
  by (simp add: int64_def signed_take_bit_int_eq_self)

lemma int32_id: "- (2 ^ 31) \<le> i \<Longrightarrow> i < 2 ^ 31 \<Longrightarrow> int32 i = i"
  by (simp add: int32_def signed_take_bit_int_eq_self)

text \<open>
  The error values.  \<open>Categorized\<close> is \<open>commonerrors.New(category, code, message)\<close>, \<open>Errorf\<close> an
  \<open>errors.New\<close> or a \<open>fmt.Errorf\<close> without \<open>%w\<close>, \<open>Wrap\<close> one with it; \<open>SqlState\<close> is a driver
  error that carries an SQLSTATE, \<open>SqlNoRows\<close> is \<open>sql.ErrNoRows\<close>, \<open>ContextDone\<close> the error of an
  ended context and \<open>Foreign\<close> any other error of code outside the repository.
\<close>

datatype category =
    CategoryValidation
  | CategoryUnauthorized
  | CategoryForbidden
  | CategoryNotFound
  | CategoryConflict
  | CategoryUnprocessable
  | CategoryUnavailable

datatype err =
    Categorized category string string
  | Errorf string
  | Wrap string err
  | SqlState string
  | SqlNoRows
  | ContextDone
  | Foreign string

section \<open>Stateful operations that may fail\<close>

type_synonym ('s, 'a) op = "'s \<Rightarrow> (err + 'a) \<times> 's"

definition returnE :: "'a \<Rightarrow> ('s, 'a) op" where
  "returnE x s = (Inr x, s)"

definition throwE :: "err \<Rightarrow> ('s, 'a) op" where
  "throwE e s = (Inl e, s)"

definition bindE :: "('s, 'a) op \<Rightarrow> ('a \<Rightarrow> ('s, 'b) op) \<Rightarrow> ('s, 'b) op" where
  "bindE m f s = (case m s of (Inl e, s') \<Rightarrow> (Inl e, s') | (Inr x, s') \<Rightarrow> f x s')"

definition tryE :: "('s, 'a) op \<Rightarrow> (err + 'a \<Rightarrow> ('s, 'b) op) \<Rightarrow> ('s, 'b) op" where
  "tryE m f s = (case m s of (r, s') \<Rightarrow> f r s')"

definition getE :: "('s \<Rightarrow> 'a) \<Rightarrow> ('s, 'a) op" where
  "getE f s = (Inr (f s), s)"

definition modifyE :: "('s \<Rightarrow> 's) \<Rightarrow> ('s, unit) op" where
  "modifyE f s = (Inr (), f s)"

text \<open>An operation on a part of the state (a field with its reader and its writer).\<close>

definition zoomE :: "('s \<Rightarrow> 't) \<Rightarrow> ('t \<Rightarrow> 's \<Rightarrow> 's) \<Rightarrow> ('t, 'a) op \<Rightarrow> ('s, 'a) op" where
  "zoomE rd wr m s = (case m (rd s) of (r, t) \<Rightarrow> (r, wr t s))"

text \<open>A pure check: an \<open>err + 'a\<close> computed without touching the state.\<close>

definition liftE :: "err + 'a \<Rightarrow> ('s, 'a) op" where
  "liftE r s = (r, s)"

lemmas op_defs = returnE_def throwE_def bindE_def tryE_def getE_def modifyE_def zoomE_def liftE_def

lemma bindE_Inr:
  "bindE m f s = (Inr y, t) \<longleftrightarrow> (\<exists>x u. m s = (Inr x, u) \<and> f x u = (Inr y, t))"
  by (auto simp: bindE_def split: prod.splits sum.splits)

lemma bindE_Inl:
  "bindE m f s = (Inl e, t) \<longleftrightarrow> m s = (Inl e, t) \<or> (\<exists>x u. m s = (Inr x, u) \<and> f x u = (Inl e, t))"
  by (auto simp: bindE_def split: prod.splits sum.splits)

lemma bindE_cases:
  assumes "bindE m f s = (r, t)"
  obtains (fail) e where "m s = (Inl e, t)" "r = Inl e" | (bind) x u where "m s = (Inr x, u)" "f x u = (r, t)"
  using assms by (auto simp: bindE_def split: prod.splits sum.splits)

lemma op_simps [simp]:
  "returnE x s = (Inr x, s)"
  "throwE e s = (Inl e, s)"
  "getE f s = (Inr (f s), s)"
  "modifyE g s = (Inr (), g s)"
  "liftE r s = (r, s)"
  by (simp_all add: op_defs)

lemma bindE_step:
  "m s = (Inr x, u) \<Longrightarrow> bindE m f s = f x u"
  "m s = (Inl e, u) \<Longrightarrow> bindE m f s = (Inl e, u)"
  by (simp_all add: bindE_def)

lemma tryE_step: "m s = (r, u) \<Longrightarrow> tryE m f s = f r u"
  by (simp add: tryE_def)

section \<open>Guarantees\<close>

named_theorems guar_rules \<open>rules for guar, one per way of building an operation\<close>

definition guar :: "('s \<Rightarrow> 's \<Rightarrow> bool) \<Rightarrow> ('s, 'a) op \<Rightarrow> bool" where
  "guar R m \<longleftrightarrow> (\<forall>s. R s (snd (m s)))"

lemma guarD: "guar R m \<Longrightarrow> m s = (r, t) \<Longrightarrow> R s t"
  by (auto simp: guar_def dest: spec [of _ s])

lemma guarI: "(\<And>s r t. m s = (r, t) \<Longrightarrow> R s t) \<Longrightarrow> guar R m"
  by (auto simp: guar_def intro: prod.collapse [symmetric])

lemma guar_mono: "guar R m \<Longrightarrow> (\<And>s t. R s t \<Longrightarrow> S s t) \<Longrightarrow> guar S m"
  by (simp add: guar_def)

lemma guar_pure [guar_rules]:
  assumes "reflp R"
  shows "guar R (returnE x)" "guar R (throwE e)" "guar R (getE f)" "guar R (liftE r)"
  using assms by (simp_all add: guar_def op_defs reflp_def)

lemma guar_modify: "(\<And>s. R s (f s)) \<Longrightarrow> guar R (modifyE f)"
  by (simp add: guar_def op_defs)

lemma guar_bind [guar_rules]:
  assumes "transp R" and "guar R m" and "\<And>x. guar R (f x)"
  shows "guar R (bindE m f)"
proof (rule guarI)
  fix s r t
  assume "bindE m f s = (r, t)"
  then show "R s t"
    using assms by (cases rule: bindE_cases) (blast dest: guarD transpD)+
qed

lemma guar_try [guar_rules]:
  assumes "transp R" and "guar R m" and "\<And>r. guar R (f r)"
  shows "guar R (tryE m f)"
  using assms by (auto simp: guar_def tryE_def transp_def split: prod.splits) (metis snd_conv)

lemma guar_if [guar_rules]:
  "(b \<Longrightarrow> guar R m) \<Longrightarrow> (\<not> b \<Longrightarrow> guar R n) \<Longrightarrow> guar R (if b then m else n)"
  by simp

lemma guar_case_option [guar_rules]:
  "(x = None \<Longrightarrow> guar R m) \<Longrightarrow> (\<And>y. x = Some y \<Longrightarrow> guar R (f y)) \<Longrightarrow>
     guar R (case x of None \<Rightarrow> m | Some y \<Rightarrow> f y)"
  by (cases x) simp_all

lemma guar_case_sum [guar_rules]:
  "(\<And>e. x = Inl e \<Longrightarrow> guar R (f e)) \<Longrightarrow> (\<And>y. x = Inr y \<Longrightarrow> guar R (g y)) \<Longrightarrow>
     guar R (case x of Inl e \<Rightarrow> f e | Inr y \<Rightarrow> g y)"
  by (cases x) simp_all

lemma guar_case_prod [guar_rules]:
  "(\<And>a b. x = (a, b) \<Longrightarrow> guar R (f a b)) \<Longrightarrow> guar R (case x of (a, b) \<Rightarrow> f a b)"
  by (cases x) simp_all

section \<open>State machines\<close>

text \<open>
  A component that moves in steps: the start states, the step relation and an invariant that holds
  at the start and that every step keeps.  The client's facts are about runs.
\<close>

locale state_machine =
  fixes start :: "'s \<Rightarrow> bool"
    and step :: "'s \<Rightarrow> 's \<Rightarrow> bool"
    and inv :: "'s \<Rightarrow> bool"
  assumes inv_start: "start s \<Longrightarrow> inv s"
    and inv_step: "step s t \<Longrightarrow> inv s \<Longrightarrow> inv t"
begin

lemma run_inv: "step\<^sup>*\<^sup>* s t \<Longrightarrow> inv s \<Longrightarrow> inv t"
  by (induction rule: rtranclp_induct) (auto intro: inv_step)

lemma reachable_inv: "start s \<Longrightarrow> step\<^sup>*\<^sup>* s t \<Longrightarrow> inv t"
  by (blast intro: inv_start run_inv)

lemma guar_inv:
  assumes "guar (\<lambda>s t. step\<^sup>*\<^sup>* (f s) (f t)) m" and "m s = (r, t)" and "inv (f s)"
  shows "inv (f t)"
  using guarD [OF assms(1,2)] assms(3) by (rule run_inv)

end

text \<open>A fact about the state that, once true, every step keeps.\<close>

locale stable = state_machine start step inv
  for start :: "'s \<Rightarrow> bool" and step :: "'s \<Rightarrow> 's \<Rightarrow> bool" and inv :: "'s \<Rightarrow> bool" +
  fixes fact :: "'s \<Rightarrow> bool"
  assumes fact_step: "step s t \<Longrightarrow> inv s \<Longrightarrow> fact s \<Longrightarrow> fact t"
begin

lemma fact_run: "step\<^sup>*\<^sup>* s t \<Longrightarrow> inv s \<Longrightarrow> fact s \<Longrightarrow> fact t"
proof (induction rule: rtranclp_induct)
  case (step t u)
  then show ?case
    using run_inv fact_step by blast
qed

end

text \<open>
  A component whose entries, once written, never change: what is looked up along a run stays what it
  was, so two readers of the same entry agree whatever happened between them.
\<close>

locale write_once = state_machine start step inv
  for start :: "'s \<Rightarrow> bool" and step :: "'s \<Rightarrow> 's \<Rightarrow> bool" and inv :: "'s \<Rightarrow> bool" +
  fixes entry :: "'s \<Rightarrow> 'k \<Rightarrow> 'v option"
  assumes entry_step: "step s t \<Longrightarrow> inv s \<Longrightarrow> entry s k = Some v \<Longrightarrow> entry t k = Some v"

sublocale write_once \<subseteq> written: stable start step inv "\<lambda>s. entry s k = Some v" for k v
  by unfold_locales (rule entry_step)

context write_once
begin

lemmas entry_run = written.fact_run

lemma entry_agree: "step\<^sup>*\<^sup>* s t \<Longrightarrow> inv s \<Longrightarrow> entry s k = Some v \<Longrightarrow> entry t k = Some w \<Longrightarrow> v = w"
  using entry_run by fastforce

lemma entry_absent: "step\<^sup>*\<^sup>* s t \<Longrightarrow> inv s \<Longrightarrow> entry t k = None \<Longrightarrow> entry s k = None"
  using entry_run by (cases "entry s k") auto

end

text \<open>
  A loop that repeats an attempt: \<open>Again\<close> goes round once more, the other two outcomes end it, and after
  the given number of rounds it fails with \<open>exhausted\<close>.
\<close>

datatype 'a attempt_result = Again | Stop err | Ok 'a

locale retry_loop =
  fixes attempt :: "'s \<Rightarrow> 'a attempt_result \<times> 's" and loop :: "nat \<Rightarrow> ('s, 'a) op" and exhausted :: err
  assumes loop_0: "loop 0 s = (Inl exhausted, s)"
    and loop_Suc: "loop (Suc n) s =
      (case attempt s of (Again, t) \<Rightarrow> loop n t | (Stop e, t) \<Rightarrow> (Inl e, t) | (Ok x, t) \<Rightarrow> (Inr x, t))"
begin

text \<open>\<open>rounds n s t\<close>: \<open>n\<close> attempts in a row from \<open>s\<close> asked for another one and left \<open>t\<close>.\<close>

fun rounds :: "nat \<Rightarrow> 's \<Rightarrow> 's \<Rightarrow> bool" where
  "rounds 0 s t \<longleftrightarrow> t = s"
| "rounds (Suc n) s t \<longleftrightarrow> fst (attempt s) = Again \<and> rounds n (snd (attempt s)) t"

lemma loop_cases:
  assumes "loop n s = (r, t)"
  shows "\<exists>k u. k \<le> n \<and> rounds k s u \<and>
     (k = n \<and> r = Inl exhausted \<and> t = u
      \<or> k < n \<and> (\<exists>e. attempt u = (Stop e, t) \<and> r = Inl e)
      \<or> k < n \<and> (\<exists>x. attempt u = (Ok x, t) \<and> r = Inr x))"
  using assms
proof (induction n arbitrary: s)
  case 0
  then show ?case by (auto simp: loop_0)
next
  case (Suc n)
  obtain a u where a: "attempt s = (a, u)" by fastforce
  show ?case
  proof (cases a)
    case Again
    with Suc.prems a have "loop n u = (r, t)"
      by (simp add: loop_Suc)
    from Suc.IH [OF this] obtain k v where kv: "k \<le> n" "rounds k u v"
      "k = n \<and> r = Inl exhausted \<and> t = v
        \<or> k < n \<and> (\<exists>e. attempt v = (Stop e, t) \<and> r = Inl e) \<or> k < n \<and> (\<exists>x. attempt v = (Ok x, t) \<and> r = Inr x)"
      by blast
    have "rounds (Suc k) s v"
      using kv(2) a Again by simp
    with kv(1,3) show ?thesis
      by (intro exI [of _ "Suc k"] exI [of _ v]) simp
  next
    case (Stop e)
    with Suc.prems a show ?thesis
      by (intro exI [of _ 0] exI [of _ s]) (simp add: loop_Suc)
  next
    case (Ok x)
    with Suc.prems a show ?thesis
      by (intro exI [of _ 0] exI [of _ s]) (simp add: loop_Suc)
  qed
qed

lemma loop_Inr:
  assumes "loop n s = (Inr x, t)"
  obtains k u where "k < n" "rounds k s u" "attempt u = (Ok x, t)"
  using loop_cases [OF assms] by auto

lemma rounds_preserves:
  assumes "\<And>s t. attempt s = (Again, t) \<Longrightarrow> P s \<Longrightarrow> P t"
  shows "rounds n s t \<Longrightarrow> P s \<Longrightarrow> P t"
proof (induction n arbitrary: s)
  case (Suc n)
  then show ?case
    using assms by (cases "attempt s") auto
qed simp

end

section \<open>Lists\<close>

lemma map_update_unique:
  assumes "distinct (map k xs)" and "x \<in> set xs" and "y \<in> set xs" and "k x = k y"
  shows "x = y"
  using assms by (auto simp: distinct_map dest: inj_onD)

lemma append_sep_inject:
  assumes "c \<notin> set xs" and "c \<notin> set ys"
  shows "xs @ c # r = ys @ c # s \<longleftrightarrow> xs = ys \<and> r = s"
  using assms
proof (induction xs arbitrary: ys)
  case Nil
  then show ?case by (cases ys) auto
next
  case (Cons x xs)
  then show ?case by (cases ys) auto
qed

lemma sep_append_inject:
  assumes "c \<notin> set xs" and "c \<notin> set ys"
  shows "r @ c # xs = s @ c # ys \<longleftrightarrow> r = s \<and> xs = ys"
proof -
  have "r @ c # xs = s @ c # ys \<longleftrightarrow> rev xs @ c # rev r = rev ys @ c # rev s"
    by (metis append.assoc append_Cons append_Nil rev.simps(2) rev_append rev_rev_ident)
  also have "\<dots> \<longleftrightarrow> r = s \<and> xs = ys"
    using assms by (auto simp: append_sep_inject)
  finally show ?thesis .
qed

lemma find_None_filter: "find P xs = None \<longleftrightarrow> filter P xs = []"
  by (induction xs) auto

lemma find_append: "find P (xs @ ys) = (case find P xs of None \<Rightarrow> find P ys | Some x \<Rightarrow> Some x)"
  by (induction xs) auto

lemma find_SomeD: "find P xs = Some x \<Longrightarrow> x \<in> set xs \<and> P x"
  by (induction xs) (auto split: if_splits)

lemma find_Some_unique:
  assumes "x \<in> set xs" and "P x" and "\<And>y. y \<in> set xs \<Longrightarrow> P y \<Longrightarrow> y = x"
  shows "find P xs = Some x"
proof (cases "find P xs")
  case None
  with assms(1,2) show ?thesis
    by (auto simp: find_None_iff)
next
  case (Some y)
  then have "y = x"
    using assms(3) by (blast dest: find_SomeD)
  with Some show ?thesis
    by simp
qed

end
