(* ===== verification/GoStrings.thy ===== *)
theory GoStrings
  imports Prelude
begin

text \<open>
  The parts of Go's standard library the program uses on text: \<open>strconv\<close> (decimal), \<open>strings.Split\<close>
  with a one-byte separator, \<open>strings.ToLower\<close> and \<open>strings.TrimSpace\<close> on ASCII text,
  \<open>encoding/base64\<close> (\<open>RawURLEncoding\<close> and \<open>StdEncoding\<close>) and \<open>encoding/hex\<close>.  The interface
  \<open>codec\<close> is what a client needs of an encoder and its decoder; it is interpreted on the decimal
  and base64 definitions below.
\<close>

section \<open>Codecs\<close>

locale codec =
  fixes encode :: "'a \<Rightarrow> string"
    and decode :: "string \<Rightarrow> 'a option"
    and valid :: "'a \<Rightarrow> bool"
    and alphabet :: "char set"
  assumes decode_encode: "valid x \<Longrightarrow> decode (encode x) = Some x"
    and encode_alphabet: "valid x \<Longrightarrow> set (encode x) \<subseteq> alphabet"
begin

lemma encode_inject: "valid x \<Longrightarrow> valid y \<Longrightarrow> encode x = encode y \<longleftrightarrow> x = y"
  using decode_encode by (metis option.inject)

lemma encode_free: "valid x \<Longrightarrow> c \<notin> alphabet \<Longrightarrow> c \<notin> set (encode x)"
  using encode_alphabet by blast

text \<open>A field printed by the codec, a separator outside its alphabet and a rest are read back
  unambiguously.\<close>

lemma encode_sep_inject:
  assumes "valid x" and "valid y" and "c \<notin> alphabet"
  shows "encode x @ c # r = encode y @ c # s \<longleftrightarrow> x = y \<and> r = s"
  using assms by (simp add: append_sep_inject encode_free encode_inject)

lemma sep_encode_inject:
  assumes "valid x" and "valid y" and "c \<notin> alphabet"
  shows "r @ c # encode x = s @ c # encode y \<longleftrightarrow> r = s \<and> x = y"
  using assms by (simp add: sep_append_inject encode_free encode_inject)

end

section \<open>Decimal numbers\<close>

definition digit_char :: "nat \<Rightarrow> char" where
  "digit_char d = char_of (48 + d)"

definition digit_val :: "char \<Rightarrow> nat option" where
  "digit_val c = (let n = of_char c in if 48 \<le> n \<and> n \<le> 57 then Some (n - 48) else None)"

definition digits :: "char set" where
  "digits = {c. digit_val c \<noteq> None}"

fun nat_dec :: "nat \<Rightarrow> string" where
  "nat_dec n = (if n < 10 then [digit_char n] else nat_dec (n div 10) @ [digit_char (n mod 10)])"

declare nat_dec.simps [simp del]

text \<open>\<open>strconv.FormatUint(v, 10)\<close> and \<open>strconv.FormatInt(i, 10)\<close>.\<close>

definition FormatUint :: "u64 \<Rightarrow> string" where
  "FormatUint v = nat_dec (unat v)"

definition FormatInt :: "int \<Rightarrow> string" where
  "FormatInt i = (if i < 0 then CHR ''-'' # nat_dec (nat (- i)) else nat_dec (nat i))"

text \<open>\<open>strconv.ParseUint(s, 10, 64)\<close>: no sign, no separator, no overflow.\<close>

fun parse_digits :: "nat \<Rightarrow> string \<Rightarrow> nat option" where
  "parse_digits n [] = Some n"
| "parse_digits n (c # cs) =
     (case digit_val c of
        None \<Rightarrow> None
      | Some d \<Rightarrow> if n * 10 + d < 2 ^ 64 then parse_digits (n * 10 + d) cs else None)"

definition ParseUint :: "string \<Rightarrow> u64 option" where
  "ParseUint s = (if s = [] then None else map_option of_nat (parse_digits 0 s))"

text \<open>\<open>strconv.ParseInt(s, 10, 64)\<close>: one optional sign, then as above, within \<open>int64\<close>.\<close>

definition ParseInt :: "string \<Rightarrow> int option" where
  "ParseInt s =
     (case s of
        [] \<Rightarrow> None
      | c # cs \<Rightarrow>
          let neg = (c = CHR ''-''); body = (if c = CHR ''+'' \<or> c = CHR ''-'' then cs else s)
          in case (if body = [] then None else parse_digits 0 body) of
               None \<Rightarrow> None
             | Some un \<Rightarrow>
                 if \<not> neg \<and> un \<ge> 2 ^ 63 then None
                 else if neg \<and> un > 2 ^ 63 then None
                 else Some (if neg then - int un else int un))"

lemma digit_val_char [simp]: "d < 10 \<Longrightarrow> digit_val (digit_char d) = Some d"
  by (simp add: digit_val_def digit_char_def)

lemma digit_char_in_digits: "d < 10 \<Longrightarrow> digit_char d \<in> digits"
  by (simp add: digits_def)

lemma digit_val_bound: "digit_val c = Some d \<Longrightarrow> d < 10 \<and> digit_char d = c"
  by (auto simp: digit_val_def digit_char_def Let_def split: if_splits)

lemma set_nat_dec: "set (nat_dec n) \<subseteq> digits"
proof (induction n rule: nat_dec.induct)
  case (1 n)
  then show ?case
    by (subst nat_dec.simps) (auto intro: digit_char_in_digits)
qed

lemma nat_dec_nonempty [simp]: "nat_dec n \<noteq> []"
  by (subst nat_dec.simps) simp

lemma parse_digits_append:
  "parse_digits n (s @ t) = Option.bind (parse_digits n s) (\<lambda>m. parse_digits m t)"
  by (induction s arbitrary: n) (auto split: option.splits)

lemma parse_nat_dec: "n < 2 ^ 64 \<Longrightarrow> parse_digits 0 (nat_dec n) = Some n"
proof (induction n rule: nat_dec.induct)
  case (1 n)
  show ?case
  proof (cases "n < 10")
    case True
    then show ?thesis
      by (subst nat_dec.simps) simp
  next
    case False
    with 1 have "parse_digits 0 (nat_dec (n div 10)) = Some (n div 10)"
      by simp
    moreover have "n div 10 * 10 + n mod 10 = n"
      by simp
    ultimately show ?thesis
      using False "1.prems" by (subst nat_dec.simps) (simp add: parse_digits_append)
  qed
qed

lemma nat_dec_hd: "0 < n \<Longrightarrow> digit_val (hd (nat_dec n)) \<noteq> Some 0 \<and> hd (nat_dec n) \<in> digits"
proof (induction n rule: nat_dec.induct)
  case (1 n)
  show ?case
  proof (cases "n < 10")
    case True
    with "1.prems" show ?thesis
      by (subst (1 2) nat_dec.simps) (simp add: digits_def)
  next
    case False
    with 1 have "digit_val (hd (nat_dec (n div 10))) \<noteq> Some 0 \<and> hd (nat_dec (n div 10)) \<in> digits"
      by simp
    with False show ?thesis
      by (subst (1 2) nat_dec.simps) simp
  qed
qed

lemma sign_not_digit [simp]: "CHR ''-'' \<notin> digits" "CHR ''+'' \<notin> digits"
  by (simp_all add: digits_def digit_val_def)

interpretation uint_dec: codec FormatUint ParseUint "\<lambda>_. True" digits
proof unfold_locales
  fix x :: u64
  have "unat x < 2 ^ 64"
    using unsigned_less [of x] by simp
  then show "ParseUint (FormatUint x) = Some x"
    by (simp add: ParseUint_def FormatUint_def parse_nat_dec)
  show "set (FormatUint x) \<subseteq> digits"
    by (simp add: FormatUint_def set_nat_dec)
qed

lemma ParseInt_unsigned:
  assumes "s \<noteq> []" and "hd s \<in> digits"
  shows "ParseInt s = (case parse_digits 0 s of
      None \<Rightarrow> None | Some n \<Rightarrow> if n \<ge> 2 ^ 63 then None else Some (int n))"
proof -
  obtain c cs where s: "s = c # cs"
    using assms(1) by (cases s) auto
  with assms(2) have "c \<noteq> CHR ''+''" "c \<noteq> CHR ''-''"
    using sign_not_digit by auto
  then show ?thesis
    by (cases "parse_digits 0 s") (simp_all add: ParseInt_def s del: parse_digits.simps)
qed

interpretation int_dec: codec FormatInt ParseInt "\<lambda>i. 0 \<le> i \<and> i < 2 ^ 63" digits
proof unfold_locales
  fix x :: int
  assume x: "0 \<le> x \<and> x < 2 ^ 63"
  then have less: "nat x < 2 ^ 63"
    by (simp add: nat_less_iff)
  have "hd (nat_dec (nat x)) \<in> digits"
    using set_nat_dec [of "nat x"] hd_in_set [OF nat_dec_nonempty] by blast
  then show "ParseInt (FormatInt x) = Some x"
    using x less by (simp add: FormatInt_def ParseInt_unsigned parse_nat_dec)
  show "set (FormatInt x) \<subseteq> digits"
    using x by (simp add: FormatInt_def set_nat_dec)
qed

section \<open>Splitting, joining and cases\<close>

text \<open>\<open>strings.Split(s, sep)\<close> for a one-byte separator.\<close>

fun Split :: "char \<Rightarrow> string \<Rightarrow> string list" where
  "Split sep [] = [[]]"
| "Split sep (c # cs) =
     (if c = sep then [] # Split sep cs
      else case Split sep cs of [] \<Rightarrow> [[c]] | p # ps \<Rightarrow> (c # p) # ps)"

fun Join :: "char \<Rightarrow> string list \<Rightarrow> string" where
  "Join sep [] = []"
| "Join sep [p] = p"
| "Join sep (p # q # ps) = p @ sep # Join sep (q # ps)"

lemma Split_nonempty [simp]: "Split sep s \<noteq> []"
  by (induction s) (auto split: list.splits)

lemma Split_none: "sep \<notin> set s \<Longrightarrow> Split sep s = [s]"
  by (induction s) auto

lemma Split_field: "sep \<notin> set p \<Longrightarrow> Split sep (p @ sep # s) = p # Split sep s"
  by (induction p) (auto split: list.splits)

lemma Join_Split: "Join sep (Split sep s) = s"
proof (induction s)
  case (Cons c s)
  then show ?case
    by (cases "Split sep s"; cases "tl (Split sep s)") (auto split: list.splits)
qed simp

lemma Split_sep_free: "p \<in> set (Split sep s) \<Longrightarrow> sep \<notin> set p"
  by (induction s arbitrary: p) (auto split: if_splits list.splits)

text \<open>\<open>strings.ToLower\<close> and \<open>strings.TrimSpace\<close>, on ASCII text.\<close>

definition lower_char :: "char \<Rightarrow> char" where
  "lower_char c = (let n = of_char c :: nat in if 65 \<le> n \<and> n \<le> 90 then char_of (n + 32) else c)"

definition ToLower :: "string \<Rightarrow> string" where
  "ToLower s = map lower_char s"

definition is_space :: "char \<Rightarrow> bool" where
  "is_space c \<longleftrightarrow> (of_char c :: nat) \<in> {9, 10, 11, 12, 13, 32}"

definition TrimSpace :: "string \<Rightarrow> string" where
  "TrimSpace s = rev (dropWhile is_space (rev (dropWhile is_space s)))"

lemma TrimSpace_Nil_iff: "TrimSpace s = [] \<longleftrightarrow> (\<forall>c \<in> set s. is_space c)"
proof (cases "dropWhile is_space s")
  case Nil
  then show ?thesis
    by (metis TrimSpace_def dropWhile.simps(1) dropWhile_eq_Nil_conv rev.simps(1))
next
  case (Cons c t)
  then have "\<not> is_space c" and "c \<in> set s"
    by (auto simp: dropWhile_eq_Cons_conv dest: arg_cong [where f = set])
  with Cons show ?thesis
    by (auto simp: TrimSpace_def dropWhile_eq_Nil_conv)
qed

lemma lower_char_idem [simp]: "lower_char (lower_char c) = lower_char c"
  by (auto simp: lower_char_def Let_def)

lemma ToLower_idem: "ToLower (ToLower s) = ToLower s"
  by (simp add: ToLower_def)

section \<open>Base64\<close>

text \<open>
  The two alphabets.  Three bytes are four 6-bit digits; a last group of one or two bytes is two or
  three digits, padded with \<open>=\<close> by \<open>StdEncoding\<close> and not padded by \<open>RawURLEncoding\<close>.  The decoders
  skip carriage returns and line feeds and do not look at the unused bits of the last digit.
\<close>

definition b64_url :: string where
  "b64_url = ''ABCDEFGHIJKLMNOPQRSTUVWXYZabcdefghijklmnopqrstuvwxyz0123456789-_''"

definition b64_std :: string where
  "b64_std = ''ABCDEFGHIJKLMNOPQRSTUVWXYZabcdefghijklmnopqrstuvwxyz0123456789+/''"

definition b64_val :: "string \<Rightarrow> char \<Rightarrow> nat option" where
  "b64_val alph c = map_of (zip alph [0..<64]) c"

fun b64_digits :: "bytes \<Rightarrow> nat list" where
  "b64_digits [] = []"
| "b64_digits [a] = [unat a div 4, unat a mod 4 * 16]"
| "b64_digits [a, b] =
     [unat a div 4, unat a mod 4 * 16 + unat b div 16, unat b mod 16 * 4]"
| "b64_digits (a # b # c # rest) =
     [unat a div 4, unat a mod 4 * 16 + unat b div 16, unat b mod 16 * 4 + unat c div 64, unat c mod 64]
       @ b64_digits rest"

fun b64_bytes :: "nat list \<Rightarrow> bytes option" where
  "b64_bytes [] = Some []"
| "b64_bytes [w] = None"
| "b64_bytes [w, x] = Some [of_nat (w * 4 + x div 16)]"
| "b64_bytes [w, x, y] = Some [of_nat (w * 4 + x div 16), of_nat (x mod 16 * 16 + y div 4)]"
| "b64_bytes (w # x # y # z # rest) =
     map_option
       (\<lambda>bs. of_nat (w * 4 + x div 16) # of_nat (x mod 16 * 16 + y div 4) # of_nat (y mod 4 * 64 + z) # bs)
       (b64_bytes rest)"

definition no_newlines :: "string \<Rightarrow> string" where
  "no_newlines s = filter (\<lambda>c. c \<noteq> CHR 0x0A \<and> c \<noteq> CHR 0x0D) s"

fun b64_vals :: "string \<Rightarrow> string \<Rightarrow> nat list option" where
  "b64_vals alph [] = Some []"
| "b64_vals alph (c # cs) =
     (case b64_val alph c of
        None \<Rightarrow> None
      | Some v \<Rightarrow> map_option (\<lambda>vs. v # vs) (b64_vals alph cs))"

text \<open>\<open>base64.RawURLEncoding.EncodeToString\<close> and \<open>DecodeString\<close>.\<close>

definition RawURL_encode :: "bytes \<Rightarrow> string" where
  "RawURL_encode bs = map ((!) b64_url) (b64_digits bs)"

definition RawURL_decode :: "string \<Rightarrow> bytes option" where
  "RawURL_decode s = Option.bind (b64_vals b64_url (no_newlines s)) b64_bytes"

text \<open>\<open>base64.StdEncoding.EncodeToString\<close> and \<open>DecodeString\<close>.\<close>

definition b64_pad :: "nat \<Rightarrow> string" where
  "b64_pad n = replicate ((3 - n mod 3) mod 3) CHR ''=''"

definition Std_encode :: "bytes \<Rightarrow> string" where
  "Std_encode bs = map ((!) b64_std) (b64_digits bs) @ b64_pad (length bs)"

definition b64_unpad :: "string \<Rightarrow> string" where
  "b64_unpad s =
     (if length s \<ge> 2 \<and> drop (length s - 2) s = ''=='' then take (length s - 2) s
      else if length s \<ge> 1 \<and> last s = CHR ''='' then butlast s else s)"

definition Std_decode :: "string \<Rightarrow> bytes option" where
  "Std_decode s =
     (let t = no_newlines s
      in if length t mod 4 \<noteq> 0 then None
         else Option.bind (b64_vals b64_std (b64_unpad t)) b64_bytes)"

lemma b64_alphabets [simp]: "length b64_url = 64" "length b64_std = 64"
  by (simp_all add: b64_url_def b64_std_def)

lemma b64_alphabets_distinct: "distinct b64_url" "distinct b64_std"
  by (simp_all add: b64_url_def b64_std_def)

lemma b64_val_nth:
  assumes "distinct alph" and "length alph = 64" and "d < 64"
  shows "b64_val alph (alph ! d) = Some d"
  unfolding b64_val_def using assms
  by (intro map_of_is_SomeI) (auto simp: in_set_zip)

lemma unat_byte: "unat (a :: byte) < 256"
  using unsigned_less [of a, where ?'a = nat] by simp

lemma b64_digits_bound: "d \<in> set (b64_digits bs) \<Longrightarrow> d < 64"
proof (induction bs rule: b64_digits.induct)
  case (2 a)
  then show ?case
    using unat_byte [of a] by auto
next
  case (3 a b)
  then show ?case
    using unat_byte [of a] unat_byte [of b] by auto
next
  case (4 a b c rest)
  then show ?case
    using unat_byte [of a] unat_byte [of b] unat_byte [of c] by auto
qed simp

lemma b64_vals_nth:
  assumes "distinct alph" and "length alph = 64" and "\<And>d. d \<in> set ds \<Longrightarrow> d < 64"
  shows "b64_vals alph (map ((!) alph) ds) = Some ds"
  using assms(3) by (induction ds) (simp_all add: b64_val_nth assms(1,2))

lemma byte_split:
  fixes a :: byte
  shows "of_nat (unat a div 4 * 4 + unat a mod 4 * 16 div 16) = a"
    and "unat a div 4 * 4 + unat a mod 4 = unat a"
    and "unat a div 16 * 16 + unat a mod 16 = unat a"
    and "unat a div 64 * 64 + unat a mod 64 = unat a"
  by simp_all

lemma b64_bytes_digits: "b64_bytes (b64_digits bs) = Some bs"
proof (induction bs rule: b64_digits.induct)
  case (3 a b)
  have "(unat a mod 4 * 16 + unat b div 16) div 16 = unat a mod 4"
    and "(unat a mod 4 * 16 + unat b div 16) mod 16 = unat b div 16"
    using unat_byte [of b] by auto
  then show ?case
    by (simp add: byte_split)
next
  case (4 a b c rest)
  have "(unat a mod 4 * 16 + unat b div 16) div 16 = unat a mod 4"
    and "(unat a mod 4 * 16 + unat b div 16) mod 16 = unat b div 16"
    using unat_byte [of b] by auto
  moreover have "(unat b mod 16 * 4 + unat c div 64) div 4 = unat b mod 16"
    and "(unat b mod 16 * 4 + unat c div 64) mod 4 = unat c div 64"
    using unat_byte [of c] by auto
  ultimately show ?case
    using 4 by (simp add: byte_split)
qed (simp_all add: byte_split)

lemma b64_nth_in: "length alph = 64 \<Longrightarrow> set (map ((!) alph) (b64_digits bs)) \<subseteq> set alph"
  by (auto dest: b64_digits_bound)

lemma no_newlines_id: "CHR 0x0A \<notin> set s \<Longrightarrow> CHR 0x0D \<notin> set s \<Longrightarrow> no_newlines s = s"
  unfolding no_newlines_def by (induction s) auto

interpretation raw_url: codec RawURL_encode RawURL_decode "\<lambda>_. True" "set b64_url"
proof unfold_locales
  fix bs :: bytes
  show sub: "set (RawURL_encode bs) \<subseteq> set b64_url"
    unfolding RawURL_encode_def by (rule b64_nth_in) simp
  have "CHR 0x0A \<notin> set b64_url" "CHR 0x0D \<notin> set b64_url"
    by (simp_all add: b64_url_def)
  with sub have "no_newlines (RawURL_encode bs) = RawURL_encode bs"
    by (intro no_newlines_id) auto
  then show "RawURL_decode (RawURL_encode bs) = Some bs"
    by (simp add: RawURL_decode_def RawURL_encode_def b64_vals_nth b64_alphabets_distinct
        b64_digits_bound b64_bytes_digits)
qed

lemma length_b64_digits:
  "length (b64_digits bs) = length bs div 3 * 4 + (if length bs mod 3 = 0 then 0 else length bs mod 3 + 1)"
proof (induction bs rule: b64_digits.induct)
  case (4 a b c rest)
  have "length (a # b # c # rest) div 3 = Suc (length rest div 3)"
    and "length (a # b # c # rest) mod 3 = length rest mod 3"
    by simp_all
  with 4 show ?case
    by simp
qed simp_all

lemma b64_unpad_pad:
  assumes "set s \<subseteq> set b64_std" and "k < 3"
  shows "b64_unpad (s @ replicate k CHR ''='') = s"
proof -
  have pad: "CHR ''='' \<notin> set b64_std"
    by (simp add: b64_std_def)
  have last: "last s \<noteq> CHR ''=''" if "s \<noteq> []"
  proof -
    have "last s \<in> set b64_std"
      by (rule subsetD [OF assms(1) last_in_set [OF that]])
    with pad show ?thesis
      by metis
  qed
  consider "k = 0" | "k = 1" | "k = 2"
    using assms(2) by linarith
  then show ?thesis
  proof cases
    case 1
    have "drop (length s - 2) s \<noteq> ''==''" if "2 \<le> length s"
    proof
      assume eq: "drop (length s - 2) s = ''==''"
      from that have "last (drop (length s - 2) s) = last s"
        by (intro last_drop) simp
      moreover have "s \<noteq> []"
        using that by auto
      ultimately show False
        using eq last by simp
    qed
    then show ?thesis
      using 1 last by (cases "s = []") (auto simp: b64_unpad_def)
  next
    case 2
    have "drop (Suc (length s) - 2) (s @ ''='') \<noteq> ''==''" if "1 \<le> length s"
    proof
      assume eq: "drop (Suc (length s) - 2) (s @ ''='') = ''==''"
      from that obtain t c where s: "s = t @ [c]"
        by (cases s rule: rev_cases) auto
      with eq have "c = CHR ''=''"
        by simp
      with s last show False
        by simp
    qed
    then show ?thesis
      using 2 by (cases "s = []") (auto simp: b64_unpad_def)
  next
    case 3
    then show ?thesis
      by (simp add: b64_unpad_def numeral_2_eq_2)
  qed
qed

interpretation std_b64: codec Std_encode Std_decode "\<lambda>_. True" "insert (CHR ''='') (set b64_std)"
proof unfold_locales
  fix bs :: bytes
  let ?d = "map ((!) b64_std) (b64_digits bs)"
  have sub: "set ?d \<subseteq> set b64_std"
    by (rule b64_nth_in) simp
  then show all: "set (Std_encode bs) \<subseteq> insert (CHR ''='') (set b64_std)"
    by (auto simp: Std_encode_def b64_pad_def)
  have "CHR 0x0A \<notin> insert (CHR ''='') (set b64_std)" "CHR 0x0D \<notin> insert (CHR ''='') (set b64_std)"
    by (simp_all add: b64_std_def)
  with all have clean: "no_newlines (Std_encode bs) = Std_encode bs"
    by (intro no_newlines_id) blast+
  have "length bs mod 3 = 0 \<or> length bs mod 3 = 1 \<or> length bs mod 3 = 2"
    by linarith
  then have "length (Std_encode bs) mod 4 = 0"
    by (elim disjE) (simp_all add: Std_encode_def b64_pad_def length_b64_digits)
  then show "Std_decode (Std_encode bs) = Some bs"
    using b64_unpad_pad [OF sub, of "(3 - length bs mod 3) mod 3"]
    by (simp add: Std_decode_def clean)
      (simp add: Std_encode_def b64_pad_def b64_vals_nth b64_alphabets_distinct b64_digits_bound b64_bytes_digits)
qed

section \<open>Hexadecimal\<close>

text \<open>\<open>hex.EncodeToString\<close>.\<close>

definition hex_char :: "nat \<Rightarrow> char" where
  "hex_char d = ''0123456789abcdef'' ! d"

fun hex_encode :: "bytes \<Rightarrow> string" where
  "hex_encode [] = []"
| "hex_encode (b # bs) = hex_char (unat b div 16) # hex_char (unat b mod 16) # hex_encode bs"

lemma length_hex_encode [simp]: "length (hex_encode bs) = 2 * length bs"
  by (induction bs) auto

lemma hex_char_inject: "d < 16 \<Longrightarrow> e < 16 \<Longrightarrow> hex_char d = hex_char e \<longleftrightarrow> d = e"
  unfolding hex_char_def by (subst nth_eq_iff_index_eq) simp_all

lemma hex_encode_inject [simp]: "hex_encode xs = hex_encode ys \<longleftrightarrow> xs = ys"
proof (induction xs arbitrary: ys)
  case Nil
  then show ?case by (cases ys) auto
next
  case (Cons x xs)
  show ?case
  proof (cases ys)
    case (Cons y zs)
    have "unat x div 16 = unat y div 16 \<and> unat x mod 16 = unat y mod 16 \<longleftrightarrow> x = y"
      by (metis div_mult_mod_eq word_unat_eq_iff)
    moreover have "unat x div 16 < 16" "unat y div 16 < 16"
      using unat_byte [of x] unat_byte [of y] by auto
    ultimately show ?thesis
      using Cons.IH Cons by (auto simp: hex_char_inject)
  qed simp
qed

end
