(* ===== verification/GoTime.thy ===== *)
theory GoTime
  imports GoStrings
begin

text \<open>
  Go's \<open>time\<close> package as the program uses it.  An instant is the number of nanoseconds since the Unix
  epoch, so \<open>Add\<close>, \<open>Before\<close> and \<open>UTC\<close> are \<open>+\<close>, \<open><\<close> and the identity; a \<open>time.Duration\<close> is a number
  of nanoseconds.  Integer division is Go's, which rounds towards zero, while \<open>Time.Unix\<close> rounds
  towards the past.  \<open>time.Parse("2006-01-02", s)\<close> accepts exactly ten bytes, four, two and two digits
  with dashes between them, that name a day of the proleptic Gregorian calendar.
\<close>

type_synonym time = int
type_synonym duration = int

definition Second :: duration where "Second = 1000000000"
definition Minute :: duration where "Minute = 60 * Second"
definition Hour :: duration where "Hour = 60 * Minute"

lemmas durations = Second_def Minute_def Hour_def

text \<open>The zero \<open>time.Time\<close>, January 1, year 1, and \<open>IsZero\<close>.\<close>

definition zero_time :: time where
  "zero_time = - 62135596800 * Second"

definition IsZero :: "time \<Rightarrow> bool" where
  "IsZero t \<longleftrightarrow> t = zero_time"

text \<open>Integer division as Go defines it.\<close>

definition gdiv :: "int \<Rightarrow> int \<Rightarrow> int" where
  "gdiv a b = sgn a * sgn b * (\<bar>a\<bar> div \<bar>b\<bar>)"

definition Unix :: "time \<Rightarrow> int" where
  "Unix t = t div Second"

text \<open>\<open>time.Unix(sec, 0)\<close>.\<close>

definition of_Unix :: "int \<Rightarrow> time" where
  "of_Unix sec = sec * Second"

lemma gdiv_nonneg: "0 \<le> a \<Longrightarrow> 0 < b \<Longrightarrow> gdiv a b = a div b"
  by (cases "a = 0") (simp_all add: gdiv_def)

lemma Unix_of_Unix [simp]: "Unix (of_Unix s) = s"
  by (simp add: Unix_def of_Unix_def Second_def)

lemma gdiv_pos_iff: "0 < b \<Longrightarrow> 0 < gdiv a b \<longleftrightarrow> b \<le> a"
proof -
  assume b: "0 < b"
  show ?thesis
  proof (cases "0 \<le> a")
    case True
    with b show ?thesis
      by (simp add: gdiv_nonneg pos_imp_zdiv_pos_iff)
  next
    case False
    with b have "0 \<le> \<bar>a\<bar> div \<bar>b\<bar>"
      by (simp add: pos_imp_zdiv_nonneg_iff)
    with False b show ?thesis
      by (simp add: gdiv_def)
  qed
qed

section \<open>Calendar dates\<close>

definition is_leap :: "int \<Rightarrow> bool" where
  "is_leap y \<longleftrightarrow> y mod 4 = 0 \<and> (y mod 100 \<noteq> 0 \<or> y mod 400 = 0)"

definition days_in :: "int \<Rightarrow> int \<Rightarrow> int" where
  "days_in m y =
     (if m = 2 then (if is_leap y then 29 else 28)
      else if m = 4 \<or> m = 6 \<or> m = 9 \<or> m = 11 then 30 else 31)"

text \<open>Days before January 1 of year \<open>y\<close>, counted from January 1 of year 0.\<close>

definition days_before_year :: "int \<Rightarrow> int" where
  "days_before_year y = 365 * y + (y + 3) div 4 - (y + 99) div 100 + (y + 399) div 400"

definition days_before_month :: "int \<Rightarrow> int \<Rightarrow> int" where
  "days_before_month y m =
     [0, 31, 59, 90, 120, 151, 181, 212, 243, 273, 304, 334] ! nat (m - 1)
       + (if m > 2 \<and> is_leap y then 1 else 0)"

text \<open>\<open>time.Date(y, m, d, 0, 0, 0, 0, time.UTC)\<close>; a day past the month's end runs into the next one.\<close>

definition Date :: "int \<Rightarrow> int \<Rightarrow> int \<Rightarrow> time" where
  "Date y m d = (days_before_year y + days_before_month y m + (d - 1) - 719528) * (24 * Hour)"

fun two_digits :: "char \<Rightarrow> char \<Rightarrow> int option" where
  "two_digits a b =
     (case (digit_val a, digit_val b) of
        (Some x, Some y) \<Rightarrow> Some (int (x * 10 + y))
      | _ \<Rightarrow> None)"

fun parse_date :: "string \<Rightarrow> (int \<times> int \<times> int) option" where
  "parse_date [y1, y2, y3, y4, s1, m1, m2, s2, d1, d2] =
     (if s1 \<noteq> CHR ''-'' \<or> s2 \<noteq> CHR ''-'' then None
      else case (two_digits y1 y2, two_digits y3 y4, two_digits m1 m2, two_digits d1 d2) of
        (Some yh, Some yl, Some m, Some d) \<Rightarrow>
          let y = yh * 100 + yl
          in if m < 1 \<or> 12 < m then None
             else if d < 1 \<or> days_in m y < d then None
             else Some (y, m, d)
      | _ \<Rightarrow> None)"
| "parse_date _ = None"

text \<open>\<open>t.AddDate(0, 0, n)\<close> of a day's midnight in UTC.\<close>

definition AddDays :: "int \<times> int \<times> int \<Rightarrow> int \<Rightarrow> time" where
  "AddDays ymd n = (case ymd of (y, m, d) \<Rightarrow> Date y m (d + n))"

lemma Date_add_day: "Date y m (d + n) = Date y m d + n * (24 * Hour)"
  by (simp add: Date_def algebra_simps)

lemma Date_epoch: "Date 1970 1 1 = 0"
  by (simp add: Date_def days_before_year_def days_before_month_def)

text \<open>The day after a month's last day is the first day of the next month.\<close>

lemma Date_next_month:
  assumes "1 \<le> m" and "m \<le> 11"
  shows "Date y m (days_in m y + 1) = Date y (m + 1) 1"
proof -
  have "m \<in> {1, 2, 3, 4, 5, 6, 7, 8, 9, 10, 11}"
    using assms by (simp, presburger)
  then have "days_before_month y m + days_in m y = days_before_month y (m + 1)"
    by (auto simp: days_before_month_def days_in_def)
  then show ?thesis
    by (simp add: Date_def)
qed

lemma ceil_div_step:
  fixes y n :: int
  assumes "0 < n" and k: "k = n - 1"
  shows "(y + n) div n = (y + k) div n + (if y mod n = 0 then 1 else 0)"
proof -
  have r: "0 \<le> y mod n" "y mod n < n"
    using assms by simp_all
  have "(y + (n - 1)) div n = y div n + (y mod n + (n - 1)) div n"
  proof -
    have "y + (n - 1) = y mod n + (n - 1) + y div n * n"
      using mod_div_mult_eq [of y n] by linarith
    with assms show ?thesis
      by (metis div_mult_self1 less_irrefl)
  qed
  moreover have "(y mod n + (n - 1)) div n = (if y mod n = 0 then 0 else 1)"
    using r by (auto intro!: int_div_pos_eq [where r = "y mod n - 1"])
  moreover have "(y + n) div n = y div n + 1"
    using assms by (intro div_add_self2) simp
  ultimately show ?thesis
    by (simp add: k)
qed

lemma year_length: "days_before_year (y + 1) = days_before_year y + (if is_leap y then 366 else 365)"
proof -
  have h: "y mod 100 = 0" if "y mod 400 = 0"
    using that mod_mod_cancel [of 100 400 y] by simp
  have c: "y mod 4 = 0" if "y mod 100 = 0"
    using that mod_mod_cancel [of 4 100 y] by simp
  have q: "(y + 4) div 4 = (y + 3) div 4 + (if y mod 4 = 0 then 1 else 0)"
    "(y + 100) div 100 = (y + 99) div 100 + (if y mod 100 = 0 then 1 else 0)"
    "(y + 400) div 400 = (y + 399) div 400 + (if y mod 400 = 0 then 1 else 0)"
    by (rule ceil_div_step; simp)+
  have d: "days_before_year (y + 1) = 365 * y + 365 + (y + 4) div 4 - (y + 100) div 100 + (y + 400) div 400"
    by (simp add: days_before_year_def algebra_simps)
  have l: "(if is_leap y then 366 else 365) =
      365 + (if y mod 4 = 0 then 1 else 0) - (if y mod 100 = 0 then 1 else 0)
        + (if y mod 400 = 0 then 1 else (0 :: int))"
  proof -
    have "(if p \<and> (\<not> q \<or> r) then 366 else 365) =
        365 + (if p then 1 else 0) - (if q then 1 else 0) + (if r then 1 else (0 :: int))"
      if "r \<longrightarrow> q" "q \<longrightarrow> p" for p q r
      using that by (cases p; cases q; cases r) simp_all
    from this [OF impI [OF h] impI [OF c]] show ?thesis
      unfolding is_leap_def .
  qed
  have "365 * y + 365 + (a + p) - (b + q) + (c + r) = (365 * y + a - b + c) + (365 + p - q + r)"
    for a b c p q r :: int
    by simp
  then show ?thesis
    unfolding d l q unfolding days_before_year_def .
qed

lemma Date_next_year: "Date y 12 (days_in 12 y + 1) = Date (y + 1) 1 1"
  by (simp add: Date_def year_length days_before_month_def days_in_def)

end
