(* ===== verification/Domain.thy ===== *)
theory Domain
  imports GoTime
begin

text \<open>
  \<open>internal/domain/checkin.go\<close>: the records of the program.  A Go \<open>[]byte\<close> that may be nil is a
  \<open>bytes option\<close>; a \<open>*time.Time\<close> is a \<open>time option\<close>; an \<open>AcceptanceDeadline\<close> that was never set is
  the zero time.
\<close>

record CheckInRecord =
  ci_ID :: string
  ci_UserID :: string
  ci_MemberID :: string
  ci_GymID :: string
  ci_CheckedInAt :: time

record IdempotencyResult =
  id_Fingerprint :: string
  id_Record :: CheckInRecord

datatype RootKeyStatus = RootKeyCurrent | RootKeyPrevious | RootKeyRetired

record RootKey =
  rk_GymID :: string
  rk_Version :: u64
  rk_Ciphertext :: string
  rk_KeyReference :: string
  rk_Status :: RootKeyStatus
  rk_ActivatedAt :: time
  rk_AcceptanceDeadline :: time
  rk_RetiredAt :: "time option"

definition IsAcceptableAt :: "RootKey \<Rightarrow> time \<Rightarrow> bool" where
  "IsAcceptableAt k now =
     (if rk_Status k = RootKeyCurrent then True
      else rk_Status k = RootKeyPrevious \<and> now < rk_AcceptanceDeadline k)"

record OutboxEvent =
  ev_ID :: string
  ev_Topic :: string
  ev_Key :: string
  ev_Payload :: bytes
  ev_PreparedValue :: "bytes option"
  ev_PreparedHeaders :: "bytes option"
  ev_Attempts :: int
  ev_CreatedAt :: time

lemma IsAcceptableAt_simps [simp]:
  "rk_Status k = RootKeyCurrent \<Longrightarrow> IsAcceptableAt k now"
  "rk_Status k = RootKeyPrevious \<Longrightarrow> IsAcceptableAt k now \<longleftrightarrow> now < rk_AcceptanceDeadline k"
  "rk_Status k = RootKeyRetired \<Longrightarrow> \<not> IsAcceptableAt k now"
  by (simp_all add: IsAcceptableAt_def)

lemma IsAcceptableAt_antimono:
  "IsAcceptableAt k later \<Longrightarrow> now \<le> later \<Longrightarrow> IsAcceptableAt k now"
  by (auto simp: IsAcceptableAt_def)

end
