(* ===== verification/Tables.thy ===== *)
theory Tables
  imports Domain "HOL-Library.Multiset"
begin

text \<open>
  The schema of \<open>migrations/001_init.sql\<close> and the SQL statements of
  \<open>internal/adapter/yugabyte/store.go\<close>, each as a function from the tables to an error or a result
  with the tables it leaves.  A table is the list of its rows in insertion order; an \<open>UPDATE\<close> changes
  rows in place.  A statement that breaks a constraint fails with its SQLSTATE and changes nothing.
  \<open>ts\<close> is what a \<open>TIMESTAMPTZ\<close> column makes of an instant (its resolution is coarser than Go's) and
  is a parameter, as is the order \<open>le\<close> in which the database compares texts.
\<close>

section \<open>Rows\<close>

record key_row =
  kr_gym_id :: string
  kr_key_version :: int
  kr_key_ciphertext :: string
  kr_key_reference :: string
  kr_status :: RootKeyStatus
  kr_activated_at :: time
  kr_acceptance_deadline :: "time option"
  kr_retired_at :: "time option"

record checkin_row =
  cr_checkin_id :: string
  cr_user_id :: string
  cr_member_id :: string
  cr_gym_id :: string
  cr_idempotency_key :: string
  cr_request_fingerprint :: string
  cr_checked_in_at :: time

datatype outbox_status = PENDING | PUBLISHING | PUBLISHED | FAILED | INVALID

record outbox_row =
  or_event_id :: string
  or_topic :: string
  or_message_key :: string
  or_payload :: bytes
  or_prepared_value :: "bytes option"
  or_prepared_headers :: "bytes option"
  or_status :: outbox_status
  or_attempts :: int
  or_created_at :: time
  or_available_at :: time
  or_claimed_at :: "time option"
  or_published_at :: "time option"

record tables =
  tb_keys :: "key_row list"
  tb_check_ins :: "checkin_row list"
  tb_outbox :: "outbox_row list"

type_synonym 'a stmt = "tables \<Rightarrow> err + ('a \<times> tables)"

section \<open>SQLSTATE values and column types\<close>

definition unique_violation :: err where "unique_violation = SqlState ''23505''"
definition check_violation :: err where "check_violation = SqlState ''23514''"
definition invalid_limit :: err where "invalid_limit = SqlState ''2201W''"
definition invalid_offset :: err where "invalid_offset = SqlState ''2201X''"

text \<open>A \<open>uint64\<close> argument of a \<open>BIGINT\<close> column, and an \<open>INTEGER\<close>: a value the column cannot hold is refused by the driver,
  which does not encode it; the error has no SQLSTATE.\<close>

definition out_of_range :: err where "out_of_range = Foreign ''value out of range for the argument''"

definition bigint_arg :: "u64 \<Rightarrow> err + int" where
  "bigint_arg v = (if uint v < 2 ^ 63 then Inr (uint v) else Inl out_of_range)"

definition is_integer :: "int \<Rightarrow> bool" where
  "is_integer i \<longleftrightarrow> - (2 ^ 31) \<le> i \<and> i < 2 ^ 31"

section \<open>Generic statements\<close>

definition update_where :: "('r \<Rightarrow> bool) \<Rightarrow> ('r \<Rightarrow> 'r) \<Rightarrow> 'r list \<Rightarrow> 'r list" where
  "update_where p f rows = map (\<lambda>r. if p r then f r else r) rows"

definition affected :: "('r \<Rightarrow> bool) \<Rightarrow> 'r list \<Rightarrow> int" where
  "affected p rows = int (length (filter p rows))"

fun insert_by :: "('r \<Rightarrow> 'r \<Rightarrow> bool) \<Rightarrow> 'r \<Rightarrow> 'r list \<Rightarrow> 'r list" where
  "insert_by le x [] = [x]"
| "insert_by le x (y # ys) = (if le x y then x # y # ys else y # insert_by le x ys)"

fun order_by :: "('r \<Rightarrow> 'r \<Rightarrow> bool) \<Rightarrow> 'r list \<Rightarrow> 'r list" where
  "order_by le [] = []"
| "order_by le (x # xs) = insert_by le x (order_by le xs)"

text \<open>\<open>LIMIT\<close> and \<open>OFFSET\<close>, which fail on negative numbers.\<close>

definition page_of :: "int \<Rightarrow> int \<Rightarrow> 'r list \<Rightarrow> err + 'r list" where
  "page_of limit offset rows =
     (if limit < 0 then Inl invalid_limit
      else if offset < 0 then Inl invalid_offset
      else Inr (take (nat limit) (drop (nat offset) rows)))"

section \<open>check\_ins\<close>

definition same_request :: "string \<Rightarrow> string \<Rightarrow> checkin_row \<Rightarrow> bool" where
  "same_request user idem r \<longleftrightarrow> cr_user_id r = user \<and> cr_idempotency_key r = idem"

definition new_checkin_row :: "(time \<Rightarrow> time) \<Rightarrow> CheckInRecord \<Rightarrow> string \<Rightarrow> string \<Rightarrow> checkin_row" where
  "new_checkin_row ts record fingerprint idem =
     \<lparr>cr_checkin_id = ci_ID record, cr_user_id = ci_UserID record, cr_member_id = ci_MemberID record,
      cr_gym_id = ci_GymID record, cr_idempotency_key = idem, cr_request_fingerprint = fingerprint,
      cr_checked_in_at = ts (ci_CheckedInAt record)\<rparr>"

text \<open>\<open>INSERT INTO check_ins ... ON CONFLICT (user_id, idempotency_key) DO NOTHING\<close>: a second row for the
  same request is skipped, a second row with the same primary key is an error.\<close>

definition insert_check_in :: "(time \<Rightarrow> time) \<Rightarrow> CheckInRecord \<Rightarrow> string \<Rightarrow> string \<Rightarrow> int stmt" where
  "insert_check_in ts record fingerprint idem t =
     (let row = new_checkin_row ts record fingerprint idem
      in if find (same_request (ci_UserID record) idem) (tb_check_ins t) \<noteq> None then Inr (0, t)
         else if ci_ID record \<in> set (map cr_checkin_id (tb_check_ins t)) then Inl unique_violation
         else Inr (1, t\<lparr>tb_check_ins := tb_check_ins t @ [row]\<rparr>))"

definition select_idempotency :: "string \<Rightarrow> string \<Rightarrow> checkin_row option stmt" where
  "select_idempotency user idem t = Inr (find (same_request user idem) (tb_check_ins t), t)"

definition select_count :: "(checkin_row \<Rightarrow> bool) \<Rightarrow> int stmt" where
  "select_count p t = Inr (affected p (tb_check_ins t), t)"

text \<open>\<open>ORDER BY checked_in_at DESC, checkin_id DESC\<close>.\<close>

definition newest_first :: "(string \<Rightarrow> string \<Rightarrow> bool) \<Rightarrow> checkin_row \<Rightarrow> checkin_row \<Rightarrow> bool" where
  "newest_first le a b \<longleftrightarrow> cr_checked_in_at b < cr_checked_in_at a
     \<or> cr_checked_in_at a = cr_checked_in_at b \<and> le (cr_checkin_id b) (cr_checkin_id a)"

definition select_page ::
  "(string \<Rightarrow> string \<Rightarrow> bool) \<Rightarrow> (checkin_row \<Rightarrow> bool) \<Rightarrow> int \<Rightarrow> int \<Rightarrow> checkin_row list stmt" where
  "select_page le p limit offset t =
     (case page_of limit offset (order_by (newest_first le) (filter p (tb_check_ins t))) of
        Inl e \<Rightarrow> Inl e
      | Inr rows \<Rightarrow> Inr (rows, t))"

section \<open>gym\_qr\_root\_keys\<close>

definition is_current :: "string \<Rightarrow> key_row \<Rightarrow> bool" where
  "is_current gym r \<longleftrightarrow> kr_gym_id r = gym \<and> kr_status r = RootKeyCurrent"

definition is_previous :: "string \<Rightarrow> key_row \<Rightarrow> bool" where
  "is_previous gym r \<longleftrightarrow> kr_gym_id r = gym \<and> kr_status r = RootKeyPrevious"

definition is_version :: "string \<Rightarrow> int \<Rightarrow> key_row \<Rightarrow> bool" where
  "is_version gym v r \<longleftrightarrow> kr_gym_id r = gym \<and> kr_key_version r = v"

definition select_key :: "(key_row \<Rightarrow> bool) \<Rightarrow> key_row option stmt" where
  "select_key p t = Inr (find p (tb_keys t), t)"

definition new_key_row :: "(time \<Rightarrow> time) \<Rightarrow> RootKey \<Rightarrow> int \<Rightarrow> key_row" where
  "new_key_row ts key v =
     \<lparr>kr_gym_id = rk_GymID key, kr_key_version = v, kr_key_ciphertext = rk_Ciphertext key,
      kr_key_reference = rk_KeyReference key, kr_status = RootKeyCurrent,
      kr_activated_at = ts (rk_ActivatedAt key), kr_acceptance_deadline = None, kr_retired_at = None\<rparr>"

text \<open>A row with status \<open>CURRENT\<close> clashes with the primary key or with the partial unique index on
  the gym's current row.\<close>

definition key_conflict :: "string \<Rightarrow> int \<Rightarrow> key_row list \<Rightarrow> bool" where
  "key_conflict gym v rows \<longleftrightarrow> find (\<lambda>r. is_version gym v r \<or> is_current gym r) rows \<noteq> None"

text \<open>\<open>INSERT INTO gym_qr_root_keys ... 'CURRENT' ... ON CONFLICT DO NOTHING\<close>.\<close>

definition insert_key_or_nothing :: "(time \<Rightarrow> time) \<Rightarrow> RootKey \<Rightarrow> int stmt" where
  "insert_key_or_nothing ts key t =
     (case bigint_arg (rk_Version key) of
        Inl e \<Rightarrow> Inl e
      | Inr v \<Rightarrow>
          if v \<le> 0 then Inl check_violation
          else if key_conflict (rk_GymID key) v (tb_keys t) then Inr (0, t)
          else Inr (1, t\<lparr>tb_keys := tb_keys t @ [new_key_row ts key v]\<rparr>))"

text \<open>The same \<open>INSERT\<close> without \<open>ON CONFLICT\<close>.\<close>

definition insert_key :: "(time \<Rightarrow> time) \<Rightarrow> RootKey \<Rightarrow> int stmt" where
  "insert_key ts key t =
     (case bigint_arg (rk_Version key) of
        Inl e \<Rightarrow> Inl e
      | Inr v \<Rightarrow>
          if v \<le> 0 then Inl check_violation
          else if key_conflict (rk_GymID key) v (tb_keys t) then Inl unique_violation
          else Inr (1, t\<lparr>tb_keys := tb_keys t @ [new_key_row ts key v]\<rparr>))"

text \<open>\<open>UPDATE ... SET status = 'RETIRED', acceptance_deadline = $2, retired_at = $2 WHERE ... 'PREVIOUS'\<close>.\<close>

definition retire_previous :: "(time \<Rightarrow> time) \<Rightarrow> string \<Rightarrow> time \<Rightarrow> int stmt" where
  "retire_previous ts gym at t =
     Inr (affected (is_previous gym) (tb_keys t),
       t\<lparr>tb_keys := update_where (is_previous gym)
          (\<lambda>r. r\<lparr>kr_status := RootKeyRetired, kr_acceptance_deadline := Some (ts at), kr_retired_at := Some (ts at)\<rparr>)
          (tb_keys t)\<rparr>)"

text \<open>\<open>UPDATE ... SET status = $2, acceptance_deadline = $3, retired_at = $4 WHERE ... key_version = $5 AND
  status = 'CURRENT'\<close>.\<close>

definition demote_current ::
  "(time \<Rightarrow> time) \<Rightarrow> string \<Rightarrow> RootKeyStatus \<Rightarrow> time \<Rightarrow> time option \<Rightarrow> int \<Rightarrow> int stmt" where
  "demote_current ts gym status deadline retired v t =
     (let p = (\<lambda>r. is_version gym v r \<and> kr_status r = RootKeyCurrent)
      in Inr (affected p (tb_keys t),
        t\<lparr>tb_keys := update_where p
           (\<lambda>r. r\<lparr>kr_status := status, kr_acceptance_deadline := Some (ts deadline),
                  kr_retired_at := map_option ts retired\<rparr>)
           (tb_keys t)\<rparr>))"

section \<open>outbox\_events\<close>

definition new_outbox_row :: "(time \<Rightarrow> time) \<Rightarrow> OutboxEvent \<Rightarrow> outbox_row" where
  "new_outbox_row ts event =
     \<lparr>or_event_id = ev_ID event, or_topic = ev_Topic event, or_message_key = ev_Key event,
      or_payload = ev_Payload event, or_prepared_value = None, or_prepared_headers = None,
      or_status = PENDING, or_attempts = 0, or_created_at = ts (ev_CreatedAt event),
      or_available_at = ts (ev_CreatedAt event), or_claimed_at = None, or_published_at = None\<rparr>"

definition insert_outbox :: "(time \<Rightarrow> time) \<Rightarrow> OutboxEvent \<Rightarrow> int stmt" where
  "insert_outbox ts event t =
     (if ev_ID event \<in> set (map or_event_id (tb_outbox t)) then Inl unique_violation
      else Inr (1, t\<lparr>tb_outbox := tb_outbox t @ [new_outbox_row ts event]\<rparr>))"

text \<open>
  The claim: rows that are due, or whose claim is stale, and that no other transaction has locked, in
  the order of their creation, at most \<open>limit\<close> of them; they become \<open>PUBLISHING\<close> and are returned in the
  order \<open>returning\<close> chooses.
\<close>

definition claimable :: "time \<Rightarrow> time \<Rightarrow> outbox_row \<Rightarrow> bool" where
  "claimable now stale r \<longleftrightarrow>
     or_status r = PENDING \<and> or_available_at r \<le> now
     \<or> or_status r = PUBLISHING \<and> (case or_claimed_at r of None \<Rightarrow> False | Some c \<Rightarrow> c < stale)"

definition claim_rows ::
  "(time \<Rightarrow> time) \<Rightarrow> (string \<Rightarrow> bool) \<Rightarrow> int \<Rightarrow> time \<Rightarrow> time \<Rightarrow> outbox_row list \<Rightarrow> outbox_row list" where
  "claim_rows ts locked limit now stale rows =
     take (nat limit) (order_by (\<lambda>a b. or_created_at a \<le> or_created_at b)
       (filter (\<lambda>r. claimable (ts now) (ts stale) r \<and> \<not> locked (or_event_id r)) rows))"

definition claim_outbox ::
  "(time \<Rightarrow> time) \<Rightarrow> (string \<Rightarrow> bool) \<Rightarrow> (outbox_row list \<Rightarrow> outbox_row list) \<Rightarrow> int \<Rightarrow> time \<Rightarrow> time
     \<Rightarrow> outbox_row list stmt" where
  "claim_outbox ts locked returning limit now stale t =
     (if limit < 0 then Inl invalid_limit
      else let ids = set (map or_event_id (claim_rows ts locked limit now stale (tb_outbox t)));
               rows = update_where (\<lambda>r. or_event_id r \<in> ids)
                 (\<lambda>r. r\<lparr>or_status := PUBLISHING, or_claimed_at := Some (ts now)\<rparr>) (tb_outbox t)
        in Inr (returning (filter (\<lambda>r. or_event_id r \<in> ids) rows), t\<lparr>tb_outbox := rows\<rparr>))"

definition is_claimed :: "string \<Rightarrow> outbox_row \<Rightarrow> bool" where
  "is_claimed eid r \<longleftrightarrow> or_event_id r = eid \<and> or_status r = PUBLISHING"

definition update_claimed :: "(outbox_row \<Rightarrow> bool) \<Rightarrow> (outbox_row \<Rightarrow> outbox_row) \<Rightarrow> int stmt" where
  "update_claimed p f t =
     Inr (affected p (tb_outbox t), t\<lparr>tb_outbox := update_where p f (tb_outbox t)\<rparr>)"

definition update_prepared :: "string \<Rightarrow> bytes \<Rightarrow> bytes \<Rightarrow> int stmt" where
  "update_prepared eid value headers =
     update_claimed (\<lambda>r. is_claimed eid r \<and> or_prepared_value r = None \<and> or_prepared_headers r = None)
       (\<lambda>r. r\<lparr>or_prepared_value := Some value, or_prepared_headers := Some headers\<rparr>)"

definition update_published :: "(time \<Rightarrow> time) \<Rightarrow> string \<Rightarrow> time \<Rightarrow> int stmt" where
  "update_published ts eid now =
     update_claimed (is_claimed eid) (\<lambda>r. r\<lparr>or_status := PUBLISHED, or_published_at := Some (ts now)\<rparr>)"

text \<open>The \<open>attempts\<close> column is an \<open>INTEGER\<close> with \<open>CHECK (attempts >= 0)\<close>.\<close>

definition checked_attempts :: "int \<Rightarrow> (outbox_row \<Rightarrow> bool) \<Rightarrow> 'a stmt \<Rightarrow> 'a stmt" where
  "checked_attempts attempts p s t =
     (if \<not> is_integer attempts then Inl out_of_range
      else if attempts < 0 \<and> find p (tb_outbox t) \<noteq> None then Inl check_violation
      else s t)"

definition update_retry :: "(time \<Rightarrow> time) \<Rightarrow> string \<Rightarrow> int \<Rightarrow> time \<Rightarrow> int stmt" where
  "update_retry ts eid attempts available =
     checked_attempts attempts (is_claimed eid)
       (update_claimed (is_claimed eid)
         (\<lambda>r. r\<lparr>or_status := PENDING, or_attempts := attempts, or_available_at := ts available,
                or_claimed_at := None\<rparr>))"

definition update_terminal :: "string \<Rightarrow> int \<Rightarrow> outbox_status \<Rightarrow> int stmt" where
  "update_terminal eid attempts status =
     checked_attempts attempts (is_claimed eid)
       (update_claimed (is_claimed eid)
         (\<lambda>r. r\<lparr>or_status := status, or_attempts := attempts, or_claimed_at := None\<rparr>))"

section \<open>Generic facts\<close>

lemma length_update_where [simp]: "length (update_where p f rows) = length rows"
  by (simp add: update_where_def)

lemma in_update_where:
  "r \<in> set (update_where p f rows) \<longleftrightarrow> (\<exists>x \<in> set rows. r = (if p x then f x else x))"
  by (auto simp: update_where_def)

lemma map_update_where:
  assumes "\<And>r. k (f r) = k r"
  shows "map k (update_where p f rows) = map k rows"
  using assms by (simp add: update_where_def)

lemma find_update_where:
  assumes "\<And>r. P (f r) = P r"
  shows "find P (update_where p f rows) = map_option (\<lambda>r. if p r then f r else r) (find P rows)"
  using assms by (induction rows) (auto simp: update_where_def)

lemma filter_update_where:
  assumes "\<And>r. p (f r) = p r"
  shows "filter p (update_where p f rows) = map f (filter p rows)"
  using assms by (induction rows) (auto simp: update_where_def)

lemma filter_update_none: "filter p rows = [] \<Longrightarrow> update_where p f rows = rows"
  by (auto simp: update_where_def filter_empty_conv intro: map_idI)

lemma mset_insert_by: "mset (insert_by le x xs) = {#x#} + mset xs"
  by (induction xs) auto

lemma mset_order_by [simp]: "mset (order_by le xs) = mset xs"
  by (induction xs) (auto simp: mset_insert_by)

lemma set_order_by [simp]: "set (order_by le xs) = set xs"
  by (metis mset_order_by set_mset_mset)

lemma length_order_by [simp]: "length (order_by le xs) = length xs"
  by (metis mset_order_by size_mset)

lemma set_insert_by [simp]: "set (insert_by le x xs) = insert x (set xs)"
  by (induction xs) auto

lemma sorted_insert_by:
  assumes total: "\<And>a b. le a b \<or> le b a" and trans: "\<And>a b c. le a b \<Longrightarrow> le b c \<Longrightarrow> le a c"
    and "sorted_wrt le xs"
  shows "sorted_wrt le (insert_by le x xs)"
  using assms(3)
proof (induction xs)
  case (Cons y ys)
  show ?case
  proof (cases "le x y")
    case True
    with Cons.prems show ?thesis
      using trans by auto
  next
    case False
    then have "le y x"
      using total by blast
    with False Cons show ?thesis
      by simp
  qed
qed simp

lemma sorted_order_by:
  assumes "\<And>a b. le a b \<or> le b a" and "\<And>a b c. le a b \<Longrightarrow> le b c \<Longrightarrow> le a c"
  shows "sorted_wrt le (order_by le xs)"
proof (induction xs)
  case (Cons x xs)
  then show ?case
    using sorted_insert_by [of le "order_by le xs" x] assms by simp
qed simp

end
