(* ===== verification/Protocol.thy ===== *)
theory Protocol
  imports Tables
begin

text \<open>
  The abstract specification of the service as a whole.  Its state is what every running instance
  shares: the tables and the records the Kafka broker holds.  \<open>sys_step\<close> has one rule per atomic
  change an instance may make, with the condition under which the protocol allows it: a record is
  published only after its frame is stored, an event becomes \<open>PUBLISHED\<close> only after its frame is at the
  broker and \<open>FAILED\<close> only after its frame is at the dead-letter topic, a check-in and its event are
  inserted together.  The theories of the store, the service and the relay show that the program's
  operations, with failures and with other instances running between their database calls, only ever
  move along these steps.  \<open>sys_inv\<close> is the invariant of the shared state and \<open>grows\<close> what no step
  ever undoes.
\<close>

section \<open>State\<close>

text \<open>\<open>commonkafka.Header\<close> and \<open>commonkafka.RawRecord\<close>.\<close>

type_synonym header = "string \<times> bytes"

record RawRecord =
  rr_Topic :: string
  rr_Key :: bytes
  rr_Value :: bytes
  rr_Headers :: "header list"

record shared =
  sh_tables :: tables
  sh_broker :: "RawRecord list"

definition empty_shared :: shared where
  "empty_shared = \<lparr>sh_tables = \<lparr>tb_keys = [], tb_check_ins = [], tb_outbox = []\<rparr>, sh_broker = []\<rparr>"

definition checkInTopic :: string where
  "checkInTopic = ''checkin.recorded.v1''"

definition maxPublishFailures :: int where
  "maxPublishFailures = 3"

text \<open>A record carries the stored frame of an outbox row, on the row's topic or on its dead-letter topic.\<close>

definition frames :: "outbox_row \<Rightarrow> RawRecord \<Rightarrow> bool" where
  "frames e r \<longleftrightarrow> rr_Topic r = or_topic e \<and> rr_Key r = bytes_of (or_message_key e)
     \<and> or_prepared_value e = Some (rr_Value r)"

definition dlq_frames :: "outbox_row \<Rightarrow> RawRecord \<Rightarrow> bool" where
  "dlq_frames e r \<longleftrightarrow> rr_Topic r = or_topic e @ ''.DLQ'' \<and> rr_Key r = bytes_of (or_message_key e)
     \<and> or_prepared_value e = Some (rr_Value r)"

definition delivered :: "shared \<Rightarrow> string \<Rightarrow> bool" where
  "delivered s eid \<longleftrightarrow> (\<exists>e \<in> set (tb_outbox (sh_tables s)). or_event_id e = eid
     \<and> (\<exists>r \<in> set (sh_broker s). frames e r))"

definition dead_lettered :: "shared \<Rightarrow> string \<Rightarrow> bool" where
  "dead_lettered s eid \<longleftrightarrow> (\<exists>e \<in> set (tb_outbox (sh_tables s)). or_event_id e = eid
     \<and> (\<exists>r \<in> set (sh_broker s). dlq_frames e r))"

text \<open>The event that goes with a check-in.\<close>

definition event_for :: "CheckInRecord \<Rightarrow> OutboxEvent \<Rightarrow> bool" where
  "event_for record event \<longleftrightarrow> ev_Topic event = checkInTopic \<and> ev_Key event = ci_MemberID record
     \<and> ev_CreatedAt event = ci_CheckedInAt record"

definition demoted :: "(time \<Rightarrow> time) \<Rightarrow> time \<Rightarrow> bool \<Rightarrow> key_row \<Rightarrow> key_row" where
  "demoted ts deadline emergency r =
     r\<lparr>kr_status := (if emergency then RootKeyRetired else RootKeyPrevious),
       kr_acceptance_deadline := Some (ts deadline),
       kr_retired_at := (if emergency then Some (ts deadline) else None)\<rparr>"

definition retired :: "(time \<Rightarrow> time) \<Rightarrow> time \<Rightarrow> key_row \<Rightarrow> key_row" where
  "retired ts at r =
     r\<lparr>kr_status := RootKeyRetired, kr_acceptance_deadline := Some (ts at), kr_retired_at := Some (ts at)\<rparr>"

text \<open>One rotation: the previous key retires, the current one steps down, the new one follows it.\<close>

definition rotated :: "(time \<Rightarrow> time) \<Rightarrow> RootKey \<Rightarrow> key_row \<Rightarrow> time \<Rightarrow> bool \<Rightarrow> key_row list \<Rightarrow> key_row list" where
  "rotated ts key cur deadline emergency rows =
     map (\<lambda>r. if is_previous (rk_GymID key) r then retired ts (rk_ActivatedAt key) r
              else if is_current (rk_GymID key) r then demoted ts deadline emergency r else r) rows
       @ [new_key_row ts key (kr_key_version cur + 1)]"

section \<open>Steps\<close>

inductive sys_step :: "(time \<Rightarrow> time) \<Rightarrow> shared \<Rightarrow> shared \<Rightarrow> bool" for ts where
  create_key:
    "insert_key_or_nothing ts key (sh_tables s) = Inr (n, t) \<Longrightarrow> sys_step ts s (s\<lparr>sh_tables := t\<rparr>)"
| rotate_key:
    "cur \<in> set (tb_keys (sh_tables s)) \<Longrightarrow> is_current (rk_GymID key) cur \<Longrightarrow>
     kr_key_version cur + 1 < 2 ^ 63 \<Longrightarrow>
     sys_step ts s (s\<lparr>sh_tables := (sh_tables s)
       \<lparr>tb_keys := rotated ts key cur deadline emergency (tb_keys (sh_tables s))\<rparr>\<rparr>)"
| check_in:
    "insert_check_in ts record fingerprint idem (sh_tables s) = Inr (1, t) \<Longrightarrow>
     insert_outbox ts event t = Inr (1, u) \<Longrightarrow> event_for record event \<Longrightarrow>
     sys_step ts s (s\<lparr>sh_tables := u\<rparr>)"
| claim:
    "claim_outbox ts locked returning limit now stale (sh_tables s) = Inr (rows, t) \<Longrightarrow>
     sys_step ts s (s\<lparr>sh_tables := t\<rparr>)"
| prepare:
    "update_prepared eid value headers (sh_tables s) = Inr (n, t) \<Longrightarrow>
     sys_step ts s (s\<lparr>sh_tables := t\<rparr>)"
| publish:
    "e \<in> set (tb_outbox (sh_tables s)) \<Longrightarrow> frames e r \<or> dlq_frames e r \<Longrightarrow>
     sys_step ts s (s\<lparr>sh_broker := sh_broker s @ [r]\<rparr>)"
| mark_published:
    "delivered s eid \<Longrightarrow> update_published ts eid now (sh_tables s) = Inr (n, t) \<Longrightarrow>
     sys_step ts s (s\<lparr>sh_tables := t\<rparr>)"
| mark_retry:
    "attempts \<le> maxPublishFailures \<Longrightarrow> update_retry ts eid attempts available (sh_tables s) = Inr (n, t) \<Longrightarrow>
     sys_step ts s (s\<lparr>sh_tables := t\<rparr>)"
| mark_failed:
    "dead_lettered s eid \<Longrightarrow> attempts \<le> maxPublishFailures \<Longrightarrow>
     update_terminal eid attempts FAILED (sh_tables s) = Inr (n, t) \<Longrightarrow>
     sys_step ts s (s\<lparr>sh_tables := t\<rparr>)"
| mark_invalid:
    "attempts \<le> maxPublishFailures + 1 \<Longrightarrow>
     update_terminal eid attempts INVALID (sh_tables s) = Inr (n, t) \<Longrightarrow>
     sys_step ts s (s\<lparr>sh_tables := t\<rparr>)"

section \<open>What is never undone\<close>

text \<open>A list extended at its end, its old elements related one by one.\<close>

definition ext :: "('a \<Rightarrow> 'a \<Rightarrow> bool) \<Rightarrow> 'a list \<Rightarrow> 'a list \<Rightarrow> bool" where
  "ext R xs ys \<longleftrightarrow> length xs \<le> length ys \<and> (\<forall>i < length xs. R (xs ! i) (ys ! i))"

lemma ext_refl: "(\<And>x. R x x) \<Longrightarrow> ext R xs xs"
  by (simp add: ext_def)

lemma ext_trans:
  assumes "\<And>x y z. R x y \<Longrightarrow> R y z \<Longrightarrow> R x z"
  shows "ext R xs ys \<Longrightarrow> ext R ys zs \<Longrightarrow> ext R xs zs"
  unfolding ext_def using assms by (meson le_trans less_le_trans)

lemma ext_map_append: "(\<And>x. x \<in> set xs \<Longrightarrow> R x (f x)) \<Longrightarrow> ext R xs (map f xs @ zs)"
  by (simp add: ext_def nth_append)

lemma ext_append: "(\<And>x. R x x) \<Longrightarrow> ext R xs (xs @ zs)"
  by (simp add: ext_def nth_append)

lemma ext_update:
  "(\<And>x. R x x) \<Longrightarrow> (\<And>x. x \<in> set xs \<Longrightarrow> p x \<Longrightarrow> R x (f x)) \<Longrightarrow> ext R xs (update_where p f xs)"
  using ext_map_append [of xs R "\<lambda>r. if p r then f r else r" "[]"] by (simp add: update_where_def)

lemma ext_mem: "ext R xs ys \<Longrightarrow> x \<in> set xs \<Longrightarrow> \<exists>y \<in> set ys. R x y"
  unfolding ext_def by (metis in_set_conv_nth less_le_trans nth_mem)

text \<open>A key row keeps its identity and its secret; its status only steps down, and a retired row is frozen.\<close>

definition key_le :: "key_row \<Rightarrow> key_row \<Rightarrow> bool" where
  "key_le r r' \<longleftrightarrow> kr_gym_id r' = kr_gym_id r \<and> kr_key_version r' = kr_key_version r
     \<and> kr_key_ciphertext r' = kr_key_ciphertext r \<and> kr_key_reference r' = kr_key_reference r
     \<and> kr_activated_at r' = kr_activated_at r
     \<and> (kr_status r = RootKeyRetired \<longrightarrow> r' = r)
     \<and> (kr_status r = RootKeyPrevious \<longrightarrow> r' = r \<or> kr_status r' = RootKeyRetired)"

text \<open>An outbox row keeps its event; its frame is stored once; a terminal row is frozen.\<close>

definition terminal :: "outbox_status \<Rightarrow> bool" where
  "terminal st \<longleftrightarrow> st = PUBLISHED \<or> st = FAILED \<or> st = INVALID"

definition outbox_le :: "outbox_row \<Rightarrow> outbox_row \<Rightarrow> bool" where
  "outbox_le r r' \<longleftrightarrow> or_event_id r' = or_event_id r \<and> or_topic r' = or_topic r
     \<and> or_message_key r' = or_message_key r \<and> or_payload r' = or_payload r
     \<and> or_created_at r' = or_created_at r
     \<and> (\<forall>v. or_prepared_value r = Some v \<longrightarrow> or_prepared_value r' = Some v)
     \<and> (terminal (or_status r) \<longrightarrow> r' = r)"

definition grows :: "shared \<Rightarrow> shared \<Rightarrow> bool" where
  "grows s s' \<longleftrightarrow> ext key_le (tb_keys (sh_tables s)) (tb_keys (sh_tables s'))
     \<and> ext (=) (tb_check_ins (sh_tables s)) (tb_check_ins (sh_tables s'))
     \<and> ext outbox_le (tb_outbox (sh_tables s)) (tb_outbox (sh_tables s'))
     \<and> ext (=) (sh_broker s) (sh_broker s')"

lemma key_le_refl [simp]: "key_le r r"
  by (simp add: key_le_def)

lemma key_le_trans: "key_le a b \<Longrightarrow> key_le b c \<Longrightarrow> key_le a c"
  by (auto simp: key_le_def)

lemma outbox_le_refl [simp]: "outbox_le r r"
  by (simp add: outbox_le_def)

lemma outbox_le_trans: "outbox_le a b \<Longrightarrow> outbox_le b c \<Longrightarrow> outbox_le a c"
  by (auto simp: outbox_le_def)

lemma grows_refl [simp]: "grows s s"
  by (simp add: grows_def ext_refl)

lemma grows_trans: "grows a b \<Longrightarrow> grows b c \<Longrightarrow> grows a c"
  unfolding grows_def
  by (blast intro: ext_trans [of key_le] ext_trans [of "(=)"] ext_trans [of outbox_le] key_le_trans outbox_le_trans)

section \<open>The invariant\<close>

definition key_id :: "key_row \<Rightarrow> string \<times> int" where
  "key_id r = (kr_gym_id r, kr_key_version r)"

definition key_row_ok :: "key_row list \<Rightarrow> key_row \<Rightarrow> bool" where
  "key_row_ok rows r \<longleftrightarrow> 0 < kr_key_version r \<and> kr_key_version r < 2 ^ 63
     \<and> (kr_status r = RootKeyCurrent \<longleftrightarrow> kr_acceptance_deadline r = None)
     \<and> (kr_status r = RootKeyRetired \<longleftrightarrow> kr_retired_at r \<noteq> None)
     \<and> (\<exists>c \<in> set rows. is_current (kr_gym_id r) c \<and> kr_key_version r \<le> kr_key_version c)"

text \<open>The newest key of a gym is its one current key, and its predecessor is its one previous key.\<close>

definition keys_inv :: "key_row list \<Rightarrow> bool" where
  "keys_inv rows \<longleftrightarrow> distinct (map key_id rows) \<and> (\<forall>r \<in> set rows. key_row_ok rows r)
     \<and> (\<forall>r \<in> set rows. \<forall>c \<in> set rows. is_current (kr_gym_id r) c \<longrightarrow>
          (kr_status r = RootKeyCurrent \<longrightarrow> r = c)
          \<and> (kr_status r = RootKeyPrevious \<longrightarrow> kr_key_version c = kr_key_version r + 1))"

definition checkins_inv :: "checkin_row list \<Rightarrow> bool" where
  "checkins_inv rows \<longleftrightarrow> distinct (map cr_checkin_id rows)
     \<and> distinct (map (\<lambda>r. (cr_user_id r, cr_idempotency_key r)) rows)"

definition outbox_row_ok :: "RawRecord list \<Rightarrow> outbox_row \<Rightarrow> bool" where
  "outbox_row_ok broker e \<longleftrightarrow>
     (or_prepared_value e = None \<longleftrightarrow> or_prepared_headers e = None)
     \<and> 0 \<le> or_attempts e \<and> or_attempts e \<le> maxPublishFailures + 1
     \<and> (or_status e \<noteq> INVALID \<longrightarrow> or_attempts e \<le> maxPublishFailures)
     \<and> (or_status e = PUBLISHING \<longrightarrow> or_claimed_at e \<noteq> None)
     \<and> (or_status e = PUBLISHED \<longrightarrow> or_published_at e \<noteq> None \<and> (\<exists>r \<in> set broker. frames e r))
     \<and> (or_status e = FAILED \<longrightarrow> (\<exists>r \<in> set broker. dlq_frames e r))"

text \<open>The outbox row that was inserted with a check-in.\<close>

definition event_of :: "checkin_row \<Rightarrow> outbox_row \<Rightarrow> bool" where
  "event_of c e \<longleftrightarrow> or_topic e = checkInTopic \<and> or_message_key e = cr_member_id c
     \<and> or_created_at e = cr_checked_in_at c"

definition outbox_inv :: "RawRecord list \<Rightarrow> outbox_row list \<Rightarrow> bool" where
  "outbox_inv broker rows \<longleftrightarrow> distinct (map or_event_id rows)
     \<and> (\<forall>e \<in> set rows. outbox_row_ok broker e)
     \<and> (\<forall>r \<in> set broker. \<exists>e \<in> set rows. frames e r \<or> dlq_frames e r)"

definition sys_inv :: "shared \<Rightarrow> bool" where
  "sys_inv s \<longleftrightarrow> keys_inv (tb_keys (sh_tables s)) \<and> checkins_inv (tb_check_ins (sh_tables s))
     \<and> outbox_inv (sh_broker s) (tb_outbox (sh_tables s))
     \<and> list_all2 event_of (tb_check_ins (sh_tables s)) (tb_outbox (sh_tables s))"

subsection \<open>Keys\<close>

lemma keys_inv_Nil [simp]: "keys_inv []"
  by (simp add: keys_inv_def)

lemma current_unique:
  "keys_inv rows \<Longrightarrow> r \<in> set rows \<Longrightarrow> c \<in> set rows \<Longrightarrow> is_current g r \<Longrightarrow> is_current g c \<Longrightarrow> r = c"
  unfolding keys_inv_def is_current_def by metis

lemma version_range: "keys_inv rows \<Longrightarrow> r \<in> set rows \<Longrightarrow> 0 < kr_key_version r \<and> kr_key_version r < 2 ^ 63"
  unfolding keys_inv_def key_row_ok_def by blast

lemma current_newest:
  assumes "keys_inv rows" and "r \<in> set rows" and "c \<in> set rows" and "is_current (kr_gym_id r) c"
  shows "kr_key_version r \<le> kr_key_version c"
proof -
  obtain c' where "c' \<in> set rows" "is_current (kr_gym_id r) c'" "kr_key_version r \<le> kr_key_version c'"
    using assms(1,2) unfolding keys_inv_def key_row_ok_def by blast
  with current_unique [OF assms(1) _ assms(3) _ assms(4)] show ?thesis
    by blast
qed

lemma keys_invI:
  assumes "distinct (map key_id rows)" and "\<And>r. r \<in> set rows \<Longrightarrow> key_row_ok rows r"
    and "\<And>r c. r \<in> set rows \<Longrightarrow> c \<in> set rows \<Longrightarrow> is_current (kr_gym_id r) c \<Longrightarrow>
          (kr_status r = RootKeyCurrent \<longrightarrow> r = c)
          \<and> (kr_status r = RootKeyPrevious \<longrightarrow> kr_key_version c = kr_key_version r + 1)"
  shows "keys_inv rows"
  unfolding keys_inv_def using assms by blast

lemma keys_inv_insert:
  assumes inv: "keys_inv rows" and none: "\<not> key_conflict (rk_GymID key) v rows" and v: "0 < v" "v < 2 ^ 63"
  shows "keys_inv (rows @ [new_key_row ts key v])"
proof -
  have no_cur: "\<not> is_current (rk_GymID key) r" if "r \<in> set rows" for r
    using none that by (auto simp: key_conflict_def find_None_iff)
  have other: "kr_gym_id r \<noteq> rk_GymID key" if "r \<in> set rows" for r
    using inv no_cur that by (fastforce simp: keys_inv_def key_row_ok_def)
  let ?n = "new_key_row ts key v"
  have new: "kr_gym_id ?n = rk_GymID key" "kr_status ?n = RootKeyCurrent"
    by (simp_all add: new_key_row_def)
  show ?thesis
  proof (rule keys_invI)
    show "distinct (map key_id (rows @ [?n]))"
      using inv by (auto simp: keys_inv_def key_id_def new_key_row_def dest: other)
    show "key_row_ok (rows @ [?n]) r" if "r \<in> set (rows @ [?n])" for r
    proof (cases "r = ?n")
      case True
      with v show ?thesis
        by (simp add: key_row_ok_def new_key_row_def is_current_def)
    next
      case False
      with inv that show ?thesis
        by (auto simp: keys_inv_def key_row_ok_def)
    qed
    fix r c
    assume r: "r \<in> set (rows @ [?n])" and c: "c \<in> set (rows @ [?n])" "is_current (kr_gym_id r) c"
    have "r = ?n \<longleftrightarrow> c = ?n"
      using r c other new by (metis Un_iff empty_iff insert_iff is_current_def list.set set_append)
    then show "(kr_status r = RootKeyCurrent \<longrightarrow> r = c)
        \<and> (kr_status r = RootKeyPrevious \<longrightarrow> kr_key_version c = kr_key_version r + 1)"
      using inv r c new unfolding keys_inv_def by (cases "r = ?n") auto
  qed
qed

lemma insert_key_or_nothing_Inr:
  assumes "insert_key_or_nothing ts key t = Inr (n, t')"
  shows "t' = t \<or> (\<exists>v. t' = t\<lparr>tb_keys := tb_keys t @ [new_key_row ts key v]\<rparr> \<and> 0 < v \<and> v < 2 ^ 63
      \<and> \<not> key_conflict (rk_GymID key) v (tb_keys t))"
proof (cases "uint (rk_Version key) < 2 ^ 63")
  case True
  with assms show ?thesis
    by (simp add: insert_key_or_nothing_def bigint_arg_def split: if_splits)
      (metis not_less_iff_gr_or_eq uint_ge_0 order_le_less)
next
  case False
  with assms show ?thesis
    by (simp add: insert_key_or_nothing_def bigint_arg_def)
qed

text \<open>How a rotation changes one row.\<close>

definition rotate_row :: "(time \<Rightarrow> time) \<Rightarrow> RootKey \<Rightarrow> time \<Rightarrow> bool \<Rightarrow> key_row \<Rightarrow> key_row" where
  "rotate_row ts key deadline emergency r =
     (if is_previous (rk_GymID key) r then retired ts (rk_ActivatedAt key) r
      else if is_current (rk_GymID key) r then demoted ts deadline emergency r else r)"

lemma rotated_alt:
  "rotated ts key cur deadline emergency rows =
     map (rotate_row ts key deadline emergency) rows @ [new_key_row ts key (kr_key_version cur + 1)]"
  by (simp add: rotated_def rotate_row_def)

lemma rotate_row_same [simp]:
  "kr_gym_id (rotate_row ts key dl em r) = kr_gym_id r"
  "kr_key_version (rotate_row ts key dl em r) = kr_key_version r"
  "key_id (rotate_row ts key dl em r) = key_id r"
  by (simp_all add: rotate_row_def retired_def demoted_def key_id_def)

lemma rotate_row_other: "kr_gym_id r \<noteq> rk_GymID key \<Longrightarrow> rotate_row ts key dl em r = r"
  by (simp add: rotate_row_def is_previous_def is_current_def)

lemma rotate_row_status:
  assumes "kr_gym_id r = rk_GymID key"
  shows "kr_status (rotate_row ts key dl em r) =
     (if kr_status r = RootKeyCurrent \<and> \<not> em then RootKeyPrevious else RootKeyRetired)"
  using assms by (cases "kr_status r") (simp_all add: rotate_row_def is_previous_def is_current_def retired_def demoted_def)

lemma new_key_row_simps [simp]:
  "kr_gym_id (new_key_row ts key v) = rk_GymID key" "kr_key_version (new_key_row ts key v) = v"
  "kr_status (new_key_row ts key v) = RootKeyCurrent"
  "kr_acceptance_deadline (new_key_row ts key v) = None" "kr_retired_at (new_key_row ts key v) = None"
  by (simp_all add: new_key_row_def)

lemma in_rotated:
  "r \<in> set (rotated ts key cur deadline emergency rows) \<longleftrightarrow>
     r = new_key_row ts key (kr_key_version cur + 1) \<or> (\<exists>x \<in> set rows. r = rotate_row ts key deadline emergency x)"
  by (auto simp: rotated_alt)

lemma rotated_distinct:
  assumes inv: "keys_inv rows" and cur: "cur \<in> set rows" "is_current (rk_GymID key) cur"
  shows "distinct (map key_id (rotated ts key cur deadline emergency rows))"
proof -
  have "kr_key_version r \<le> kr_key_version cur" if "r \<in> set rows" "kr_gym_id r = rk_GymID key" for r
    using current_newest [OF inv that(1) cur(1)] cur(2) that(2) by simp
  then have "key_id (new_key_row ts key (kr_key_version cur + 1)) \<notin> set (map key_id rows)"
    by (fastforce simp: key_id_def)
  then show ?thesis
    using inv by (simp add: rotated_alt keys_inv_def o_def)
qed

lemma rotated_row_ok:
  assumes inv: "keys_inv rows" and cur: "cur \<in> set rows" "is_current (rk_GymID key) cur"
    and r: "r \<in> set rows"
  shows "key_row_ok (rotated ts key cur deadline emergency rows) (rotate_row ts key deadline emergency r)"
proof -
  let ?n = "new_key_row ts key (kr_key_version cur + 1)" and ?rows = "rotated ts key cur deadline emergency rows"
  have ok: "key_row_ok rows r"
    using inv r by (simp add: keys_inv_def)
  show ?thesis
  proof (cases "kr_gym_id r = rk_GymID key")
    case True
    have "?n \<in> set ?rows" "is_current (kr_gym_id r) ?n" "kr_key_version r \<le> kr_key_version ?n"
      using current_newest [OF inv r cur(1)] cur(2) True by (simp_all add: in_rotated is_current_def)
    then have "\<exists>c \<in> set ?rows. is_current (kr_gym_id r) c \<and> kr_key_version r \<le> kr_key_version c"
      by blast
    then show ?thesis
      using ok True unfolding key_row_ok_def
      by (cases "kr_status r"; cases emergency)
        (simp_all add: rotate_row_def is_previous_def is_current_def [of _ r] retired_def demoted_def)
  next
    case False
    from ok obtain c where c: "c \<in> set rows" "is_current (kr_gym_id r) c" "kr_key_version r \<le> kr_key_version c"
      by (auto simp: key_row_ok_def)
    then have "c \<in> set ?rows"
      using False rotate_row_other [of c key ts deadline emergency] by (force simp: in_rotated is_current_def)
    with ok False c show ?thesis
      unfolding key_row_ok_def by (auto simp: rotate_row_other)
  qed
qed

lemma rotated_pair:
  assumes inv: "keys_inv rows" and cur: "cur \<in> set rows" "is_current (rk_GymID key) cur"
    and r: "r \<in> set (rotated ts key cur deadline emergency rows)"
    and c: "c \<in> set (rotated ts key cur deadline emergency rows)" "is_current (kr_gym_id r) c"
  shows "(kr_status r = RootKeyCurrent \<longrightarrow> r = c)
    \<and> (kr_status r = RootKeyPrevious \<longrightarrow> kr_key_version c = kr_key_version r + 1)"
proof (cases "kr_gym_id r = rk_GymID key")
  case True
  let ?n = "new_key_row ts key (kr_key_version cur + 1)"
  have only: "x = ?n" if "x \<in> set (rotated ts key cur deadline emergency rows)" "is_current (rk_GymID key) x" for x
    using that by (auto simp: in_rotated is_current_def rotate_row_status split: if_splits)
  have "kr_key_version r = kr_key_version cur" if prev: "kr_status r = RootKeyPrevious"
  proof -
    obtain x where x: "x \<in> set rows" "r = rotate_row ts key deadline emergency x"
      using prev r by (auto simp: in_rotated)
    then have "is_current (rk_GymID key) x"
      using prev True by (auto simp: rotate_row_status is_current_def split: if_splits)
    then show ?thesis
      using current_unique [OF inv x(1) cur(1) _ cur(2)] x(2) by simp
  qed
  then show ?thesis
    using only [OF c(1)] only [OF r] c(2) True by (auto simp: is_current_def)
next
  case False
  then have "r \<in> set rows" "c \<in> set rows"
    using r c by (auto simp: in_rotated is_current_def rotate_row_other)
  then show ?thesis
    using inv c(2) unfolding keys_inv_def by blast
qed

lemma keys_inv_rotated:
  assumes inv: "keys_inv rows" and cur: "cur \<in> set rows" "is_current (rk_GymID key) cur"
    and v: "kr_key_version cur + 1 < 2 ^ 63"
  shows "keys_inv (rotated ts key cur deadline emergency rows)"
proof (rule keys_invI)
  let ?rows = "rotated ts key cur deadline emergency rows" and ?n = "new_key_row ts key (kr_key_version cur + 1)"
  have "key_row_ok ?rows ?n"
    using v version_range [OF inv cur(1)]
    by (auto simp: key_row_ok_def is_current_def in_rotated intro!: bexI [of _ ?n])
  then show "key_row_ok ?rows r" if "r \<in> set ?rows" for r
    using that rotated_row_ok [OF inv cur] by (auto simp: in_rotated)
qed (use rotated_distinct [OF inv cur] rotated_pair [OF inv cur] in auto)

subsection \<open>Check-ins\<close>

lemma insert_check_in_one:
  assumes "insert_check_in ts record fp idem t = Inr (n, u)"
  shows "u = t \<and> n = 0 \<or> n = 1 \<and> u = t\<lparr>tb_check_ins := tb_check_ins t @ [new_checkin_row ts record fp idem]\<rparr>
     \<and> find (same_request (ci_UserID record) idem) (tb_check_ins t) = None
     \<and> ci_ID record \<notin> set (map cr_checkin_id (tb_check_ins t))"
  using assms by (auto simp: insert_check_in_def Let_def split: if_splits)

lemma insert_outbox_Inr:
  assumes "insert_outbox ts event t = Inr (n, u)"
  shows "n = 1 \<and> u = t\<lparr>tb_outbox := tb_outbox t @ [new_outbox_row ts event]\<rparr>
     \<and> ev_ID event \<notin> set (map or_event_id (tb_outbox t))"
  using assms by (auto simp: insert_outbox_def split: if_splits)

lemma checkins_inv_insert:
  assumes "checkins_inv rows" and "find (same_request (ci_UserID record) idem) rows = None"
    and "ci_ID record \<notin> set (map cr_checkin_id rows)"
  shows "checkins_inv (rows @ [new_checkin_row ts record fp idem])"
  using assms by (auto simp: checkins_inv_def new_checkin_row_def find_None_iff same_request_def)

subsection \<open>Outbox\<close>

lemma frames_same:
  assumes "or_topic e' = or_topic e" "or_message_key e' = or_message_key e"
    "\<And>v. or_prepared_value e = Some v \<Longrightarrow> or_prepared_value e' = Some v"
  shows "frames e r \<Longrightarrow> frames e' r" "dlq_frames e r \<Longrightarrow> dlq_frames e' r"
  using assms by (auto simp: frames_def dlq_frames_def)

lemma outbox_row_ok_mono: "outbox_row_ok B e \<Longrightarrow> set B \<subseteq> set B' \<Longrightarrow> outbox_row_ok B' e"
  by (auto simp: outbox_row_ok_def)

text \<open>An update of rows that keeps every row's event and frame and leaves each updated row in order.\<close>

lemma outbox_inv_update:
  assumes inv: "outbox_inv B rows"
    and same: "\<And>e. e \<in> set rows \<Longrightarrow> p e \<Longrightarrow> outbox_le e (f e) \<and> outbox_row_ok B (f e)"
  shows "outbox_inv B (update_where p f rows)"
proof -
  have "map or_event_id (update_where p f rows) = map or_event_id rows"
    using same by (auto simp: update_where_def outbox_le_def)
  moreover have "outbox_row_ok B e" if "e \<in> set (update_where p f rows)" for e
    using that inv same by (auto simp: in_update_where outbox_inv_def)
  moreover have "\<exists>e' \<in> set (update_where p f rows). frames e' r \<or> dlq_frames e' r" if "r \<in> set B" for r
  proof -
    obtain e where e: "e \<in> set rows" "frames e r \<or> dlq_frames e r"
      using inv \<open>r \<in> set B\<close> unfolding outbox_inv_def by blast
    let ?e = "if p e then f e else e"
    have "?e \<in> set (update_where p f rows)"
      using e by (auto simp: in_update_where)
    moreover have "frames ?e r \<or> dlq_frames ?e r"
      using e same frames_same [of "f e" e r] by (auto simp: outbox_le_def)
    ultimately show ?thesis
      by blast
  qed
  ultimately show ?thesis
    using inv by (simp add: outbox_inv_def)
qed

lemma event_of_update:
  assumes "list_all2 event_of cs rows" and "\<And>e. e \<in> set rows \<Longrightarrow> p e \<Longrightarrow> outbox_le e (f e)"
  shows "list_all2 event_of cs (update_where p f rows)"
proof -
  have "event_of c (if p e then f e else e)" if "event_of c e" "e \<in> set rows" for c e
    using that assms(2) by (auto simp: event_of_def outbox_le_def)
  with assms(1) show ?thesis
    by (auto simp: update_where_def list_all2_conv_all_nth)
qed

lemma outbox_inv_insert:
  assumes "outbox_inv B rows" and "ev_ID event \<notin> set (map or_event_id rows)"
  shows "outbox_inv B (rows @ [new_outbox_row ts event])"
proof -
  have "outbox_row_ok B (new_outbox_row ts event)"
    by (simp add: outbox_row_ok_def new_outbox_row_def maxPublishFailures_def)
  with assms show ?thesis
    by (auto simp: outbox_inv_def new_outbox_row_def)
qed

lemma claimed_not_terminal: "is_claimed eid e \<Longrightarrow> \<not> terminal (or_status e)"
  by (simp add: is_claimed_def terminal_def)

text \<open>Rows the claim statement takes are not terminal.\<close>

lemma claim_rows_sub:
  "e \<in> set (claim_rows ts locked limit now stale rows) \<Longrightarrow>
     e \<in> set rows \<and> claimable (ts now) (ts stale) e \<and> \<not> locked (or_event_id e)"
  unfolding claim_rows_def by (auto dest: in_set_takeD)

lemma claimed_ids_claimable:
  assumes "distinct (map or_event_id rows)" and "e \<in> set rows"
    and "or_event_id e \<in> set (map or_event_id (claim_rows ts locked limit now stale rows))"
  shows "claimable (ts now) (ts stale) e"
proof -
  obtain x where x: "x \<in> set (claim_rows ts locked limit now stale rows)" "or_event_id x = or_event_id e"
    using assms(3) by auto
  then have "x = e"
    using assms claim_rows_sub map_update_unique by metis
  with x show ?thesis
    using claim_rows_sub by blast
qed

lemma claimable_not_terminal: "claimable now stale e \<Longrightarrow> \<not> terminal (or_status e)"
  by (auto simp: claimable_def terminal_def)

subsection \<open>Steps on the outbox\<close>

text \<open>The shape all steps on existing outbox rows share.\<close>

definition outbox_change :: "shared \<Rightarrow> shared \<Rightarrow> bool" where
  "outbox_change s t \<longleftrightarrow> (\<exists>p f. t = s\<lparr>sh_tables := (sh_tables s)
       \<lparr>tb_outbox := update_where p f (tb_outbox (sh_tables s))\<rparr>\<rparr>
     \<and> (\<forall>e \<in> set (tb_outbox (sh_tables s)). p e \<longrightarrow>
          outbox_le e (f e) \<and> outbox_row_ok (sh_broker s) (f e)))"

lemma outbox_changeI:
  assumes "u = (sh_tables s)\<lparr>tb_outbox := update_where p f (tb_outbox (sh_tables s))\<rparr>"
    and "\<And>e. e \<in> set (tb_outbox (sh_tables s)) \<Longrightarrow> p e \<Longrightarrow>
          outbox_le e (f e) \<and> outbox_row_ok (sh_broker s) (f e)"
  shows "outbox_change s (s\<lparr>sh_tables := u\<rparr>)"
  unfolding outbox_change_def using assms by blast

lemma outbox_row: "sys_inv s \<Longrightarrow> e \<in> set (tb_outbox (sh_tables s)) \<Longrightarrow> outbox_row_ok (sh_broker s) e"
  by (simp add: sys_inv_def outbox_inv_def)

lemma claim_change:
  assumes inv: "sys_inv s" and c: "claim_outbox ts locked returning limit now stale (sh_tables s) = Inr (rows, u)"
  shows "outbox_change s (s\<lparr>sh_tables := u\<rparr>)"
proof -
  let ?rows = "tb_outbox (sh_tables s)"
  let ?ids = "set (map or_event_id (claim_rows ts locked limit now stale ?rows))"
  have dist: "distinct (map or_event_id ?rows)"
    using inv by (simp add: sys_inv_def outbox_inv_def)
  show ?thesis
  proof (rule outbox_changeI)
    show "u = (sh_tables s)\<lparr>tb_outbox := update_where (\<lambda>r. or_event_id r \<in> ?ids)
        (\<lambda>r. r\<lparr>or_status := PUBLISHING, or_claimed_at := Some (ts now)\<rparr>) ?rows\<rparr>"
      using c by (simp add: claim_outbox_def Let_def split: if_splits)
    fix e
    assume e: "e \<in> set ?rows" "or_event_id e \<in> ?ids"
    have "\<not> terminal (or_status e)"
      using claimed_ids_claimable [OF dist e] by (rule claimable_not_terminal)
    with outbox_row [OF inv e(1)]
    show "outbox_le e (e\<lparr>or_status := PUBLISHING, or_claimed_at := Some (ts now)\<rparr>)
        \<and> outbox_row_ok (sh_broker s) (e\<lparr>or_status := PUBLISHING, or_claimed_at := Some (ts now)\<rparr>)"
      by (auto simp: outbox_le_def outbox_row_ok_def terminal_def)
  qed
qed

lemma prepare_change:
  assumes inv: "sys_inv s" and c: "update_prepared eid v h (sh_tables s) = Inr (n, u)"
  shows "outbox_change s (s\<lparr>sh_tables := u\<rparr>)"
proof (rule outbox_changeI)
  let ?p = "\<lambda>r. is_claimed eid r \<and> or_prepared_value r = None \<and> or_prepared_headers r = None"
  show "u = (sh_tables s)\<lparr>tb_outbox := update_where ?p
      (\<lambda>r. r\<lparr>or_prepared_value := Some v, or_prepared_headers := Some h\<rparr>) (tb_outbox (sh_tables s))\<rparr>"
    using c by (simp add: update_prepared_def update_claimed_def)
  fix e
  assume e: "e \<in> set (tb_outbox (sh_tables s))" "?p e"
  with outbox_row [OF inv e(1)]
  show "outbox_le e (e\<lparr>or_prepared_value := Some v, or_prepared_headers := Some h\<rparr>)
      \<and> outbox_row_ok (sh_broker s) (e\<lparr>or_prepared_value := Some v, or_prepared_headers := Some h\<rparr>)"
    by (auto simp: outbox_le_def outbox_row_ok_def is_claimed_def terminal_def)
qed

lemma delivered_frames:
  assumes "sys_inv s" and "delivered s (or_event_id e)" and "e \<in> set (tb_outbox (sh_tables s))"
  shows "\<exists>r \<in> set (sh_broker s). frames e r"
  using assms map_update_unique [of or_event_id "tb_outbox (sh_tables s)"]
  unfolding delivered_def sys_inv_def outbox_inv_def by metis

lemma dead_lettered_frames:
  assumes "sys_inv s" and "dead_lettered s (or_event_id e)" and "e \<in> set (tb_outbox (sh_tables s))"
  shows "\<exists>r \<in> set (sh_broker s). dlq_frames e r"
  using assms map_update_unique [of or_event_id "tb_outbox (sh_tables s)"]
  unfolding dead_lettered_def sys_inv_def outbox_inv_def by metis

lemma frames_status [simp]:
  "frames (e\<lparr>or_status := a\<rparr>) r = frames e r" "frames (e\<lparr>or_published_at := b\<rparr>) r = frames e r"
  "frames (e\<lparr>or_attempts := c\<rparr>) r = frames e r" "frames (e\<lparr>or_claimed_at := d\<rparr>) r = frames e r"
  "dlq_frames (e\<lparr>or_status := a\<rparr>) r = dlq_frames e r" "dlq_frames (e\<lparr>or_attempts := c\<rparr>) r = dlq_frames e r"
  "dlq_frames (e\<lparr>or_claimed_at := d\<rparr>) r = dlq_frames e r"
  by (simp_all add: frames_def dlq_frames_def)

lemma published_change:
  assumes inv: "sys_inv s" and d: "delivered s eid" and c: "update_published ts eid now (sh_tables s) = Inr (n, u)"
  shows "outbox_change s (s\<lparr>sh_tables := u\<rparr>)"
proof (rule outbox_changeI)
  let ?f = "\<lambda>r. r\<lparr>or_status := PUBLISHED, or_published_at := Some (ts now)\<rparr>"
  show "u = (sh_tables s)\<lparr>tb_outbox := update_where (is_claimed eid) ?f (tb_outbox (sh_tables s))\<rparr>"
    using c by (simp add: update_published_def update_claimed_def)
  fix e
  assume e: "e \<in> set (tb_outbox (sh_tables s))" "is_claimed eid e"
  then have "\<exists>r \<in> set (sh_broker s). frames e r"
    using delivered_frames [OF inv _ e(1)] d by (simp add: is_claimed_def)
  with e outbox_row [OF inv e(1)] show "outbox_le e (?f e) \<and> outbox_row_ok (sh_broker s) (?f e)"
    by (auto simp: outbox_le_def outbox_row_ok_def is_claimed_def terminal_def)
qed

lemma checked_attempts_Inr:
  assumes "checked_attempts a p st t = Inr x"
  shows "st t = Inr x \<and> (\<forall>e \<in> set (tb_outbox t). p e \<longrightarrow> 0 \<le> a)"
  using assms by (auto simp: checked_attempts_def find_None_iff split: if_splits)

lemma retry_change:
  assumes inv: "sys_inv s" and a: "a \<le> maxPublishFailures"
    and c: "update_retry ts eid a available (sh_tables s) = Inr (n, u)"
  shows "outbox_change s (s\<lparr>sh_tables := u\<rparr>)"
proof (rule outbox_changeI)
  let ?f = "\<lambda>r. r\<lparr>or_status := PENDING, or_attempts := a, or_available_at := ts available, or_claimed_at := None\<rparr>"
  show "u = (sh_tables s)\<lparr>tb_outbox := update_where (is_claimed eid) ?f (tb_outbox (sh_tables s))\<rparr>"
    using checked_attempts_Inr [OF c [unfolded update_retry_def]] by (simp add: update_claimed_def)
  fix e
  assume e: "e \<in> set (tb_outbox (sh_tables s))" "is_claimed eid e"
  then have "0 \<le> a"
    using checked_attempts_Inr [OF c [unfolded update_retry_def]] by blast
  with a e outbox_row [OF inv e(1)] show "outbox_le e (?f e) \<and> outbox_row_ok (sh_broker s) (?f e)"
    by (auto simp: outbox_le_def outbox_row_ok_def is_claimed_def terminal_def)
qed

lemma terminal_change:
  assumes inv: "sys_inv s" and a: "a \<le> maxPublishFailures + 1"
    and st: "st = INVALID \<or> st = FAILED \<and> a \<le> maxPublishFailures \<and> dead_lettered s eid"
    and c: "update_terminal eid a st (sh_tables s) = Inr (n, u)"
  shows "outbox_change s (s\<lparr>sh_tables := u\<rparr>)"
proof (rule outbox_changeI)
  let ?f = "\<lambda>r. r\<lparr>or_status := st, or_attempts := a, or_claimed_at := None\<rparr>"
  show "u = (sh_tables s)\<lparr>tb_outbox := update_where (is_claimed eid) ?f (tb_outbox (sh_tables s))\<rparr>"
    using checked_attempts_Inr [OF c [unfolded update_terminal_def]] by (simp add: update_claimed_def)
  fix e
  assume e: "e \<in> set (tb_outbox (sh_tables s))" "is_claimed eid e"
  then have "0 \<le> a"
    using checked_attempts_Inr [OF c [unfolded update_terminal_def]] by blast
  moreover have "\<exists>r \<in> set (sh_broker s). dlq_frames e r" if "st = FAILED"
    using dead_lettered_frames [OF inv _ e(1)] st that e by (simp add: is_claimed_def)
  ultimately show "outbox_le e (?f e) \<and> outbox_row_ok (sh_broker s) (?f e)"
    using a st e outbox_row [OF inv e(1)]
    by (auto simp: outbox_le_def outbox_row_ok_def is_claimed_def terminal_def)
qed

lemma outbox_change_inv:
  assumes "sys_inv s" and "outbox_change s t"
  shows "sys_inv t" and "grows s t"
proof -
  obtain p f where t: "t = s\<lparr>sh_tables := (sh_tables s)\<lparr>tb_outbox := update_where p f (tb_outbox (sh_tables s))\<rparr>\<rparr>"
    and f: "\<And>e. e \<in> set (tb_outbox (sh_tables s)) \<Longrightarrow> p e \<Longrightarrow>
      outbox_le e (f e) \<and> outbox_row_ok (sh_broker s) (f e)"
    using assms(2) unfolding outbox_change_def by blast
  have "outbox_inv (sh_broker s) (update_where p f (tb_outbox (sh_tables s)))"
    using assms(1) f by (intro outbox_inv_update) (auto simp: sys_inv_def)
  moreover have "list_all2 event_of (tb_check_ins (sh_tables s)) (update_where p f (tb_outbox (sh_tables s)))"
    using assms(1) f by (intro event_of_update) (auto simp: sys_inv_def)
  ultimately show "sys_inv t"
    using assms(1) by (simp add: t sys_inv_def)
  have "ext outbox_le (tb_outbox (sh_tables s)) (update_where p f (tb_outbox (sh_tables s)))"
    using f by (intro ext_update) auto
  then show "grows s t"
    by (simp add: t grows_def ext_refl)
qed

subsection \<open>All steps\<close>

lemma rotate_row_le: "key_le r (rotate_row ts key dl em r)"
  by (auto simp: key_le_def rotate_row_def retired_def demoted_def is_previous_def is_current_def)

lemma create_key_inv:
  assumes inv: "sys_inv s" and c: "insert_key_or_nothing ts key (sh_tables s) = Inr (n, t)"
  shows "sys_inv (s\<lparr>sh_tables := t\<rparr>) \<and> grows s (s\<lparr>sh_tables := t\<rparr>)"
proof -
  consider "t = sh_tables s"
    | v where "t = (sh_tables s)\<lparr>tb_keys := tb_keys (sh_tables s) @ [new_key_row ts key v]\<rparr>" "0 < v" "v < 2 ^ 63"
      "\<not> key_conflict (rk_GymID key) v (tb_keys (sh_tables s))"
    using insert_key_or_nothing_Inr [OF c] by blast
  then show ?thesis
  proof cases
    case 1
    with inv show ?thesis
      by simp
  next
    case 2
    then have "keys_inv (tb_keys (sh_tables s) @ [new_key_row ts key v])"
      using inv by (intro keys_inv_insert) (simp_all add: sys_inv_def)
    with 2 inv show ?thesis
      by (simp add: sys_inv_def grows_def ext_refl ext_append)
  qed
qed

lemma rotate_key_inv:
  assumes inv: "sys_inv s" and cur: "cur \<in> set (tb_keys (sh_tables s))" "is_current (rk_GymID key) cur"
    and v: "kr_key_version cur + 1 < 2 ^ 63"
    and t: "t = s\<lparr>sh_tables := (sh_tables s)\<lparr>tb_keys := rotated ts key cur dl em (tb_keys (sh_tables s))\<rparr>\<rparr>"
  shows "sys_inv t \<and> grows s t"
proof
  show "sys_inv t"
    using inv cur v by (simp add: t sys_inv_def keys_inv_rotated)
  have "ext key_le (tb_keys (sh_tables s)) (rotated ts key cur dl em (tb_keys (sh_tables s)))"
    unfolding rotated_alt by (rule ext_map_append) (rule rotate_row_le)
  then show "grows s t"
    by (simp add: t grows_def ext_refl)
qed

lemma check_in_inv:
  assumes inv: "sys_inv s" and c: "insert_check_in ts record fp idem (sh_tables s) = Inr (1, t)"
    and o: "insert_outbox ts event t = Inr (n, u)" and ev: "event_for record event"
  shows "sys_inv (s\<lparr>sh_tables := u\<rparr>) \<and> grows s (s\<lparr>sh_tables := u\<rparr>)"
proof -
  let ?r = "new_checkin_row ts record fp idem" and ?e = "new_outbox_row ts event"
  have t: "t = (sh_tables s)\<lparr>tb_check_ins := tb_check_ins (sh_tables s) @ [?r]\<rparr>"
    "find (same_request (ci_UserID record) idem) (tb_check_ins (sh_tables s)) = None"
    "ci_ID record \<notin> set (map cr_checkin_id (tb_check_ins (sh_tables s)))"
    using insert_check_in_one [OF c] by auto
  have u: "u = t\<lparr>tb_outbox := tb_outbox t @ [?e]\<rparr>" "ev_ID event \<notin> set (map or_event_id (tb_outbox t))"
    using insert_outbox_Inr [OF o] by auto
  have "event_of ?r ?e"
    using ev by (simp add: event_of_def event_for_def new_checkin_row_def new_outbox_row_def)
  with inv t u show ?thesis
    by (simp add: sys_inv_def grows_def ext_refl ext_append checkins_inv_insert outbox_inv_insert list_all2_appendI)
qed

lemma publish_inv:
  assumes inv: "sys_inv s" and e: "e \<in> set (tb_outbox (sh_tables s))" "frames e r \<or> dlq_frames e r"
  shows "sys_inv (s\<lparr>sh_broker := sh_broker s @ [r]\<rparr>) \<and> grows s (s\<lparr>sh_broker := sh_broker s @ [r]\<rparr>)"
proof -
  have "outbox_inv (sh_broker s @ [r]) (tb_outbox (sh_tables s))"
    using inv e by (auto simp: sys_inv_def outbox_inv_def intro: outbox_row_ok_mono)
  with inv show ?thesis
    by (simp add: sys_inv_def grows_def ext_refl ext_append)
qed

lemma sys_step_inv_grows: "sys_step ts s t \<Longrightarrow> sys_inv s \<Longrightarrow> sys_inv t \<and> grows s t"
proof (induction rule: sys_step.induct)
  case (create_key key s n t)
  show ?case by (rule create_key_inv [OF create_key.prems create_key.hyps])
next
  case (rotate_key cur s key deadline emergency)
  show ?case by (rule rotate_key_inv [OF rotate_key.prems rotate_key.hyps refl])
next
  case (check_in rec fingerprint idem s t event u)
  show ?case by (rule check_in_inv [OF check_in.prems check_in.hyps])
next
  case (publish e s r)
  show ?case by (rule publish_inv [OF publish.prems publish.hyps])
next
  case (mark_failed s eid attempts n t)
  then show ?case
    using terminal_change [of s attempts FAILED eid] by (auto intro: outbox_change_inv)
next
  case (mark_invalid attempts eid s n t)
  then show ?case
    using terminal_change [of s attempts INVALID eid] by (auto intro: outbox_change_inv)
qed (blast intro: outbox_change_inv claim_change prepare_change published_change retry_change)+

interpretation sys: state_machine "\<lambda>s. s = empty_shared" "sys_step ts" sys_inv
  for ts
proof unfold_locales
  show "sys_inv s" if "s = empty_shared" for s
    using that by (simp add: sys_inv_def empty_shared_def checkins_inv_def outbox_inv_def)
  show "sys_inv t" if "sys_step ts s t" "sys_inv s" for s t
    using sys_step_inv_grows that by blast
qed

lemma steps_grow: "(sys_step ts)\<^sup>*\<^sup>* s t \<Longrightarrow> sys_inv s \<Longrightarrow> grows s t"
proof (induction rule: rtranclp_induct)
  case (step t u)
  then have "sys_inv t"
    using sys.run_inv by blast
  with step show ?case
    using sys_step_inv_grows grows_trans by blast
qed simp

section \<open>Stable facts\<close>

named_theorems stable_rules \<open>facts about the shared state that no step undoes\<close>

lemma grows_check_ins: "grows s t \<Longrightarrow> c \<in> set (tb_check_ins (sh_tables s)) \<Longrightarrow> c \<in> set (tb_check_ins (sh_tables t))"
  unfolding grows_def by (blast dest: ext_mem)

lemma grows_outbox: "grows s t \<Longrightarrow> e \<in> set (tb_outbox (sh_tables s)) \<Longrightarrow>
    \<exists>e' \<in> set (tb_outbox (sh_tables t)). outbox_le e e'"
  unfolding grows_def by (blast dest: ext_mem)

lemma grows_keys: "grows s t \<Longrightarrow> k \<in> set (tb_keys (sh_tables s)) \<Longrightarrow>
    \<exists>k' \<in> set (tb_keys (sh_tables t)). key_le k k'"
  unfolding grows_def by (blast dest: ext_mem)

lemma grows_broker: "grows s t \<Longrightarrow> r \<in> set (sh_broker s) \<Longrightarrow> r \<in> set (sh_broker t)"
  unfolding grows_def by (blast dest: ext_mem)

lemma outbox_le_frames:
  assumes "outbox_le e e'"
  shows "frames e r \<Longrightarrow> frames e' r" "dlq_frames e r \<Longrightarrow> dlq_frames e' r"
  using assms frames_same [of e' e r] by (auto simp: outbox_le_def)

lemma grows_event:
  assumes "grows s t" and "e \<in> set (tb_outbox (sh_tables s))" and "r \<in> set (sh_broker s)"
  obtains e' where "e' \<in> set (tb_outbox (sh_tables t))" "or_event_id e' = or_event_id e" "r \<in> set (sh_broker t)"
    "frames e r \<Longrightarrow> frames e' r" "dlq_frames e r \<Longrightarrow> dlq_frames e' r"
proof -
  obtain e' where e': "e' \<in> set (tb_outbox (sh_tables t))" "outbox_le e e'"
    using grows_outbox [OF assms(1,2)] by blast
  moreover have "or_event_id e' = or_event_id e"
    using e' by (simp add: outbox_le_def)
  ultimately show thesis
    using that [of e'] outbox_le_frames grows_broker [OF assms(1,3)] by blast
qed

lemma grows_delivered [stable_rules]: "grows s t \<Longrightarrow> delivered s eid \<Longrightarrow> delivered t eid"
  unfolding delivered_def by (blast elim: grows_event)

lemma grows_dead_lettered [stable_rules]: "grows s t \<Longrightarrow> dead_lettered s eid \<Longrightarrow> dead_lettered t eid"
  unfolding dead_lettered_def by (blast elim: grows_event)

section \<open>What is written once\<close>

lemma find_ext:
  assumes ext: "ext R xs ys" and x: "find P xs = Some x" and R: "\<And>y. R x y \<Longrightarrow> P x \<Longrightarrow> P y"
    and unique: "\<And>y z. y \<in> set ys \<Longrightarrow> z \<in> set ys \<Longrightarrow> P y \<Longrightarrow> P z \<Longrightarrow> y = z"
  obtains y where "find P ys = Some y" "R x y"
proof -
  obtain y where y: "y \<in> set ys" "R x y"
    using ext x by (blast dest: ext_mem find_SomeD)
  then have "P y"
    using R x by (blast dest: find_SomeD)
  then have "find P ys = Some y"
    using y unique by (blast intro: find_Some_unique)
  with y(2) show thesis
    by (rule that [rotated])
qed

text \<open>The check-in of a request, the secret of a key version, the stored frame and the final status of an event.\<close>

definition request_entry :: "shared \<Rightarrow> string \<times> string \<Rightarrow> checkin_row option" where
  "request_entry s = (\<lambda>(user, idem). find (same_request user idem) (tb_check_ins (sh_tables s)))"

definition key_entry :: "shared \<Rightarrow> string \<times> int \<Rightarrow> (string \<times> string \<times> time) option" where
  "key_entry s = (\<lambda>(gym, v). map_option (\<lambda>r. (kr_key_ciphertext r, kr_key_reference r, kr_activated_at r))
     (find (is_version gym v) (tb_keys (sh_tables s))))"

definition event_row :: "shared \<Rightarrow> string \<Rightarrow> outbox_row option" where
  "event_row s eid = find (\<lambda>r. or_event_id r = eid) (tb_outbox (sh_tables s))"

definition frame_entry :: "shared \<Rightarrow> string \<Rightarrow> bytes option" where
  "frame_entry s eid = Option.bind (event_row s eid) or_prepared_value"

definition final_entry :: "shared \<Rightarrow> string \<Rightarrow> outbox_row option" where
  "final_entry s eid = Option.bind (event_row s eid) (\<lambda>r. if terminal (or_status r) then Some r else None)"

lemma sys_inv_keys: "sys_inv s \<Longrightarrow> keys_inv (tb_keys (sh_tables s))"
  by (simp add: sys_inv_def)

lemma request_unique:
  "sys_inv s \<Longrightarrow> y \<in> set (tb_check_ins (sh_tables s)) \<Longrightarrow> z \<in> set (tb_check_ins (sh_tables s)) \<Longrightarrow>
     same_request u i y \<Longrightarrow> same_request u i z \<Longrightarrow> y = z"
  by (auto simp: sys_inv_def checkins_inv_def same_request_def dest: map_update_unique)

lemma version_unique:
  "sys_inv s \<Longrightarrow> y \<in> set (tb_keys (sh_tables s)) \<Longrightarrow> z \<in> set (tb_keys (sh_tables s)) \<Longrightarrow>
     is_version g v y \<Longrightarrow> is_version g v z \<Longrightarrow> y = z"
  using map_update_unique [of key_id "tb_keys (sh_tables s)" y z]
  by (auto simp: sys_inv_def keys_inv_def is_version_def key_id_def)

lemma event_unique:
  "sys_inv s \<Longrightarrow> y \<in> set (tb_outbox (sh_tables s)) \<Longrightarrow> z \<in> set (tb_outbox (sh_tables s)) \<Longrightarrow>
     or_event_id y = or_event_id z \<Longrightarrow> y = z"
  by (auto simp: sys_inv_def outbox_inv_def dest: map_update_unique)

lemma event_row_mem: "sys_inv s \<Longrightarrow> r \<in> set (tb_outbox (sh_tables s)) \<Longrightarrow> event_row s (or_event_id r) = Some r"
  unfolding event_row_def by (rule find_Some_unique) (auto intro: event_unique)

lemma event_rowD: "event_row s eid = Some r \<Longrightarrow> r \<in> set (tb_outbox (sh_tables s)) \<and> or_event_id r = eid"
  unfolding event_row_def by (auto dest: find_SomeD)

lemma event_row_grows:
  assumes "grows s t" and "sys_inv t" and "event_row s eid = Some r"
  obtains r' where "event_row t eid = Some r'" "outbox_le r r'"
  using assms(3) unfolding event_row_def
proof (rule find_ext [rotated])
  show "ext outbox_le (tb_outbox (sh_tables s)) (tb_outbox (sh_tables t))"
    using assms(1) by (simp add: grows_def)
  show "y = z" if "y \<in> set (tb_outbox (sh_tables t))" "z \<in> set (tb_outbox (sh_tables t))"
    "or_event_id y = eid" "or_event_id z = eid" for y z
    using event_unique [OF assms(2) that(1,2)] that(3,4) by simp
qed (auto simp: outbox_le_def event_row_def intro: that)

lemma request_entry_grows:
  assumes "grows s t" and "sys_inv t" and "request_entry s k = Some r"
  shows "request_entry t k = Some r"
proof -
  obtain u i where k: "k = (u, i)" by fastforce
  have "ext (=) (tb_check_ins (sh_tables s)) (tb_check_ins (sh_tables t))"
    using assms(1) by (simp add: grows_def)
  moreover have "find (same_request u i) (tb_check_ins (sh_tables s)) = Some r"
    using assms(3) by (simp add: request_entry_def k)
  ultimately obtain y where "find (same_request u i) (tb_check_ins (sh_tables t)) = Some y" "r = y"
    by (rule find_ext) (use request_unique [OF assms(2)] in blast)+
  then show ?thesis
    by (simp add: request_entry_def k)
qed

lemma key_row_grows:
  assumes "grows s t" and "sys_inv t" and "find (is_version g v) (tb_keys (sh_tables s)) = Some r"
  obtains r' where "find (is_version g v) (tb_keys (sh_tables t)) = Some r'" "key_le r r'"
proof -
  have "ext key_le (tb_keys (sh_tables s)) (tb_keys (sh_tables t))"
    using assms(1) by (simp add: grows_def)
  then show thesis
    using assms(3)
  proof (rule find_ext)
    show "is_version g v y" if "key_le r y" "is_version g v r" for y
      using that by (simp add: is_version_def key_le_def)
  qed (use version_unique [OF assms(2)] that in blast)+
qed

lemma key_entry_grows:
  assumes "grows s t" and "sys_inv t" and "key_entry s k = Some m"
  shows "key_entry t k = Some m"
proof -
  obtain g v where k: "k = (g, v)" by fastforce
  with assms(3) obtain r where r: "find (is_version g v) (tb_keys (sh_tables s)) = Some r"
    "m = (kr_key_ciphertext r, kr_key_reference r, kr_activated_at r)"
    by (auto simp: key_entry_def)
  from assms(1,2) r(1) obtain r' where "find (is_version g v) (tb_keys (sh_tables t)) = Some r'" "key_le r r'"
    by (rule key_row_grows)
  with r(2) k show ?thesis
    by (simp add: key_entry_def key_le_def)
qed

lemma frame_entry_grows:
  assumes "grows s t" and "sys_inv t" and "frame_entry s k = Some v"
  shows "frame_entry t k = Some v"
  using assms(3) unfolding frame_entry_def
  by (auto simp: bind_eq_Some_conv outbox_le_def elim!: event_row_grows [OF assms(1,2)])

lemma final_entry_grows:
  assumes "grows s t" and "sys_inv t" and "final_entry s k = Some r"
  shows "final_entry t k = Some r"
  using assms(3) unfolding final_entry_def
  by (auto simp: bind_eq_Some_conv outbox_le_def elim!: event_row_grows [OF assms(1,2)] split: if_splits)

interpretation requests: write_once "\<lambda>s. s = empty_shared" "sys_step ts" sys_inv request_entry
  for ts
  by unfold_locales (use sys_step_inv_grows request_entry_grows in blast)

interpretation key_material: write_once "\<lambda>s. s = empty_shared" "sys_step ts" sys_inv key_entry
  for ts
  by unfold_locales (use sys_step_inv_grows key_entry_grows in blast)

interpretation stored_frames: write_once "\<lambda>s. s = empty_shared" "sys_step ts" sys_inv frame_entry
  for ts
  by unfold_locales (use sys_step_inv_grows frame_entry_grows in blast)

interpretation final_events: write_once "\<lambda>s. s = empty_shared" "sys_step ts" sys_inv final_entry
  for ts
  by unfold_locales (use sys_step_inv_grows final_entry_grows in blast)

end
