(* ===== verification/Conn.thy ===== *)
theory Conn
  imports Protocol
begin

text \<open>
  \<open>database/sql\<close> as the store uses it.  A connection holds the shared state and the number of calls made
  so far; the environment \<open>sql_env\<close> says, call by call, what happens: the call is carried out (\<open>Done\<close>),
  it fails without effect (\<open>Failed\<close>), or its effect becomes durable while the client sees an error
  (\<open>Lost\<close>).  Before a statement outside a transaction and before \<open>BeginTx\<close> the other instances may
  move the shared state (\<open>sq_interfere\<close>); a transaction runs on the tables it began with and becomes
  visible as a whole at \<open>Commit\<close>; leaving it without \<open>Commit\<close> is the deferred \<open>Rollback\<close>.

  \<open>rely\<close> is the assumption on the other instances: they follow the protocol.  \<open>moves\<close> is the matching
  guarantee, and the lemmas below reduce it, for each kind of call, to the step a statement makes.
\<close>

datatype sql_outcome = Done | Failed err | Lost err

record sql_env =
  sq_outcome :: "nat \<Rightarrow> sql_outcome"
  sq_interfere :: "nat \<Rightarrow> shared \<Rightarrow> shared"
  sq_ts :: "time \<Rightarrow> time"
  sq_le :: "string \<Rightarrow> string \<Rightarrow> bool"
  sq_locked :: "nat \<Rightarrow> string \<Rightarrow> bool"
  sq_returning :: "nat \<Rightarrow> outbox_row list \<Rightarrow> outbox_row list"

record conn =
  cn_shared :: shared
  cn_calls :: nat

abbreviation cn_tables :: "conn \<Rightarrow> tables" where
  "cn_tables c \<equiv> sh_tables (cn_shared c)"

definition next_call :: "conn \<Rightarrow> conn" where
  "next_call c = c\<lparr>cn_calls := Suc (cn_calls c)\<rparr>"

text \<open>The shared state when the next call reaches the database.\<close>

definition arrive :: "sql_env \<Rightarrow> conn \<Rightarrow> conn" where
  "arrive E c = next_call (c\<lparr>cn_shared := sq_interfere E (cn_calls c) (cn_shared c)\<rparr>)"

definition put_tables :: "tables \<Rightarrow> conn \<Rightarrow> conn" where
  "put_tables t c = c\<lparr>cn_shared := (cn_shared c)\<lparr>sh_tables := t\<rparr>\<rparr>"

text \<open>\<open>db.ExecContext\<close> and \<open>db.QueryContext\<close> outside a transaction.\<close>

definition autocommit :: "sql_env \<Rightarrow> 'a stmt \<Rightarrow> (conn, 'a) op" where
  "autocommit E st c =
     (let d = arrive E c
      in case (sq_outcome E (cn_calls c), st (cn_tables d)) of
           (Failed e, _) \<Rightarrow> (Inl e, d)
         | (Done, Inl e) \<Rightarrow> (Inl e, d)
         | (Done, Inr (x, t)) \<Rightarrow> (Inr x, put_tables t d)
         | (Lost e, Inl _) \<Rightarrow> (Inl e, d)
         | (Lost e, Inr (x, t)) \<Rightarrow> (Inl e, put_tables t d))"

definition BeginTx :: "sql_env \<Rightarrow> (conn, tables) op" where
  "BeginTx E c =
     (let d = arrive E c
      in case sq_outcome E (cn_calls c) of
           Done \<Rightarrow> (Inr (cn_tables d), d)
         | Failed e \<Rightarrow> (Inl e, d)
         | Lost e \<Rightarrow> (Inl e, d))"

text \<open>\<open>tx.ExecContext\<close> and \<open>tx.QueryContext\<close>: the transaction's own tables are the state.\<close>

definition tx_exec :: "sql_env \<Rightarrow> 'a stmt \<Rightarrow> tables \<Rightarrow> (conn, 'a \<times> tables) op" where
  "tx_exec E st tx c =
     (case sq_outcome E (cn_calls c) of
        Done \<Rightarrow> (st tx, next_call c)
      | Failed e \<Rightarrow> (Inl e, next_call c)
      | Lost e \<Rightarrow> (Inl e, next_call c))"

definition Commit :: "sql_env \<Rightarrow> tables \<Rightarrow> (conn, unit) op" where
  "Commit E tx c =
     (case sq_outcome E (cn_calls c) of
        Done \<Rightarrow> (Inr (), put_tables tx (next_call c))
      | Failed e \<Rightarrow> (Inl e, next_call c)
      | Lost e \<Rightarrow> (Inl e, put_tables tx (next_call c)))"

text \<open>What the client reads of a finished call, \<open>result.RowsAffected()\<close> or the rows of a query, may still
  fail on the client's side.\<close>

definition driver_read :: "sql_env \<Rightarrow> 'a \<Rightarrow> (conn, 'a) op" where
  "driver_read E x c =
     (case sq_outcome E (cn_calls c) of
        Done \<Rightarrow> (Inr x, next_call c)
      | Failed e \<Rightarrow> (Inl e, next_call c)
      | Lost e \<Rightarrow> (Inl e, next_call c))"

lemma next_call_simps [simp]: "cn_shared (next_call c) = cn_shared c" "cn_calls (next_call c) = Suc (cn_calls c)"
  by (simp_all add: next_call_def)

lemma put_tables_simps [simp]:
  "cn_calls (put_tables t c) = cn_calls c"
  "cn_shared (put_tables t c) = (cn_shared c)\<lparr>sh_tables := t\<rparr>"
  by (simp_all add: put_tables_def)

lemma arrive_simps [simp]:
  "cn_shared (arrive E c) = sq_interfere E (cn_calls c) (cn_shared c)"
  "cn_calls (arrive E c) = Suc (cn_calls c)"
  by (simp_all add: arrive_def)

section \<open>Rely and guarantee\<close>

definition rely :: "sql_env \<Rightarrow> bool" where
  "rely E \<longleftrightarrow> (\<forall>n s. sys_inv s \<longrightarrow> (sys_step (sq_ts E))\<^sup>*\<^sup>* s (sq_interfere E n s))"

definition moves :: "sql_env \<Rightarrow> conn \<Rightarrow> conn \<Rightarrow> bool" where
  "moves E c d \<longleftrightarrow> (sys_inv (cn_shared c) \<longrightarrow> (sys_step (sq_ts E))\<^sup>*\<^sup>* (cn_shared c) (cn_shared d))"

lemma moves_ts: "sq_ts E' = sq_ts E \<Longrightarrow> moves E' = moves E"
  by (intro ext) (simp add: moves_def)

lemma moves_refl [simp]: "moves E c c"
  by (simp add: moves_def)

lemma moves_same: "cn_shared d = cn_shared c \<Longrightarrow> moves E c d"
  by (simp add: moves_def)

lemma moves_step: "sys_step (sq_ts E) (cn_shared c) (cn_shared d) \<Longrightarrow> moves E c d"
  by (simp add: moves_def r_into_rtranclp)

lemma moves_trans: "moves E c d \<Longrightarrow> moves E d e \<Longrightarrow> moves E c e"
  unfolding moves_def using sys.run_inv by (metis rtranclp_trans)

lemma reflp_moves [simp]: "reflp (moves E)"
  by (simp add: reflp_def)

lemma transp_moves [simp]: "transp (moves E)"
  unfolding transp_def by (blast intro: moves_trans)

lemma moves_inv: "moves E c d \<Longrightarrow> sys_inv (cn_shared c) \<Longrightarrow> sys_inv (cn_shared d)"
  unfolding moves_def using sys.run_inv by blast

lemma moves_grows: "moves E c d \<Longrightarrow> sys_inv (cn_shared c) \<Longrightarrow> grows (cn_shared c) (cn_shared d)"
  unfolding moves_def using steps_grow by blast

lemma arrive_moves: "rely E \<Longrightarrow> moves E c (arrive E c)"
  by (simp add: rely_def moves_def)

lemma put_tables_moves:
  "(sys_inv (cn_shared c) \<Longrightarrow> sys_step (sq_ts E) (cn_shared c) ((cn_shared c)\<lparr>sh_tables := t\<rparr>)) \<Longrightarrow>
     moves E c (put_tables t c)"
  by (auto simp: moves_def)

lemma autocommit_cases:
  assumes "autocommit E st c = (r, d)"
  obtains (failed) e where "r = Inl e" "d = arrive E c"
    | (applied) x t where "st (cn_tables (arrive E c)) = Inr (x, t)" "d = put_tables t (arrive E c)"
      "r = Inr x \<or> (\<exists>e. r = Inl e)"
  using assms
  by (auto simp: autocommit_def Let_def split: sql_outcome.splits sum.splits prod.splits)

text \<open>A statement outside a transaction whose effect is a step of the protocol wherever \<open>Q\<close> holds.\<close>

lemma autocommit_moves_if:
  assumes rely: "rely E" and run: "autocommit E st c = (r, d)"
    and step: "\<And>s x t. sys_inv s \<Longrightarrow> Q s \<Longrightarrow> st (sh_tables s) = Inr (x, t) \<Longrightarrow> sys_step (sq_ts E) s (s\<lparr>sh_tables := t\<rparr>)"
    and Q: "sys_inv (cn_shared c) \<Longrightarrow> Q (cn_shared (arrive E c))"
  shows "moves E c d"
  using run
proof (cases rule: autocommit_cases)
  case (failed e)
  then show ?thesis
    using arrive_moves [OF rely] by simp
next
  case (applied x t)
  show ?thesis
  proof (cases "sys_inv (cn_shared c)")
    case True
    have mv: "moves E c (arrive E c)"
      by (rule arrive_moves [OF rely])
    have "moves E (arrive E c) d"
      unfolding applied(2) by (rule put_tables_moves) (use step Q True applied(1) in blast)
    with mv show ?thesis
      by (rule moves_trans)
  next
    case False
    then show ?thesis
      by (simp add: moves_def)
  qed
qed

lemma autocommit_moves [guar_rules]:
  assumes "rely E"
    and "\<And>s x t. sys_inv s \<Longrightarrow> st (sh_tables s) = Inr (x, t) \<Longrightarrow> t = sh_tables s \<or> sys_step (sq_ts E) s (s\<lparr>sh_tables := t\<rparr>)"
  shows "guar (moves E) (autocommit E st)"
proof (rule guarI)
  fix c r d
  assume "autocommit E st c = (r, d)"
  then show "moves E c d"
  proof (cases rule: autocommit_cases)
    case (failed e)
    then show ?thesis
      using arrive_moves [OF assms(1)] by simp
  next
    case (applied x t)
    have "moves E (arrive E c) d"
      using assms(2) [of "cn_shared (arrive E c)" x t] applied(1,2) by (auto simp: moves_def)
    with arrive_moves [OF assms(1)] show ?thesis
      by (rule moves_trans)
  qed
qed

lemma BeginTx_moves [guar_rules]: "rely E \<Longrightarrow> guar (moves E) (BeginTx E)"
  using arrive_moves by (auto simp: guar_def BeginTx_def Let_def split: sql_outcome.splits)

lemma tx_exec_moves [guar_rules]: "guar (moves E) (tx_exec E st tx)"
  by (auto simp: guar_def tx_exec_def intro: moves_same split: sql_outcome.splits)

lemma driver_read_moves [guar_rules]: "guar (moves E) (driver_read E x)"
  by (auto simp: guar_def driver_read_def intro: moves_same split: sql_outcome.splits)

lemma BeginTx_Inr:
  "BeginTx E c = (Inr tx, d) \<longleftrightarrow> sq_outcome E (cn_calls c) = Done \<and> d = arrive E c \<and> tx = cn_tables d"
  by (auto simp: BeginTx_def Let_def split: sql_outcome.splits)

lemma BeginTx_Inl: "BeginTx E c = (Inl e, d) \<Longrightarrow> d = arrive E c"
  by (auto simp: BeginTx_def Let_def split: sql_outcome.splits)

lemma tx_exec_Inr:
  "tx_exec E st tx c = (Inr x, d) \<longleftrightarrow> sq_outcome E (cn_calls c) = Done \<and> d = next_call c \<and> st tx = Inr x"
  by (auto simp: tx_exec_def split: sql_outcome.splits)

lemma tx_exec_state: "tx_exec E st tx c = (r, d) \<Longrightarrow> d = next_call c"
  by (auto simp: tx_exec_def split: sql_outcome.splits)

lemma driver_read_Inr:
  "driver_read E x c = (Inr y, d) \<longleftrightarrow> sq_outcome E (cn_calls c) = Done \<and> d = next_call c \<and> y = x"
  by (auto simp: driver_read_def split: sql_outcome.splits)

lemma driver_read_state: "driver_read E x c = (r, d) \<Longrightarrow> d = next_call c"
  by (auto simp: driver_read_def split: sql_outcome.splits)

lemma Commit_Inr:
  "Commit E tx c = (Inr x, d) \<longleftrightarrow> sq_outcome E (cn_calls c) = Done \<and> d = put_tables tx (next_call c)"
  by (auto simp: Commit_def split: sql_outcome.splits)

lemma Commit_state:
  "Commit E tx c = (r, d) \<Longrightarrow> d = next_call c \<and> r \<noteq> Inr () \<or> d = put_tables tx (next_call c)"
  by (auto simp: Commit_def split: sql_outcome.splits)

lemma Commit_moves:
  assumes "Commit E tx b = (r, d)" and "cn_shared b = cn_shared c"
    and "tx = cn_tables c \<or> sys_step (sq_ts E) (cn_shared c) ((cn_shared c)\<lparr>sh_tables := tx\<rparr>)"
  shows "moves E c d"
  using Commit_state [OF assms(1)] assms(2,3) by (auto simp: moves_def)

text \<open>A transaction: its body starts in a state it may take to satisfy the invariant, on the current tables.\<close>

lemma transaction_moves:
  assumes rely: "rely E"
    and body: "\<And>c r d. sys_inv (cn_shared c) \<Longrightarrow> body (cn_tables c) c = (r, d) \<Longrightarrow> moves E c d"
  shows "guar (moves E) (bindE (BeginTx E) body)"
proof (rule guarI)
  fix c r d
  assume "bindE (BeginTx E) body c = (r, d)"
  then show "moves E c d"
  proof (cases rule: bindE_cases)
    case (fail e)
    then show ?thesis
      using BeginTx_Inl arrive_moves [OF rely] by metis
  next
    case (bind tx u)
    then have u: "u = arrive E c" "body (cn_tables u) u = (r, d)"
      by (auto simp: BeginTx_Inr)
    have mv: "moves E c u"
      using arrive_moves [OF rely] u(1) by simp
    show ?thesis
    proof (cases "sys_inv (cn_shared c)")
      case True
      then have "moves E u d"
        using body u(2) moves_inv [OF mv] by blast
      with mv show ?thesis
        by (rule moves_trans)
    qed (simp add: moves_def)
  qed
qed

text \<open>Queries change nothing.\<close>

lemma query_moves [guar_rules]:
  assumes "rely E"
  shows "guar (moves E) (autocommit E (select_idempotency u i))"
    "guar (moves E) (autocommit E (select_count p))"
    "guar (moves E) (autocommit E (select_key q))"
    "guar (moves E) (autocommit E (select_page le p l k))"
  using assms by (auto intro!: autocommit_moves simp: select_idempotency_def select_count_def select_key_def
      select_page_def split: sum.splits)

text \<open>\<open>RETURNING\<close> hands back the rows of an update, each once, in some order.\<close>

definition returning_law :: "sql_env \<Rightarrow> bool" where
  "returning_law E \<longleftrightarrow> (\<forall>n rows. mset (sq_returning E n rows) = mset rows)"

text \<open>An environment in which every call is carried out and nothing interferes.\<close>

definition undisturbed :: "sql_env \<Rightarrow> bool" where
  "undisturbed E \<longleftrightarrow> (\<forall>n. sq_outcome E n = Done) \<and> (\<forall>n sh. sq_interfere E n sh = sh)"

lemma undisturbed_rely: "undisturbed E \<Longrightarrow> rely E"
  by (simp add: undisturbed_def rely_def)

section \<open>A concrete environment\<close>

text \<open>Every call is carried out, nothing interferes, and instants are kept to the microsecond.\<close>

definition quiet_env :: sql_env where
  "quiet_env = \<lparr>sq_outcome = \<lambda>_. Done, sq_interfere = \<lambda>_ s. s, sq_ts = \<lambda>t. t div 1000 * 1000, sq_le = \<lambda>_ _. True,
     sq_locked = \<lambda>_ _. False, sq_returning = \<lambda>_ rows. rows\<rparr>"

definition start_conn :: conn where
  "start_conn = \<lparr>cn_shared = empty_shared, cn_calls = 0\<rparr>"

lemma rely_quiet [simp]: "rely quiet_env"
  by (simp add: rely_def quiet_env_def)

lemma sys_inv_start [simp]: "sys_inv (cn_shared start_conn)"
  using sys.inv_start by (simp add: start_conn_def)

end
