(* ===== verification/Store.thy ===== *)
theory Store
  imports Conn
begin

text \<open>
  \<open>internal/adapter/yugabyte/store.go\<close>: every method of \<open>Store\<close> over the connection of theory
  \<open>Conn\<close>, statement by statement.  The retry loops of \<open>CreateCurrentKey\<close> and \<open>RotateKey\<close> are recursion on
  the number of attempts left.  The lemmas show that each method moves the shared state along the
  protocol's steps only, and what it returns on each branch.
\<close>

section \<open>Check-ins\<close>

definition record_of :: "string \<Rightarrow> checkin_row \<Rightarrow> CheckInRecord" where
  "record_of userID r =
     \<lparr>ci_ID = cr_checkin_id r, ci_UserID = userID, ci_MemberID = cr_member_id r, ci_GymID = cr_gym_id r,
      ci_CheckedInAt = cr_checked_in_at r\<rparr>"

definition idempotency_of :: "string \<Rightarrow> checkin_row \<Rightarrow> IdempotencyResult" where
  "idempotency_of userID r = \<lparr>id_Fingerprint = cr_request_fingerprint r, id_Record = record_of userID r\<rparr>"

definition FindIdempotency :: "sql_env \<Rightarrow> string \<Rightarrow> string \<Rightarrow> (conn, IdempotencyResult option) op" where
  "FindIdempotency E userID idempotencyKey =
     bindE (autocommit E (select_idempotency userID idempotencyKey)) (\<lambda>row.
       case row of
         None \<Rightarrow> returnE None
       | Some r \<Rightarrow> returnE (Some (idempotency_of userID r)))"

definition findIdempotencyTx :: "sql_env \<Rightarrow> tables \<Rightarrow> string \<Rightarrow> string \<Rightarrow> (conn, IdempotencyResult) op" where
  "findIdempotencyTx E tx userID idempotencyKey =
     bindE (tx_exec E (select_idempotency userID idempotencyKey) tx) (\<lambda>(row, _).
       case row of
         None \<Rightarrow> throwE SqlNoRows
       | Some r \<Rightarrow> returnE (idempotency_of userID r))"

definition idempotency_conflict :: err where
  "idempotency_conflict =
     Categorized CategoryConflict ''IDEMPOTENCY_CONFLICT'' ''idempotency key was already used''"

definition CreateCheckIn ::
  "sql_env \<Rightarrow> CheckInRecord \<Rightarrow> string \<Rightarrow> string \<Rightarrow> OutboxEvent \<Rightarrow> (conn, CheckInRecord) op" where
  "CreateCheckIn E record fingerprint idempotencyKey event =
     bindE (BeginTx E) (\<lambda>tx.
     bindE (tx_exec E (insert_check_in (sq_ts E) record fingerprint idempotencyKey) tx) (\<lambda>(result, tx).
     bindE (driver_read E result) (\<lambda>inserted.
       if inserted = 0 then
         bindE (findIdempotencyTx E tx (ci_UserID record) idempotencyKey) (\<lambda>existing.
           if id_Fingerprint existing \<noteq> fingerprint then throwE idempotency_conflict
           else returnE (id_Record existing))
       else
         bindE (tx_exec E (insert_outbox (sq_ts E) event) tx) (\<lambda>(_, tx).
         bindE (Commit E tx) (\<lambda>_.
           returnE record)))))"

definition list_where ::
  "sql_env \<Rightarrow> (checkin_row \<Rightarrow> string) \<Rightarrow> string \<Rightarrow> int \<Rightarrow> int \<Rightarrow> (conn, CheckInRecord list \<times> int) op" where
  "list_where E column value page limit =
     bindE (autocommit E (select_count (\<lambda>r. column r = value))) (\<lambda>total.
     bindE (autocommit E (select_page (sq_le E) (\<lambda>r. column r = value) limit (int64 (page * limit)))) (\<lambda>rows.
     bindE (driver_read E (map (\<lambda>r. record_of (cr_user_id r) r) rows)) (\<lambda>records.
       returnE (records, total))))"

definition ListByUser :: "sql_env \<Rightarrow> string \<Rightarrow> int \<Rightarrow> int \<Rightarrow> (conn, CheckInRecord list \<times> int) op" where
  "ListByUser E userID page limit = list_where E cr_user_id userID page limit"

definition ListByMember :: "sql_env \<Rightarrow> string \<Rightarrow> int \<Rightarrow> int \<Rightarrow> (conn, CheckInRecord list \<times> int) op" where
  "ListByMember E memberID page limit = list_where E cr_member_id memberID page limit"

definition DailyCount :: "sql_env \<Rightarrow> string \<Rightarrow> time \<Rightarrow> time \<Rightarrow> (conn, int) op" where
  "DailyCount E gymID start end =
     autocommit E (select_count (\<lambda>r. cr_gym_id r = gymID
       \<and> sq_ts E start \<le> cr_checked_in_at r \<and> cr_checked_in_at r < sq_ts E end))"

section \<open>Keys\<close>

definition root_key_of :: "key_row \<Rightarrow> RootKey" where
  "root_key_of r =
     \<lparr>rk_GymID = kr_gym_id r, rk_Version = word_of_int (kr_key_version r), rk_Ciphertext = kr_key_ciphertext r,
      rk_KeyReference = kr_key_reference r, rk_Status = kr_status r, rk_ActivatedAt = kr_activated_at r,
      rk_AcceptanceDeadline = (case kr_acceptance_deadline r of None \<Rightarrow> zero_time | Some d \<Rightarrow> d),
      rk_RetiredAt = kr_retired_at r\<rparr>"

definition find_key :: "sql_env \<Rightarrow> (key_row \<Rightarrow> bool) \<Rightarrow> (conn, RootKey option) op" where
  "find_key E p = bindE (autocommit E (select_key p)) (\<lambda>row. returnE (map_option root_key_of row))"

definition CurrentKey :: "sql_env \<Rightarrow> string \<Rightarrow> (conn, RootKey option) op" where
  "CurrentKey E gymID = find_key E (is_current gymID)"

text \<open>A version above the range of \<open>BIGINT\<close> fails when it is bound.\<close>

definition FindKey :: "sql_env \<Rightarrow> string \<Rightarrow> u64 \<Rightarrow> (conn, RootKey option) op" where
  "FindKey E gymID version =
     (case bigint_arg version of
        Inl e \<Rightarrow> throwE e
      | Inr v \<Rightarrow> find_key E (is_version gymID v))"

fun sqlstate_of :: "err \<Rightarrow> string option" where
  "sqlstate_of (SqlState code) = Some code"
| "sqlstate_of (Wrap _ e) = sqlstate_of e"
| "sqlstate_of _ = None"

definition isRetryableTransaction :: "err \<Rightarrow> bool" where
  "isRetryableTransaction e =
     (case sqlstate_of e of None \<Rightarrow> False | Some code \<Rightarrow> code = ''40001'' \<or> code = ''40P01'')"

fun create_attempts :: "sql_env \<Rightarrow> RootKey \<Rightarrow> nat \<Rightarrow> (conn, RootKey) op" where
  "create_attempts E key 0 = throwE (Errorf ''current QR key was not created'')"
| "create_attempts E key (Suc left) =
     tryE (autocommit E (insert_key_or_nothing (sq_ts E) key)) (\<lambda>result.
       case result of
         Inl e \<Rightarrow> if isRetryableTransaction e then create_attempts E key left else throwE e
       | Inr n \<Rightarrow>
           bindE (driver_read E n) (\<lambda>inserted.
             if inserted = 1 then returnE key
             else bindE (CurrentKey E (rk_GymID key)) (\<lambda>current.
               case current of
                 Some k \<Rightarrow> returnE k
               | None \<Rightarrow> create_attempts E key left)))"

definition CreateCurrentKey :: "sql_env \<Rightarrow> RootKey \<Rightarrow> (conn, RootKey) op" where
  "CreateCurrentKey E key = create_attempts E key 3"

text \<open>The columns \<open>currentKeyTx\<close> reads; \<open>FOR UPDATE\<close> locks the row for the transaction.\<close>

definition currentKeyTx :: "sql_env \<Rightarrow> tables \<Rightarrow> string \<Rightarrow> (conn, RootKey) op" where
  "currentKeyTx E tx gymID =
     bindE (tx_exec E (select_key (is_current gymID)) tx) (\<lambda>(row, _).
       case row of
         None \<Rightarrow> throwE SqlNoRows
       | Some r \<Rightarrow> returnE ((root_key_of r)\<lparr>rk_AcceptanceDeadline := zero_time, rk_RetiredAt := None\<rparr>))"

definition rotateKey :: "sql_env \<Rightarrow> RootKey \<Rightarrow> time \<Rightarrow> bool \<Rightarrow> (conn, RootKey) op" where
  "rotateKey E key0 deadline emergency =
     bindE (BeginTx E) (\<lambda>tx.
     bindE (currentKeyTx E tx (rk_GymID key0)) (\<lambda>previous.
       let key = key0\<lparr>rk_Version := rk_Version previous + 1\<rparr>;
           previousStatus = (if emergency then RootKeyRetired else RootKeyPrevious);
           retiredAt = (if emergency then Some deadline else None)
       in bindE (tx_exec E (retire_previous (sq_ts E) (rk_GymID key) (rk_ActivatedAt key)) tx) (\<lambda>(_, tx).
          bindE (tx_exec E (demote_current (sq_ts E) (rk_GymID key) previousStatus deadline retiredAt
                   (uint (rk_Version previous))) tx) (\<lambda>(result, tx).
          bindE (driver_read E result) (\<lambda>updated.
            if updated \<noteq> 1 then throwE (Errorf ''current QR key changed during rotation'')
            else bindE (tx_exec E (insert_key (sq_ts E) key) tx) (\<lambda>(_, tx).
                 bindE (Commit E tx) (\<lambda>_.
                   returnE key)))))))"

fun rotate_attempts :: "sql_env \<Rightarrow> RootKey \<Rightarrow> time \<Rightarrow> bool \<Rightarrow> nat \<Rightarrow> (conn, RootKey) op" where
  "rotate_attempts E key deadline emergency 0 =
     throwE (Errorf ''rotate QR key transaction retry limit reached'')"
| "rotate_attempts E key deadline emergency (Suc left) =
     tryE (rotateKey E key deadline emergency) (\<lambda>result.
       case result of
         Inr created \<Rightarrow> returnE created
       | Inl e \<Rightarrow>
           if \<not> isRetryableTransaction e then throwE e
           else rotate_attempts E key deadline emergency left)"

definition RotateKey :: "sql_env \<Rightarrow> RootKey \<Rightarrow> time \<Rightarrow> bool \<Rightarrow> (conn, RootKey) op" where
  "RotateKey E key deadline emergency = rotate_attempts E key deadline emergency 3"

section \<open>Outbox\<close>

definition outbox_event_of :: "outbox_row \<Rightarrow> OutboxEvent" where
  "outbox_event_of r =
     \<lparr>ev_ID = or_event_id r, ev_Topic = or_topic r, ev_Key = or_message_key r, ev_Payload = or_payload r,
      ev_PreparedValue = or_prepared_value r, ev_PreparedHeaders = or_prepared_headers r,
      ev_Attempts = or_attempts r, ev_CreatedAt = or_created_at r\<rparr>"

definition ClaimOutbox :: "sql_env \<Rightarrow> int \<Rightarrow> time \<Rightarrow> (conn, OutboxEvent list) op" where
  "ClaimOutbox E limit now =
     bindE (BeginTx E) (\<lambda>tx.
     bindE (getE cn_calls) (\<lambda>n.
     bindE (tx_exec E (claim_outbox (sq_ts E) (sq_locked E n) (sq_returning E n) limit now (now - Minute)) tx)
       (\<lambda>(rows, tx).
     bindE (driver_read E (map outbox_event_of rows)) (\<lambda>events.
     bindE (Commit E tx) (\<lambda>_.
       returnE events)))))"

text \<open>The conditional updates that expect to change one row.\<close>

definition expect_one :: "sql_env \<Rightarrow> string \<Rightarrow> int stmt \<Rightarrow> (conn, unit) op" where
  "expect_one E message st =
     bindE (autocommit E st) (\<lambda>result.
     bindE (driver_read E result) (\<lambda>updated.
       if updated \<noteq> 1 then throwE (Errorf message) else returnE ()))"

definition SavePreparedOutbox :: "sql_env \<Rightarrow> string \<Rightarrow> bytes \<Rightarrow> bytes \<Rightarrow> (conn, unit) op" where
  "SavePreparedOutbox E eid value headers =
     expect_one E ''outbox event is not claimed or is already prepared'' (update_prepared eid value headers)"

definition MarkPublished :: "sql_env \<Rightarrow> string \<Rightarrow> time \<Rightarrow> (conn, unit) op" where
  "MarkPublished E eid now = expect_one E ''outbox event is not claimed'' (update_published (sq_ts E) eid now)"

definition MarkRetry :: "sql_env \<Rightarrow> string \<Rightarrow> int \<Rightarrow> time \<Rightarrow> (conn, unit) op" where
  "MarkRetry E eid attempts availableAt =
     expect_one E ''outbox event is not claimed'' (update_retry (sq_ts E) eid attempts availableAt)"

definition markTerminal :: "sql_env \<Rightarrow> string \<Rightarrow> int \<Rightarrow> outbox_status \<Rightarrow> (conn, unit) op" where
  "markTerminal E eid attempts status =
     expect_one E ''outbox event is not claimed'' (update_terminal eid attempts status)"

definition MarkFailed :: "sql_env \<Rightarrow> string \<Rightarrow> int \<Rightarrow> (conn, unit) op" where
  "MarkFailed E eid attempts = markTerminal E eid attempts FAILED"

definition MarkInvalid :: "sql_env \<Rightarrow> string \<Rightarrow> int \<Rightarrow> (conn, unit) op" where
  "MarkInvalid E eid attempts = markTerminal E eid attempts INVALID"

section \<open>The methods follow the protocol\<close>

lemma findIdempotencyTx_state: "findIdempotencyTx E tx u i c = (r, d) \<Longrightarrow> d = next_call c"
  by (auto simp: findIdempotencyTx_def elim!: bindE_cases dest!: tx_exec_state split: option.splits)

lemma currentKeyTx_state: "currentKeyTx E tx g c = (r, d) \<Longrightarrow> d = next_call c"
  by (auto simp: currentKeyTx_def elim!: bindE_cases dest!: tx_exec_state split: option.splits)

lemma tx_Inl:
  "tx_exec E st tx c = (Inl e, d) \<Longrightarrow> d = next_call c"
  "driver_read E x c = (Inl e, d) \<Longrightarrow> d = next_call c"
  "findIdempotencyTx E tx u i c = (Inl e, d) \<Longrightarrow> d = next_call c"
  "currentKeyTx E tx g c = (Inl e, d) \<Longrightarrow> d = next_call c"
  by (simp_all add: tx_exec_state driver_read_state findIdempotencyTx_state currentKeyTx_state)

lemma findIdempotencyTx_Inr:
  "findIdempotencyTx E tx u i c = (Inr x, d) \<longleftrightarrow> sq_outcome E (cn_calls c) = Done \<and> d = next_call c
     \<and> (\<exists>row. find (same_request u i) (tb_check_ins tx) = Some row \<and> x = idempotency_of u row)"
  by (auto simp: findIdempotencyTx_def bindE_Inr tx_exec_Inr select_idempotency_def split: option.splits)

lemma currentKeyTx_Inr:
  "currentKeyTx E tx g c = (Inr k, d) \<longleftrightarrow> sq_outcome E (cn_calls c) = Done \<and> d = next_call c
     \<and> (\<exists>row. find (is_current g) (tb_keys tx) = Some row
          \<and> k = (root_key_of row)\<lparr>rk_AcceptanceDeadline := zero_time, rk_RetiredAt := None\<rparr>)"
  by (auto simp: currentKeyTx_def bindE_Inr tx_exec_Inr select_key_def split: option.splits)

lemmas tx_Inr = tx_exec_Inr driver_read_Inr findIdempotencyTx_Inr currentKeyTx_Inr

lemma read_moves [guar_rules]:
  assumes "rely E"
  shows "guar (moves E) (FindIdempotency E u i)"
    "guar (moves E) (list_where E col v p l)"
    "guar (moves E) (ListByUser E u p l)"
    "guar (moves E) (ListByMember E m p l)"
    "guar (moves E) (DailyCount E g s e)"
    "guar (moves E) (find_key E q)"
    "guar (moves E) (CurrentKey E g)"
    "guar (moves E) (FindKey E g ver)"
  using assms unfolding FindIdempotency_def list_where_def ListByUser_def ListByMember_def DailyCount_def
    find_key_def CurrentKey_def FindKey_def
  by (auto intro!: guar_rules split: option.splits sum.splits)

lemma insert_check_in_count:
  "insert_check_in ts record fp idem t = Inr (n, t') \<Longrightarrow> n = 0 \<and> t' = t \<or> n = 1"
  by (auto simp: insert_check_in_def Let_def split: if_splits)

lemma insert_outbox_count: "insert_outbox ts event t = Inr (n, t') \<Longrightarrow> n = 1"
  by (auto simp: insert_outbox_def split: if_splits)

lemma CreateCheckIn_moves [guar_rules]:
  assumes "rely E" and ev: "event_for record event"
  shows "guar (moves E) (CreateCheckIn E record fp idem event)"
  unfolding CreateCheckIn_def
proof (rule transaction_moves [OF assms(1)], goal_cases)
  case (1 c r d)
  have commit: "moves E c d"
    if "Commit E u b = (r', d)" "cn_shared b = cn_shared c"
      "insert_check_in (sq_ts E) record fp idem (cn_tables c) = Inr (n, t)" "n \<noteq> 0"
      "insert_outbox (sq_ts E) event t = Inr (m, u)" for n t m u b r'
    by (rule Commit_moves [OF that(1,2)])
      (use that ev insert_check_in_count insert_outbox_count in \<open>blast intro: sys_step.check_in\<close>)
  from 1(2) show ?case
    by (auto elim!: bindE_cases dest!: tx_Inl simp: tx_Inr moves_same split: if_splits)
      (metis commit next_call_simps(1))+
qed

lemma create_attempts_moves [guar_rules]:
  assumes "rely E"
  shows "guar (moves E) (create_attempts E key n)"
proof (induction n)
  case (Suc n)
  then show ?case
    using assms by (auto intro!: guar_rules sys_step.create_key split: sum.splits)
qed (simp add: guar_def)

lemma CreateCurrentKey_moves [guar_rules]: "rely E \<Longrightarrow> guar (moves E) (CreateCurrentKey E key)"
  unfolding CreateCurrentKey_def by (rule guar_rules)

lemma claim_moves [guar_rules]:
  assumes "rely E"
  shows "guar (moves E) (ClaimOutbox E limit now)"
  unfolding ClaimOutbox_def
proof (rule transaction_moves [OF assms], goal_cases)
  case (1 c r d)
  have commit: "moves E c d"
    if "Commit E u b = (r', d)" "cn_shared b = cn_shared c"
      "claim_outbox (sq_ts E) lk rt limit now st (cn_tables c) = Inr (n, u)" for b r' u lk rt st n
    by (rule Commit_moves [OF that(1,2)]) (use that in \<open>blast intro: sys_step.claim\<close>)
  from 1(2) show ?case
    by (auto elim!: bindE_cases dest!: tx_Inl simp: tx_Inr moves_same split: if_splits
        intro: commit)
qed

lemma next_version:
  assumes "0 < v" and "v < 2 ^ 63"
  shows "uint (word_of_int v :: u64) = v" "uint (word_of_int v + 1 :: u64) = v + 1"
proof -
  show one: "uint (word_of_int v :: u64) = v"
    using assms by (simp add: uint_word_of_int_eq take_bit_int_eq_self)
  then show "uint (word_of_int v + 1 :: u64) = v + 1"
    using assms by (simp add: uint_word_ariths)
qed

text \<open>The three statements of a rotation, on tables that satisfy the invariant.\<close>

lemma rotation_tables:
  assumes inv: "keys_inv (tb_keys t)" and cur: "find (is_current (rk_GymID key)) (tb_keys t) = Some cur"
    and ver: "rk_Version key = word_of_int (kr_key_version cur) + 1"
    and retire: "retire_previous ts (rk_GymID key) (rk_ActivatedAt key) t = Inr (n1, t1)"
    and demote: "demote_current ts (rk_GymID key) (if emergency then RootKeyRetired else RootKeyPrevious) deadline
          (if emergency then Some deadline else None) (kr_key_version cur) t1 = Inr (n2, t2)"
    and ins: "insert_key ts key t2 = Inr (n3, t3)"
  shows "cur \<in> set (tb_keys t) \<and> is_current (rk_GymID key) cur \<and> kr_key_version cur + 1 < 2 ^ 63
    \<and> t3 = t\<lparr>tb_keys := rotated ts key cur deadline emergency (tb_keys t)\<rparr>"
proof -
  have mem: "cur \<in> set (tb_keys t)" "is_current (rk_GymID key) cur"
    using find_SomeD [OF cur] by simp_all
  then have range: "0 < kr_key_version cur" "kr_key_version cur < 2 ^ 63"
    using version_range [OF inv] by simp_all
  have v: "uint (rk_Version key) = kr_key_version cur + 1"
    unfolding ver by (rule next_version(2) [OF range])
  have only: "is_version (rk_GymID key) (kr_key_version cur) r \<and> kr_status r = RootKeyCurrent
      \<longleftrightarrow> is_current (rk_GymID key) r" if "r \<in> set (tb_keys t)" for r
  proof
    assume "is_current (rk_GymID key) r"
    then have "r = cur"
      using inv mem that unfolding keys_inv_def is_current_def by metis
    with mem show "is_version (rk_GymID key) (kr_key_version cur) r \<and> kr_status r = RootKeyCurrent"
      by (simp add: is_version_def is_current_def)
  qed (simp add: is_version_def is_current_def)
  let ?step = "\<lambda>r. if is_previous (rk_GymID key) r then retired ts (rk_ActivatedAt key) r
       else if is_current (rk_GymID key) r then demoted ts deadline emergency r else r"
  let ?p = "\<lambda>r. is_version (rk_GymID key) (kr_key_version cur) r \<and> kr_status r = RootKeyCurrent"
  have t1: "t1 = t\<lparr>tb_keys := update_where (is_previous (rk_GymID key)) (retired ts (rk_ActivatedAt key)) (tb_keys t)\<rparr>"
    using retire by (auto simp: retire_previous_def retired_def [abs_def])
  have t2': "t2 = t1\<lparr>tb_keys := update_where ?p (demoted ts deadline emergency) (tb_keys t1)\<rparr>"
    using demote by (auto simp: demote_current_def Let_def demoted_def [abs_def] cong: if_cong)
  have not_cur: "is_previous (rk_GymID key) r \<Longrightarrow> \<not> is_current (rk_GymID key) r"
    "kr_status (retired ts a r) \<noteq> RootKeyCurrent" for r a
    by (simp_all add: is_previous_def is_current_def retired_def)
  have t2: "t2 = t\<lparr>tb_keys := map ?step (tb_keys t)\<rparr>"
    unfolding t2' t1 by (simp add: update_where_def not_cur only cong: map_cong)
  have "kr_key_version cur + 1 < 2 ^ 63 \<and> t3 = t2\<lparr>tb_keys := tb_keys t2 @ [new_key_row ts key (kr_key_version cur + 1)]\<rparr>"
    using ins v by (auto simp: insert_key_def bigint_arg_def split: if_splits)
  with mem t2 show ?thesis
    by (simp add: rotated_def)
qed

text \<open>One attempt at a rotation: it ends before its commit, without effect, or it reaches it.\<close>

lemma rotateKey_run:
  assumes "rotateKey E key deadline emergency c = (r, d)"
  obtains (failed) e where "r = Inl e" "cn_shared d = cn_shared (arrive E c)"
    | (commit) cur key' n1 t1 n2 t2 n3 t3 b r' where
      "find (is_current (rk_GymID key)) (tb_keys (cn_tables (arrive E c))) = Some cur"
      "key' = key\<lparr>rk_Version := word_of_int (kr_key_version cur) + 1\<rparr>"
      "retire_previous (sq_ts E) (rk_GymID key') (rk_ActivatedAt key') (cn_tables (arrive E c)) = Inr (n1, t1)"
      "demote_current (sq_ts E) (rk_GymID key') (if emergency then RootKeyRetired else RootKeyPrevious) deadline
         (if emergency then Some deadline else None) (uint (word_of_int (kr_key_version cur) :: u64)) t1 = Inr (n2, t2)"
      "insert_key (sq_ts E) key' t2 = Inr (n3, t3)" "Commit E t3 b = (r', d)"
      "cn_shared b = cn_shared (arrive E c)" "r = map_sum id (\<lambda>_. key') r'"
proof -
  define st ret where if_defs: "st = (if emergency then RootKeyRetired else RootKeyPrevious)"
    "ret = (if emergency then Some deadline else None)"
  note commit = commit [OF _ refl, folded if_defs, simplified]
  from assms show thesis
    unfolding rotateKey_def Let_def if_defs [symmetric]
    by (auto elim!: bindE_cases dest!: BeginTx_Inl tx_Inl simp: tx_Inr BeginTx_Inr root_key_of_def
        split: if_splits intro: failed)
      ((rule failed, assumption, (simp; fail)) | (rule commit, assumption+, simp_all))+
qed

lemma rotateKey_cases:
  assumes run: "rotateKey E key deadline emergency c = (r, d)" and inv: "sys_inv (cn_shared (arrive E c))"
  obtains (unchanged) e where "r = Inl e" "cn_shared d = cn_shared (arrive E c)"
    | (rotated) cur key' where "cur \<in> set (tb_keys (cn_tables (arrive E c)))" "is_current (rk_GymID key) cur"
      "key' = key\<lparr>rk_Version := word_of_int (kr_key_version cur) + 1\<rparr>" "kr_key_version cur + 1 < 2 ^ 63"
      "cn_shared d = (cn_shared (arrive E c))\<lparr>sh_tables := (cn_tables (arrive E c))
          \<lparr>tb_keys := rotated (sq_ts E) key' cur deadline emergency (tb_keys (cn_tables (arrive E c)))\<rparr>\<rparr>"
      "r = Inr key' \<or> (\<exists>e. r = Inl e)"
  using run
proof (cases rule: rotateKey_run)
  case (commit cur key' n1 t1 n2 t2 n3 t3 b r')
  have keys: "keys_inv (tb_keys (cn_tables (arrive E c)))"
    using inv by (simp add: sys_inv_def)
  have "cur \<in> set (tb_keys (cn_tables (arrive E c)))"
    using commit(1) find_SomeD by metis
  then have ver: "uint (word_of_int (kr_key_version cur) :: u64) = kr_key_version cur"
    using version_range [OF keys] by (blast intro: next_version(1))
  have gym: "rk_GymID key' = rk_GymID key" "rk_Version key' = word_of_int (kr_key_version cur) + 1"
    using commit(2) by simp_all
  note tabs = rotation_tables [OF keys commit(1) [folded gym] gym(2) commit(3) commit(4) [unfolded ver] commit(5)]
  from Commit_state [OF commit(6)] show thesis
    using unchanged rotated [of cur key'] commit(2,7,8) tabs gym(1) by (cases r') auto
qed (rule unchanged)

lemma rotateKey_moves [guar_rules]:
  assumes "rely E"
  shows "guar (moves E) (rotateKey E key deadline emergency)"
proof (rule guarI)
  fix c r d
  assume run: "rotateKey E key deadline emergency c = (r, d)"
  note mv = arrive_moves [OF assms, of c]
  show "moves E c d"
  proof (cases "sys_inv (cn_shared c)")
    case True
    from run moves_inv [OF mv True] have "moves E (arrive E c) d"
    proof (cases rule: rotateKey_cases)
      case (rotated cur key')
      then show ?thesis
        using sys_step.rotate_key [of cur "cn_shared (arrive E c)" key' "sq_ts E" deadline emergency]
        by (auto intro: moves_step)
    qed (rule moves_same)
    with mv show ?thesis
      by (rule moves_trans)
  qed (simp add: moves_def)
qed

lemma rotate_attempts_moves [guar_rules]:
  "rely E \<Longrightarrow> guar (moves E) (rotate_attempts E key deadline emergency n)"
  by (induction n) (auto intro!: guar_rules simp: guar_def [of _ "throwE e" for e])

lemma RotateKey_moves [guar_rules]: "rely E \<Longrightarrow> guar (moves E) (RotateKey E key deadline emergency)"
  unfolding RotateKey_def by (rule guar_rules)

text \<open>The conditional updates of a claimed event: each is a step where its condition holds.\<close>

lemma expect_one_moves:
  assumes "rely E" and "expect_one E msg st c = (r, d)"
    and "\<And>s x t. sys_inv s \<Longrightarrow> Q s \<Longrightarrow> st (sh_tables s) = Inr (x, t) \<Longrightarrow> sys_step (sq_ts E) s (s\<lparr>sh_tables := t\<rparr>)"
    and "\<And>s t. Q s \<Longrightarrow> grows s t \<Longrightarrow> Q t" and "sys_inv (cn_shared c) \<Longrightarrow> Q (cn_shared c)"
  shows "moves E c d"
proof -
  obtain r' b where run: "autocommit E st c = (r', b)" and b: "cn_shared d = cn_shared b"
    using assms(2) unfolding expect_one_def
    by (auto elim!: bindE_cases dest!: tx_Inl simp: tx_Inr split: if_splits)
  have "moves E c b"
    using assms(1) run assms(3)
  proof (rule autocommit_moves_if)
    show "Q (cn_shared (arrive E c))" if "sys_inv (cn_shared c)"
      using assms(4,5) that moves_grows [OF arrive_moves [OF assms(1)] that] by blast
  qed
  with b show ?thesis
    by (simp add: moves_def)
qed

lemma SavePreparedOutbox_moves [guar_rules]: "rely E \<Longrightarrow> guar (moves E) (SavePreparedOutbox E eid v h)"
  unfolding SavePreparedOutbox_def
  by (rule guarI, erule (1) expect_one_moves [where Q = "\<lambda>_. True"]) (auto intro: sys_step.prepare)

lemma MarkRetry_moves [guar_rules]:
  "rely E \<Longrightarrow> n \<le> maxPublishFailures \<Longrightarrow> guar (moves E) (MarkRetry E eid n at)"
  unfolding MarkRetry_def
  by (rule guarI, erule (1) expect_one_moves [where Q = "\<lambda>_. True"]) (auto intro: sys_step.mark_retry)

lemma MarkInvalid_moves [guar_rules]:
  "rely E \<Longrightarrow> n \<le> maxPublishFailures + 1 \<Longrightarrow> guar (moves E) (MarkInvalid E eid n)"
  unfolding MarkInvalid_def markTerminal_def
  by (rule guarI, erule (1) expect_one_moves [where Q = "\<lambda>_. True"]) (auto intro: sys_step.mark_invalid)

lemma MarkPublished_moves:
  assumes "rely E" and "MarkPublished E eid now c = (r, d)"
    and "sys_inv (cn_shared c) \<Longrightarrow> delivered (cn_shared c) eid"
  shows "moves E c d"
  using assms(1) assms(2) [unfolded MarkPublished_def]
  by (rule expect_one_moves [where Q = "\<lambda>s. delivered s eid"])
    (auto intro: sys_step.mark_published stable_rules assms(3))

lemma MarkFailed_moves:
  assumes "rely E" and "MarkFailed E eid n c = (r, d)" and "n \<le> maxPublishFailures"
    and "sys_inv (cn_shared c) \<Longrightarrow> dead_lettered (cn_shared c) eid"
  shows "moves E c d"
  using assms(1) assms(2) [unfolded MarkFailed_def markTerminal_def]
  by (rule expect_one_moves [where Q = "\<lambda>s. dead_lettered s eid"])
    (auto intro: sys_step.mark_failed stable_rules assms(3,4))

section \<open>Check-ins: what the methods return\<close>

text \<open>The tables after a check-in was recorded.\<close>

definition recorded :: "(time \<Rightarrow> time) \<Rightarrow> CheckInRecord \<Rightarrow> string \<Rightarrow> string \<Rightarrow> OutboxEvent \<Rightarrow> shared \<Rightarrow> shared" where
  "recorded ts record fp idem event s = s\<lparr>sh_tables := (sh_tables s)
     \<lparr>tb_check_ins := tb_check_ins (sh_tables s) @ [new_checkin_row ts record fp idem],
       tb_outbox := tb_outbox (sh_tables s) @ [new_outbox_row ts event]\<rparr>\<rparr>"

lemma insert_check_in_Inr:
  "insert_check_in ts record fp idem (sh_tables s) = Inr (n, t) \<longleftrightarrow>
     (\<exists>row. request_entry s (ci_UserID record, idem) = Some row \<and> n = 0 \<and> t = sh_tables s)
     \<or> request_entry s (ci_UserID record, idem) = None \<and> ci_ID record \<notin> set (map cr_checkin_id (tb_check_ins (sh_tables s)))
       \<and> n = 1 \<and> t = (sh_tables s)\<lparr>tb_check_ins := tb_check_ins (sh_tables s) @ [new_checkin_row ts record fp idem]\<rparr>"
  by (auto simp: insert_check_in_def request_entry_def Let_def)

lemma CreateCheckIn_cases:
  assumes "CreateCheckIn E record fp idem event c = (r, d)"
  obtains (failed) e where "r = Inl e" "cn_shared d = cn_shared (arrive E c)"
    | (replayed) row where "request_entry (cn_shared (arrive E c)) (ci_UserID record, idem) = Some row"
      "cn_shared d = cn_shared (arrive E c)"
      "r = (if cr_request_fingerprint row = fp then Inr (record_of (ci_UserID record) row) else Inl idempotency_conflict)"
    | (created) "request_entry (cn_shared (arrive E c)) (ci_UserID record, idem) = None"
      "cn_shared d = recorded (sq_ts E) record fp idem event (cn_shared (arrive E c))"
      "r = Inr record \<or> (\<exists>e. r = Inl e)"
proof -
  note cases = failed replayed [simplified request_entry_def, simplified] created [simplified request_entry_def, simplified]
  show thesis
    using assms unfolding CreateCheckIn_def
    by (auto elim!: bindE_cases dest!: BeginTx_Inl tx_Inl Commit_state
        simp: tx_Inr BeginTx_Inr insert_check_in_Inr insert_outbox_def request_entry_def
        split: if_splits intro: failed)
      ((rule cases(1), assumption, (simp; fail)) | (rule cases(2), assumption, (simp add: idempotency_of_def; fail)+)
       | (rule cases(3); simp add: recorded_def; fail))+
qed

text \<open>Why CreateCheckIn fails: the request is known with another fingerprint, an identifier is taken, or one of its five
  calls fails; in the last case only a commit whose answer was lost has changed anything.\<close>

lemma CreateCheckIn_error:
  fixes E c
  defines "a \<equiv> cn_shared (arrive E c)"
  assumes run: "CreateCheckIn E record fp idem event c = (Inl e, d)"
  shows "(\<exists>row. request_entry a (ci_UserID record, idem) = Some row \<and> cr_request_fingerprint row \<noteq> fp
          \<and> e = idempotency_conflict \<and> cn_shared d = a)
      \<or> request_entry a (ci_UserID record, idem) = None \<and> e = unique_violation \<and> cn_shared d = a
          \<and> (ci_ID record \<in> cr_checkin_id ` set (tb_check_ins (sh_tables a)) \<or> ev_ID event \<in> or_event_id ` set (tb_outbox (sh_tables a)))
      \<or> (\<exists>k<5. sq_outcome E (cn_calls c + k) \<in> {Failed e, Lost e})
          \<and> (cn_shared d = a \<or> request_entry a (ci_UserID record, idem) = None \<and> sq_outcome E (cn_calls c + 4) = Lost e
               \<and> cn_shared d = recorded (sq_ts E) record fp idem event a)"
proof -
  note defs = CreateCheckIn_def bindE_def BeginTx_def tx_exec_def driver_read_def Commit_def Let_def insert_check_in_def
    insert_outbox_def findIdempotencyTx_def select_idempotency_def request_entry_def recorded_def idempotency_of_def
  show ?thesis
  proof (cases "\<exists>k<5. sq_outcome E (cn_calls c + k) \<in> {Failed e, Lost e}")
    case True
    have four: "cn_calls c + 4 = Suc (Suc (Suc (Suc (cn_calls c))))"
      by simp
    have "cn_shared d = a \<or> request_entry a (ci_UserID record, idem) = None \<and> sq_outcome E (cn_calls c + 4) = Lost e
        \<and> cn_shared d = recorded (sq_ts E) record fp idem event a"
      unfolding four using run by (auto simp: a_def defs split: sql_outcome.splits if_splits option.splits)
    with True show ?thesis
      by blast
  next
    case False
    have "sq_outcome E m \<noteq> Failed e" "sq_outcome E m \<noteq> Lost e" if "cn_calls c \<le> m" "m < cn_calls c + 5" for m
      using False that by (auto dest!: spec [of _ "m - cn_calls c"])
    from this [of "cn_calls c"] this [of "Suc (cn_calls c)"] this [of "Suc (Suc (cn_calls c))"]
      this [of "Suc (Suc (Suc (cn_calls c)))"] this [of "Suc (Suc (Suc (Suc (cn_calls c))))"]
    have "(\<exists>row. request_entry a (ci_UserID record, idem) = Some row \<and> cr_request_fingerprint row \<noteq> fp
          \<and> e = idempotency_conflict \<and> cn_shared d = a)
      \<or> request_entry a (ci_UserID record, idem) = None \<and> e = unique_violation \<and> cn_shared d = a
          \<and> (ci_ID record \<in> cr_checkin_id ` set (tb_check_ins (sh_tables a)) \<or> ev_ID event \<in> or_event_id ` set (tb_outbox (sh_tables a)))"
      using run by (simp_all add: a_def defs split: sql_outcome.splits if_splits option.splits) auto
    then show ?thesis
      by blast
  qed
qed

text \<open>C4: Every branch of CreateCheckIn.  It returns the new record exactly when it inserted the check-in together
  with its event; it returns the stored record when the request was already recorded with the same
  fingerprint.  It fails with the conflict when the request was recorded with another fingerprint, with the
  uniqueness violation when the request is new but the check-in's or the event's identifier is taken, and otherwise
  only with the error of one of the five calls it makes; on every error the tables are as the transaction found them,
  unless the fifth call, the commit, took effect and its answer was lost.\<close>

theorem CreateCheckIn_branches:
  "case CreateCheckIn E record fp idem event c of
     (Inr x, d) \<Rightarrow>
       request_entry (cn_shared (arrive E c)) (ci_UserID record, idem) = None \<and> x = record
         \<and> cn_shared d = recorded (sq_ts E) record fp idem event (cn_shared (arrive E c))
       \<or> (\<exists>row. request_entry (cn_shared (arrive E c)) (ci_UserID record, idem) = Some row
            \<and> cr_request_fingerprint row = fp \<and> x = record_of (ci_UserID record) row
            \<and> cn_shared d = cn_shared (arrive E c))
   | (Inl e, d) \<Rightarrow>
       (\<exists>row. request_entry (cn_shared (arrive E c)) (ci_UserID record, idem) = Some row \<and> cr_request_fingerprint row \<noteq> fp
          \<and> e = Categorized CategoryConflict ''IDEMPOTENCY_CONFLICT'' ''idempotency key was already used''
          \<and> cn_shared d = cn_shared (arrive E c))
       \<or> request_entry (cn_shared (arrive E c)) (ci_UserID record, idem) = None \<and> e = unique_violation
          \<and> cn_shared d = cn_shared (arrive E c)
          \<and> (ci_ID record \<in> cr_checkin_id ` set (tb_check_ins (cn_tables (arrive E c)))
             \<or> ev_ID event \<in> or_event_id ` set (tb_outbox (cn_tables (arrive E c))))
       \<or> (\<exists>k<5. sq_outcome E (cn_calls c + k) \<in> {Failed e, Lost e})
          \<and> (cn_shared d = cn_shared (arrive E c)
             \<or> request_entry (cn_shared (arrive E c)) (ci_UserID record, idem) = None \<and> sq_outcome E (cn_calls c + 4) = Lost e
               \<and> cn_shared d = recorded (sq_ts E) record fp idem event (cn_shared (arrive E c)))"
proof -
  obtain r d where run: "CreateCheckIn E record fp idem event c = (r, d)"
    by fastforce
  show ?thesis
  proof (cases r)
    case (Inl e)
    then show ?thesis
      using CreateCheckIn_error [OF run [unfolded Inl]] unfolding run idempotency_conflict_def by (simp only: prod.case sum.case)
  next
    case (Inr x)
    show ?thesis
      by (rule CreateCheckIn_cases [OF run]) (auto simp: run Inr split: if_splits)
  qed
qed

text \<open>What is stored for a request once CreateCheckIn has answered it.\<close>

lemma request_entry_recorded:
  "request_entry s (ci_UserID record, idem) = None \<Longrightarrow>
     request_entry (recorded ts record fp idem event s) (ci_UserID record, idem) = Some (new_checkin_row ts record fp idem)"
  by (simp add: request_entry_def recorded_def find_append new_checkin_row_def same_request_def)

lemma CreateCheckIn_Inr:
  assumes "CreateCheckIn E record fp idem event c = (Inr x, d)"
  obtains row where "request_entry (cn_shared d) (ci_UserID record, idem) = Some row"
    "cr_request_fingerprint row = fp"
    "x = record_of (ci_UserID record) row \<or> x = record \<and> row = new_checkin_row (sq_ts E) record fp idem"
  using assms
proof (cases rule: CreateCheckIn_cases)
  case created
  then show thesis
    using that request_entry_recorded by (simp add: new_checkin_row_def)
qed (use that in \<open>auto split: if_splits\<close>)

lemma FindIdempotency_Inr:
  "FindIdempotency E u i c = (Inr x, d) \<longleftrightarrow> sq_outcome E (cn_calls c) = Done \<and> d = arrive E c
     \<and> map_option (idempotency_of u) (request_entry (cn_shared d) (u, i)) = x"
  by (auto simp: FindIdempotency_def bindE_Inr autocommit_def Let_def select_idempotency_def request_entry_def
      put_tables_def split: sql_outcome.splits option.splits)

text \<open>Once a request is recorded, every later CreateCheckIn for the same user and idempotency key, by any
  instance and after any steps of the protocol, that succeeds had the same fingerprint, returns the same check-in
  (its instant as the database keeps it) and changes nothing.\<close>

lemma check_in_replay:
  assumes "rely E" and "sys_inv (cn_shared c1)" and "event_for record1 event1"
    and first: "CreateCheckIn E record1 fp1 idem event1 c1 = (Inr x, d1)"
    and between: "moves E d1 c2"
    and second: "CreateCheckIn E record2 fp2 idem event2 c2 = (Inr y, d2)"
    and user: "ci_UserID record2 = ci_UserID record1"
  shows "fp2 = fp1 \<and> cn_shared d2 = cn_shared (arrive E c2)
    \<and> y = x\<lparr>ci_CheckedInAt := ci_CheckedInAt y\<rparr>
    \<and> ci_CheckedInAt y \<in> {ci_CheckedInAt x, sq_ts E (ci_CheckedInAt x)}"
proof -
  let ?k = "(ci_UserID record1, idem)" and ?a = "cn_shared (arrive E c2)"
  have mv: "moves E c1 d1" "moves E c2 (arrive E c2)"
    using guarD [OF CreateCheckIn_moves [OF assms(1,3)] first] arrive_moves [OF assms(1)] by simp_all
  have inv: "sys_inv (cn_shared d1)"
    using moves_inv [OF mv(1) assms(2)] .
  obtain row where row: "request_entry (cn_shared d1) ?k = Some row" "cr_request_fingerprint row = fp1"
    "x = record_of (ci_UserID record1) row \<or> x = record1 \<and> row = new_checkin_row (sq_ts E) record1 fp1 idem"
    using first by (rule CreateCheckIn_Inr)
  have "request_entry ?a ?k = Some row"
    using moves_trans [OF between mv(2)] inv requests.entry_run [OF _ inv row(1)] by (auto simp: moves_def)
  with second user have "fp2 = fp1 \<and> cn_shared d2 = ?a \<and> y = record_of (ci_UserID record1) row"
    by (cases rule: CreateCheckIn_cases) (auto simp: row(2) split: if_splits)
  with row(3) show ?thesis
    by (auto simp: record_of_def new_checkin_row_def)
qed

section \<open>Keys: what the methods return\<close>

definition create_rest :: "sql_env \<Rightarrow> RootKey \<Rightarrow> int \<Rightarrow> (conn, RootKey option) op" where
  "create_rest E key n = bindE (driver_read E n) (\<lambda>inserted.
     if inserted = 1 then returnE (Some key) else CurrentKey E (rk_GymID key))"

definition create_try :: "sql_env \<Rightarrow> RootKey \<Rightarrow> conn \<Rightarrow> RootKey attempt_result \<times> conn" where
  "create_try E key c =
     (case autocommit E (insert_key_or_nothing (sq_ts E) key) c of
        (Inl e, d) \<Rightarrow> (if isRetryableTransaction e then Again else Stop e, d)
      | (Inr n, d) \<Rightarrow>
          (case create_rest E key n d of
             (Inl e, f) \<Rightarrow> (Stop e, f)
           | (Inr None, f) \<Rightarrow> (Again, f)
           | (Inr (Some k), f) \<Rightarrow> (Ok k, f)))"

definition rotate_try :: "sql_env \<Rightarrow> RootKey \<Rightarrow> time \<Rightarrow> bool \<Rightarrow> conn \<Rightarrow> RootKey attempt_result \<times> conn" where
  "rotate_try E key deadline emergency c =
     (case rotateKey E key deadline emergency c of
        (Inr k, d) \<Rightarrow> (Ok k, d)
      | (Inl e, d) \<Rightarrow> (if isRetryableTransaction e then Again else Stop e, d))"

interpretation creation: retry_loop "create_try E key" "create_attempts E key" "Errorf ''current QR key was not created''"
  for E key
  by unfold_locales
    (auto simp: create_try_def create_rest_def tryE_def bindE_def split: sum.splits prod.splits option.splits if_splits)

interpretation rotation: retry_loop "rotate_try E key deadline emergency" "rotate_attempts E key deadline emergency"
  "Errorf ''rotate QR key transaction retry limit reached''" for E key deadline emergency
  by unfold_locales (auto simp: rotate_try_def tryE_def split: sum.splits prod.splits)

lemma RotateKey_Inr:
  assumes "rely E" and "sys_inv (cn_shared c)" and "RotateKey E key deadline emergency c = (Inr k, d)"
  obtains a cur where "moves E c a" "cur \<in> set (tb_keys (cn_tables a))" "is_current (rk_GymID key) cur"
    "k = key\<lparr>rk_Version := word_of_int (kr_key_version cur) + 1\<rparr>" "kr_key_version cur + 1 < 2 ^ 63"
    "cn_shared d = (cn_shared a)\<lparr>sh_tables := (cn_tables a)
        \<lparr>tb_keys := rotated (sq_ts E) k cur deadline emergency (tb_keys (cn_tables a))\<rparr>\<rparr>"
proof -
  from assms(3) obtain n u where n: "rotation.rounds E key deadline emergency n c u"
    "rotate_try E key deadline emergency u = (Ok k, d)"
    unfolding RotateKey_def by (rule rotation.loop_Inr)
  have "moves E c t" if "rotate_try E key deadline emergency s = (Again, t)" "moves E c s" for s t
    using that guarD [OF rotateKey_moves [OF assms(1)]]
    by (auto simp: rotate_try_def intro: moves_trans split: prod.splits sum.splits)
  then have "moves E c u"
    using rotation.rounds_preserves [of E key deadline emergency "moves E c", OF _ n(1)] by simp
  then have mv: "moves E c (arrive E u)"
    using arrive_moves [OF assms(1)] moves_trans by blast
  have "rotateKey E key deadline emergency u = (Inr k, d)"
    using n(2) by (auto simp: rotate_try_def split: prod.splits sum.splits if_splits)
  then show thesis
    using moves_inv [OF mv assms(2)] by (cases rule: rotateKey_cases) (use that [OF mv] in auto)
qed

lemma rotated_rows:
  assumes inv: "sys_inv s" "sys_inv t" and cur: "cur \<in> set (tb_keys (sh_tables s))" "is_current (rk_GymID key) cur"
    and t: "tb_keys (sh_tables t) = rotated ts key cur deadline emergency (tb_keys (sh_tables s))"
  shows "find (is_current (rk_GymID key)) (tb_keys (sh_tables t)) = Some (new_key_row ts key (kr_key_version cur + 1))"
    and "find (is_version (rk_GymID key) (kr_key_version cur)) (tb_keys (sh_tables t)) = Some (demoted ts deadline emergency cur)"
    and "\<forall>r \<in> set (tb_keys (sh_tables t)). is_previous (rk_GymID key) r \<longrightarrow> kr_key_version r = kr_key_version cur"
proof -
  let ?n = "new_key_row ts key (kr_key_version cur + 1)"
  have keys: "keys_inv (tb_keys (sh_tables t))"
    using inv(2) by (simp add: sys_inv_def)
  have n: "?n \<in> set (tb_keys (sh_tables t))" "is_current (rk_GymID key) ?n" "kr_key_version ?n = kr_key_version cur + 1"
    by (simp_all add: t rotated_def new_key_row_def is_current_def)
  have gym: "is_current (rk_GymID key) r \<Longrightarrow> kr_gym_id r = rk_GymID key \<and> kr_status r = RootKeyCurrent"
    "is_previous (rk_GymID key) r \<Longrightarrow> kr_gym_id r = rk_GymID key \<and> kr_status r = RootKeyPrevious" for r
    by (simp_all add: is_current_def is_previous_def)
  show "find (is_current (rk_GymID key)) (tb_keys (sh_tables t)) = Some ?n"
    by (rule find_Some_unique) (use keys n gym in \<open>auto simp: keys_inv_def\<close>)
  have "demoted ts deadline emergency cur \<in> set (tb_keys (sh_tables t))"
    using cur by (force simp: t rotated_def is_current_def is_previous_def)
  moreover have v: "is_version (rk_GymID key) (kr_key_version cur) (demoted ts deadline emergency cur)"
    using cur(2) by (simp add: is_version_def is_current_def demoted_def)
  ultimately show "find (is_version (rk_GymID key) (kr_key_version cur)) (tb_keys (sh_tables t))
      = Some (demoted ts deadline emergency cur)"
    using version_unique [OF inv(2)] by (blast intro: find_Some_unique)
  have "kr_key_version ?n = kr_key_version r + 1" if "r \<in> set (tb_keys (sh_tables t))" "is_previous (rk_GymID key) r" for r
    using keys n(1,2) that gym(2) [OF that(2)] unfolding keys_inv_def by metis
  then show "\<forall>r \<in> set (tb_keys (sh_tables t)). is_previous (rk_GymID key) r \<longrightarrow> kr_key_version r = kr_key_version cur"
    by simp
qed

text \<open>C16: A successful RotateKey follows the key that is current when it commits: the returned version is that
  key's version plus one and is now the gym's current key, the key it follows has stepped down with the given
  deadline (or is retired, in an emergency), and no older key is still accepted.\<close>

theorem RotateKey_result:
  assumes "rely E" and "sys_inv (cn_shared c)" and "RotateKey E key deadline emergency c = (Inr k, d)"
  shows "\<exists>a cur. moves E c a \<and> find (is_current (rk_GymID key)) (tb_keys (cn_tables a)) = Some cur
    \<and> k = key\<lparr>rk_Version := rk_Version k\<rparr> \<and> uint (rk_Version k) = kr_key_version cur + 1
    \<and> find (is_current (rk_GymID key)) (tb_keys (cn_tables d)) = Some (new_key_row (sq_ts E) k (kr_key_version cur + 1))
    \<and> find (is_version (rk_GymID key) (kr_key_version cur)) (tb_keys (cn_tables d))
        = Some (demoted (sq_ts E) deadline emergency cur)
    \<and> (\<forall>r \<in> set (tb_keys (cn_tables d)). is_previous (rk_GymID key) r \<longrightarrow> kr_key_version r = kr_key_version cur)"
  using assms
proof (rule RotateKey_Inr)
  fix a cur
  assume a: "moves E c a" "cur \<in> set (tb_keys (cn_tables a))" "is_current (rk_GymID key) cur"
    "k = key\<lparr>rk_Version := word_of_int (kr_key_version cur) + 1\<rparr>" "kr_key_version cur + 1 < 2 ^ 63"
    "cn_shared d = (cn_shared a)\<lparr>sh_tables := (cn_tables a)
        \<lparr>tb_keys := rotated (sq_ts E) k cur deadline emergency (tb_keys (cn_tables a))\<rparr>\<rparr>"
  have inv: "sys_inv (cn_shared a)"
    using moves_inv [OF a(1) assms(2)] .
  have "guar (moves E) (RotateKey E key deadline emergency)"
    by (rule RotateKey_moves [OF assms(1)])
  then have inv': "sys_inv (cn_shared d)"
    using assms(2,3) by (blast dest: guarD moves_inv)
  have ver: "uint (rk_Version k) = kr_key_version cur + 1"
    using next_version(2) version_range [OF sys_inv_keys [OF inv] a(2)] a(4) by simp
  have gym: "rk_GymID k = rk_GymID key"
    using a(4) by simp
  have "find (is_current (rk_GymID key)) (tb_keys (cn_tables a)) = Some cur"
    using a(2,3) by (rule find_Some_unique) (use inv a(2,3) in \<open>auto simp: sys_inv_def keys_inv_def is_current_def\<close>)
  moreover have "tb_keys (cn_tables d) = rotated (sq_ts E) k cur deadline emergency (tb_keys (cn_tables a))"
    using a(6) by simp
  note rows = rotated_rows [OF inv inv' a(2) _ this, unfolded gym, OF a(3)]
  ultimately show ?thesis
    using a(1,4) ver rows by (intro exI [of _ a] exI [of _ cur]) simp
qed

text \<open>A key the store hands out is a stored row: its gym and version determine its secret.\<close>

definition stored_key :: "shared \<Rightarrow> RootKey \<Rightarrow> bool" where
  "stored_key s k \<longleftrightarrow>
     (case key_entry s (rk_GymID k, uint (rk_Version k)) of
        None \<Rightarrow> False
      | Some (ciphertext, reference, _) \<Rightarrow> ciphertext = rk_Ciphertext k \<and> reference = rk_KeyReference k)"

lemma stored_row:
  assumes "sys_inv s" and "row \<in> set (tb_keys (sh_tables s))" and "rk_GymID k = kr_gym_id row"
    and "uint (rk_Version k) = kr_key_version row" and "rk_Ciphertext k = kr_key_ciphertext row"
    and "rk_KeyReference k = kr_key_reference row"
  shows "stored_key s k"
proof -
  have "find (is_version (rk_GymID k) (uint (rk_Version k))) (tb_keys (sh_tables s)) = Some row"
    using assms(2) by (rule find_Some_unique)
      (use assms version_unique [OF assms(1)] in \<open>auto simp: is_version_def\<close>)
  with assms(5,6) show ?thesis
    by (simp add: stored_key_def key_entry_def)
qed

lemma uint_version:
  assumes "sys_inv s" and "row \<in> set (tb_keys (sh_tables s))"
  shows "uint (word_of_int (kr_key_version row) :: u64) = kr_key_version row"
  using version_range [OF sys_inv_keys [OF assms(1)] assms(2)] by (blast intro: next_version(1))

lemma stored_root_key:
  "sys_inv s \<Longrightarrow> row \<in> set (tb_keys (sh_tables s)) \<Longrightarrow> stored_key s (root_key_of row)"
  by (rule stored_row) (simp_all add: root_key_of_def uint_version)

lemma stored_key_run:
  "moves E c d \<Longrightarrow> sys_inv (cn_shared c) \<Longrightarrow> stored_key (cn_shared c) k \<Longrightarrow> stored_key (cn_shared d) k"
  unfolding stored_key_def moves_def
  by (auto split: option.splits dest: key_material.entry_run key_material.entry_agree)

lemma find_key_Inr:
  "find_key E p c = (Inr x, d) \<longleftrightarrow> sq_outcome E (cn_calls c) = Done \<and> d = arrive E c
     \<and> map_option root_key_of (find p (tb_keys (cn_tables d))) = x"
  by (auto simp: find_key_def bindE_Inr autocommit_def Let_def select_key_def put_tables_def split: sql_outcome.splits)

lemma find_key_stored:
  assumes "rely E" and "sys_inv (cn_shared c)" and "find_key E p c = (Inr (Some k), d)"
  shows "stored_key (cn_shared d) k"
proof -
  obtain row where "find p (tb_keys (cn_tables d)) = Some row" "k = root_key_of row" "d = arrive E c"
    using assms(3) by (auto simp: find_key_Inr)
  then show ?thesis
    using moves_inv [OF arrive_moves [OF assms(1)] assms(2)] by (metis find_SomeD stored_root_key)
qed

lemma CurrentKey_stored:
  "rely E \<Longrightarrow> sys_inv (cn_shared c) \<Longrightarrow> CurrentKey E g c = (Inr (Some k), d) \<Longrightarrow> stored_key (cn_shared d) k"
  unfolding CurrentKey_def by (rule find_key_stored)

lemma FindKey_stored:
  "rely E \<Longrightarrow> sys_inv (cn_shared c) \<Longrightarrow> FindKey E g v c = (Inr (Some k), d) \<Longrightarrow> stored_key (cn_shared d) k"
  unfolding FindKey_def by (auto intro: find_key_stored split: sum.splits)

lemma autocommit_Inr:
  "autocommit E st c = (Inr x, d) \<longleftrightarrow> sq_outcome E (cn_calls c) = Done
     \<and> (\<exists>t. st (cn_tables (arrive E c)) = Inr (x, t) \<and> d = put_tables t (arrive E c))"
  by (auto simp: autocommit_def Let_def split: sql_outcome.splits sum.splits)

lemma RotateKey_stored:
  assumes "rely E" and "sys_inv (cn_shared c)" and "RotateKey E key deadline emergency c = (Inr k, d)"
  shows "stored_key (cn_shared d) k"
  using assms
proof (rule RotateKey_Inr)
  fix a cur
  assume a: "moves E c a" "cur \<in> set (tb_keys (cn_tables a))"
    "k = key\<lparr>rk_Version := word_of_int (kr_key_version cur) + 1\<rparr>" "kr_key_version cur + 1 < 2 ^ 63"
    "cn_shared d = (cn_shared a)\<lparr>sh_tables := (cn_tables a)
        \<lparr>tb_keys := rotated (sq_ts E) k cur deadline emergency (tb_keys (cn_tables a))\<rparr>\<rparr>"
  let ?row = "new_key_row (sq_ts E) k (kr_key_version cur + 1)"
  have inv: "sys_inv (cn_shared a)"
    using moves_inv [OF a(1) assms(2)] .
  have v: "uint (rk_Version k) = kr_key_version cur + 1"
    using next_version(2) version_range [OF sys_inv_keys [OF inv] a(2)] a(3) by simp
  have "sys_inv (cn_shared d)"
    using guarD [OF RotateKey_moves [OF assms(1)] assms(3)] assms(2) by (rule moves_inv)
  moreover have "?row \<in> set (tb_keys (cn_tables d))"
    by (simp add: a(5) rotated_def)
  ultimately show ?thesis
    by (rule stored_row) (simp_all add: new_key_row_def v)
qed

lemma insert_key_or_nothing_row:
  "insert_key_or_nothing ts key t = Inr (1, t') \<Longrightarrow> new_key_row ts key (uint (rk_Version key)) \<in> set (tb_keys t')"
  by (auto simp: insert_key_or_nothing_def bigint_arg_def split: if_splits)

lemma create_try_cases:
  assumes "rely E" and "create_try E key c = (a, d)"
  shows "moves E c d" and "sys_inv (cn_shared c) \<Longrightarrow> a = Ok k \<Longrightarrow> stored_key (cn_shared d) k"
proof -
  obtain r u where ru: "autocommit E (insert_key_or_nothing (sq_ts E) key) c = (r, u)"
    by fastforce
  have "guar (moves E) (autocommit E (insert_key_or_nothing (sq_ts E) key))"
    using assms(1) by (auto intro: autocommit_moves sys_step.create_key)
  then have mv: "moves E c u"
    using ru by (rule guarD)
  have g: "guar (moves E) (create_rest E key n)" for n
    using assms(1) by (auto simp: create_rest_def intro!: guar_rules)
  show "moves E c d"
    using assms(2) mv ru by (auto simp: create_try_def split: sum.splits prod.splits option.splits
        intro: moves_trans guarD [OF g])
  assume inv: "sys_inv (cn_shared c)" and a: "a = Ok k"
  then obtain n where n: "r = Inr n" "create_rest E key n u = (Inr (Some k), d)"
    using assms(2) ru
    by (auto simp: create_try_def split: sum.splits prod.splits option.splits if_splits)
  have inv': "sys_inv (cn_shared u)" "sys_inv (cn_shared d)"
    using mv moves_trans [OF mv guarD [OF g n(2)]] inv by (blast intro: moves_inv)+
  consider "n = 1" "k = key" "cn_shared d = cn_shared u" | "CurrentKey E (rk_GymID key) (next_call u) = (Inr (Some k), d)"
    using n(2) by (auto simp: create_rest_def bindE_Inr driver_read_Inr split: if_splits)
  then show "stored_key (cn_shared d) k"
  proof cases
    case 1
    then have "new_key_row (sq_ts E) k (uint (rk_Version k)) \<in> set (tb_keys (cn_tables d))"
      using ru n(1) by (auto simp: autocommit_Inr dest: insert_key_or_nothing_row)
    then show ?thesis
      by (rule stored_row [OF inv'(2)]) (simp_all add: new_key_row_def)
  next
    case 2
    then show ?thesis
      using CurrentKey_stored [OF assms(1) _ 2] inv'(1) by simp
  qed
qed

lemma CreateCurrentKey_stored:
  assumes "rely E" and "sys_inv (cn_shared c)" and "CreateCurrentKey E key c = (Inr k, d)"
  shows "stored_key (cn_shared d) k"
proof -
  obtain n u where n: "creation.rounds E key n c u" "create_try E key u = (Ok k, d)"
    using assms(3) unfolding CreateCurrentKey_def by (rule creation.loop_Inr)
  have "sys_inv (cn_shared u)"
    using creation.rounds_preserves [of E key "\<lambda>c. sys_inv (cn_shared c)", OF _ n(1) assms(2)]
      create_try_cases(1) [OF assms(1)] moves_inv by blast
  then show ?thesis
    using create_try_cases(2) [OF assms(1) n(2)] by simp
qed

text \<open>The key is one of the gym that was asked for, and of the version that was asked for.\<close>

lemma root_key_of_simps:
  "rk_GymID (root_key_of r) = kr_gym_id r" "rk_Version (root_key_of r) = word_of_int (kr_key_version r)"
  "rk_Status (root_key_of r) = kr_status r"
  by (simp_all add: root_key_of_def)

lemma CurrentKey_Inr:
  "CurrentKey E g c = (Inr (Some k), d) \<Longrightarrow> d = arrive E c
     \<and> (\<exists>row. find (is_current g) (tb_keys (cn_tables d)) = Some row \<and> k = root_key_of row \<and> rk_GymID k = g \<and> rk_Status k = RootKeyCurrent)"
  unfolding CurrentKey_def
  by (auto simp: find_key_Inr root_key_of_simps) (auto simp: is_current_def dest: find_SomeD)

lemma FindKey_Inr:
  "FindKey E g v c = (Inr (Some k), d) \<Longrightarrow> d = arrive E c \<and> rk_GymID k = g \<and> rk_Version k = v
     \<and> (\<exists>row. find (is_version g (uint v)) (tb_keys (cn_tables d)) = Some row \<and> k = root_key_of row)"
  unfolding FindKey_def
  by (auto simp: find_key_Inr bigint_arg_def root_key_of_simps split: if_splits) (auto simp: is_version_def dest!: find_SomeD)

lemma CreateCurrentKey_gym:
  assumes "CreateCurrentKey E key c = (Inr k, d)"
  shows "rk_GymID k = rk_GymID key"
proof -
  obtain u where "create_try E key u = (Ok k, d)"
    using assms unfolding CreateCurrentKey_def by (blast elim: creation.loop_Inr)
  then obtain n c where "create_rest E key n c = (Inr (Some k), d)"
    by (auto simp: create_try_def split: prod.splits sum.splits option.splits if_splits)
  then show ?thesis
    by (auto simp: create_rest_def bindE_Inr driver_read_Inr split: if_splits dest: CurrentKey_Inr)
qed

lemma handed_out:
  assumes "rely E" and "CreateCurrentKey E key c = (Inr k, d) \<or> RotateKey E key t b c = (Inr k, d)
      \<or> CurrentKey E g c = (Inr (Some k), d) \<or> FindKey E g v c = (Inr (Some k), d)"
  shows "moves E c d" and "sys_inv (cn_shared c) \<Longrightarrow> stored_key (cn_shared d) k"
proof -
  show "moves E c d"
    using assms(2)
    by (elim disjE) (erule guarD [rotated], rule guar_rules, rule assms(1))+
  show "stored_key (cn_shared d) k" if inv: "sys_inv (cn_shared c)"
    using assms(2)
    by (elim disjE) (erule CreateCurrentKey_stored [OF assms(1) inv] RotateKey_stored [OF assms(1) inv]
        CurrentKey_stored [OF assms(1) inv] FindKey_stored [OF assms(1) inv])+
qed

text \<open>C19: Keys never change hands: whatever method handed out two keys of the same gym and version, at any two
  moments and to any two instances, they carry the same ciphertext and the same KMS reference.  In
  particular two instances that create a gym's first key at the same time end up with one key.\<close>

theorem keys_agree:
  assumes "rely E" and "sys_inv (cn_shared c1)" and "moves E d1 c2"
    and "CreateCurrentKey E key1 c1 = (Inr k1, d1) \<or> RotateKey E key1 t1 b1 c1 = (Inr k1, d1)
      \<or> CurrentKey E g1 c1 = (Inr (Some k1), d1) \<or> FindKey E g1 v1 c1 = (Inr (Some k1), d1)"
    and "CreateCurrentKey E key2 c2 = (Inr k2, d2) \<or> RotateKey E key2 t2 b2 c2 = (Inr k2, d2)
      \<or> CurrentKey E g2 c2 = (Inr (Some k2), d2) \<or> FindKey E g2 v2 c2 = (Inr (Some k2), d2)"
    and "rk_GymID k1 = rk_GymID k2" and "rk_Version k1 = rk_Version k2"
  shows "rk_Ciphertext k1 = rk_Ciphertext k2 \<and> rk_KeyReference k1 = rk_KeyReference k2"
proof -
  note first = handed_out [OF assms(1,4)] and second = handed_out [OF assms(1,5)]
  have inv: "sys_inv (cn_shared d1)" "sys_inv (cn_shared c2)"
    using assms(2,3) first(1) moves_inv by blast+
  have "stored_key (cn_shared d2) k1"
    using stored_key_run [OF moves_trans [OF assms(3) second(1)] inv(1) first(2) [OF assms(2)]] .
  moreover have "stored_key (cn_shared d2) k2"
    by (rule second(2) [OF inv(2)])
  ultimately show ?thesis
    using assms(6,7) by (auto simp: stored_key_def split: option.splits)
qed

text \<open>Rotations are serialised: of two successful rotations of a gym, whichever instances made them, the later
  one returns a larger version.\<close>

lemma rotations_increase:
  assumes "rely E" and "sys_inv (cn_shared c1)" and "RotateKey E key1 t1 b1 c1 = (Inr k1, d1)" and "moves E d1 c2"
    and "RotateKey E key2 t2 b2 c2 = (Inr k2, d2)" and "rk_GymID key2 = rk_GymID key1"
  shows "rk_Version k1 < rk_Version k2"
proof -
  have inv: "sys_inv (cn_shared d1)" "sys_inv (cn_shared c2)"
    using assms(2,4) guarD [OF RotateKey_moves [OF assms(1)] assms(3)] moves_inv by blast+
  from assms(1) inv(2) assms(5) obtain a cur where a: "moves E c2 a" "cur \<in> set (tb_keys (cn_tables a))"
    "is_current (rk_GymID key2) cur" "k2 = key2\<lparr>rk_Version := word_of_int (kr_key_version cur) + 1\<rparr>"
    "kr_key_version cur + 1 < 2 ^ 63"
    by (rule RotateKey_Inr)
  have inva: "sys_inv (cn_shared a)"
    using moves_inv [OF a(1) inv(2)] .
  have k1: "rk_GymID k1 = rk_GymID key1"
    using assms(1-3) by (rule RotateKey_Inr) simp
  have "stored_key (cn_shared a) k1"
    using stored_key_run [OF moves_trans [OF assms(4) a(1)] inv(1) RotateKey_stored [OF assms(1-3)]] .
  then obtain row where row: "find (is_version (rk_GymID k1) (uint (rk_Version k1))) (tb_keys (cn_tables a)) = Some row"
    by (auto simp: stored_key_def key_entry_def split: option.splits)
  then have mem: "row \<in> set (tb_keys (cn_tables a))" "kr_gym_id row = rk_GymID k1" "kr_key_version row = uint (rk_Version k1)"
    by (auto simp: is_version_def dest: find_SomeD)
  have "kr_key_version row \<le> kr_key_version cur"
    using current_newest [OF sys_inv_keys [OF inva] mem(1) a(2)] a(3) mem(2) k1 assms(6) by simp
  moreover have "uint (rk_Version k2) = kr_key_version cur + 1"
    using next_version(2) version_range [OF sys_inv_keys [OF inva] a(2)] a(4) by simp
  ultimately show ?thesis
    using mem(3) by (simp add: word_less_def)
qed

section \<open>The outbox: what a claim returns\<close>

definition claimed :: "(time \<Rightarrow> time) \<Rightarrow> time \<Rightarrow> outbox_row \<Rightarrow> outbox_row" where
  "claimed ts now r = r\<lparr>or_status := PUBLISHING, or_claimed_at := Some (ts now)\<rparr>"

lemma claimed_id [simp]: "or_event_id (claimed ts now r) = or_event_id r"
  by (simp add: claimed_def)

lemma outbox_event_of_claimed [simp]: "outbox_event_of (claimed ts now r) = outbox_event_of r"
  by (simp add: outbox_event_of_def claimed_def)

text \<open>The rows \<open>ids\<close> names are claimed and returned, in any order, between the states \<open>s\<close> and \<open>t\<close>.\<close>

definition claims :: "sql_env \<Rightarrow> int \<Rightarrow> time \<Rightarrow> shared \<Rightarrow> shared \<Rightarrow> OutboxEvent list \<Rightarrow> string set \<Rightarrow> bool" where
  "claims E limit now s t events ids \<longleftrightarrow> (\<exists>locked \<in> range (sq_locked E). 0 \<le> limit
     \<and> ids = set (map or_event_id (claim_rows (sq_ts E) locked limit now (now - Minute) (tb_outbox (sh_tables s))))
     \<and> mset events = mset (map outbox_event_of (filter (\<lambda>r. or_event_id r \<in> ids) (tb_outbox (sh_tables t))))
     \<and> tb_outbox (sh_tables t) = update_where (\<lambda>r. or_event_id r \<in> ids) (claimed (sq_ts E) now) (tb_outbox (sh_tables s)))"

lemma ClaimOutbox_claims:
  assumes "ClaimOutbox E limit now c = (Inr events, d)" and returning: "\<And>n rows. mset (sq_returning E n rows) = mset rows"
  obtains ids where "claims E limit now (cn_shared (arrive E c)) (cn_shared d) events ids"
proof -
  let ?n = "Suc (cn_calls c)"
  from assms(1) obtain rows t where t:
    "claim_outbox (sq_ts E) (sq_locked E ?n) (sq_returning E ?n) limit now (now - Minute) (cn_tables (arrive E c)) = Inr (rows, t)"
    "events = map outbox_event_of rows" "cn_tables d = t"
    unfolding ClaimOutbox_def by (auto simp: bindE_Inr tx_Inr BeginTx_Inr Commit_Inr)
  let ?rows = "tb_outbox (cn_tables (arrive E c))"
  let ?ids = "set (map or_event_id (claim_rows (sq_ts E) (sq_locked E ?n) limit now (now - Minute) ?rows))"
  from t(1) have "0 \<le> limit" "tb_outbox t = update_where (\<lambda>r. or_event_id r \<in> ?ids) (claimed (sq_ts E) now) ?rows"
    "rows = sq_returning E ?n (filter (\<lambda>r. or_event_id r \<in> ?ids) (tb_outbox t))"
    by (auto simp: claim_outbox_def Let_def claimed_def [abs_def] split: if_splits)
  then have "claims E limit now (cn_shared (arrive E c)) (cn_shared d) events ?ids"
    unfolding claims_def t(2,3) by (intro bexI [of _ "sq_locked E ?n"]) (simp_all add: returning)
  then show thesis
    by (rule that)
qed

lemma claim_rows_subset:
  "r \<in> set (claim_rows ts locked limit now stale rows) \<Longrightarrow> r \<in> set rows \<and> claimable (ts now) (ts stale) r"
  unfolding claim_rows_def by (auto dest!: in_set_takeD)

lemma claimed_count:
  assumes "distinct (map or_event_id rows)"
  shows "length (filter (\<lambda>r. or_event_id r \<in> set (map or_event_id xs)) rows) \<le> length xs"
proof -
  let ?f = "filter (\<lambda>r. or_event_id r \<in> set (map or_event_id xs)) rows"
  have "length ?f = card (set (map or_event_id ?f))"
    using assms by (metis distinct_card distinct_map_filter length_map)
  also have "\<dots> \<le> card (set (map or_event_id xs))"
    by (intro card_mono) auto
  also have "\<dots> \<le> length xs"
    by (metis card_length length_map)
  finally show ?thesis .
qed

lemma claims_distinct:
  "claims E limit now s t events ids \<Longrightarrow> sys_inv s \<Longrightarrow> distinct (map or_event_id (tb_outbox (sh_tables t)))"
  by (auto simp: claims_def map_update_where sys_inv_def outbox_inv_def)

lemma claims_count:
  assumes "claims E limit now s t events ids" and "sys_inv s"
  shows "int (length events) \<le> limit" and "distinct (map ev_ID events)"
proof -
  let ?got = "filter (\<lambda>r. or_event_id r \<in> ids) (tb_outbox (sh_tables t))"
  note dist = claims_distinct [OF assms]
  have perm: "mset events = mset (map outbox_event_of ?got)"
    using assms(1) unfolding claims_def by blast
  obtain locked where l: "0 \<le> limit"
    "ids = set (map or_event_id (claim_rows (sq_ts E) locked limit now (now - Minute) (tb_outbox (sh_tables s))))"
    using assms(1) unfolding claims_def by blast
  then obtain xs :: "outbox_row list" where xs: "ids = set (map or_event_id xs)" "int (length xs) \<le> limit"
    using that [OF l(2)] by (simp add: claim_rows_def)
  have "length events = length ?got"
    using perm by (metis length_map size_mset)
  also have "\<dots> \<le> length xs"
    unfolding xs(1) by (rule claimed_count [OF dist])
  finally show "int (length events) \<le> limit"
    using xs(2) by simp
  have "ev_ID \<circ> outbox_event_of = or_event_id"
    by (simp add: fun_eq_iff outbox_event_of_def)
  then have "mset (map ev_ID events) = mset (map or_event_id ?got)"
    by (simp add: perm multiset.map_comp)
  then show "distinct (map ev_ID events)"
    using mset_eq_imp_distinct_iff distinct_map_filter [OF dist] by blast
qed

lemma claims_set:
  assumes "claims E limit now s t events ids"
  shows "set events = outbox_event_of ` {r \<in> set (tb_outbox (sh_tables s)). or_event_id r \<in> ids}"
proof -
  have "set events = outbox_event_of ` set (filter (\<lambda>r. or_event_id r \<in> ids)
      (update_where (\<lambda>r. or_event_id r \<in> ids) (claimed (sq_ts E) now) (tb_outbox (sh_tables s))))"
    using assms unfolding claims_def by (metis list.set_map mset_eq_setD)
  also have "\<dots> = outbox_event_of ` {r \<in> set (tb_outbox (sh_tables s)). or_event_id r \<in> ids}"
    by (simp add: filter_update_where image_image)
  finally show ?thesis .
qed

lemma claims_row:
  assumes "claims E limit now s t events ids"
  shows "event_row t eid = map_option (\<lambda>r. if or_event_id r \<in> ids then claimed (sq_ts E) now r else r) (event_row s eid)"
  using assms unfolding event_row_def claims_def by (auto simp: find_update_where)

lemma claims_due:
  assumes "claims E limit now s t events ids" and inv: "sys_inv s"
    and r: "r \<in> set (tb_outbox (sh_tables s))" "or_event_id r \<in> ids"
  shows "claimable (sq_ts E now) (sq_ts E (now - Minute)) r"
  using assms(1) r(2) event_unique [OF inv _ r(1)] by (fastforce simp: claims_def dest: claim_rows_subset)

text \<open>C20: A claim returns at most \<open>limit\<close> events, each once.  Every one of them was due or had a stale claim when
  the transaction read it, and is now \<open>PUBLISHING\<close> with a fresh claim; every other row is as it was.\<close>

theorem ClaimOutbox_result:
  assumes "rely E" and "sys_inv (cn_shared c)" and "ClaimOutbox E limit now c = (Inr events, d)"
    and returning: "\<And>n rows. mset (sq_returning E n rows) = mset rows"
  shows "int (length events) \<le> limit \<and> distinct (map ev_ID events)
    \<and> (\<forall>e \<in> set events. \<exists>r. event_row (cn_shared (arrive E c)) (ev_ID e) = Some r \<and> e = outbox_event_of r
         \<and> claimable (sq_ts E now) (sq_ts E (now - Minute)) r
         \<and> event_row (cn_shared d) (ev_ID e) = Some (claimed (sq_ts E) now r))
    \<and> (\<forall>eid. eid \<notin> ev_ID ` set events \<longrightarrow> event_row (cn_shared d) eid = event_row (cn_shared (arrive E c)) eid)"
  using assms(3) returning
proof (rule ClaimOutbox_claims)
  fix ids
  let ?s = "cn_shared (arrive E c)"
  assume claims: "claims E limit now ?s (cn_shared d) events ids"
  have inv: "sys_inv ?s"
    using moves_inv [OF arrive_moves [OF assms(1)] assms(2)] .
  note set = claims_set [OF claims] and row = claims_row [OF claims]
  have each: "\<exists>r. event_row ?s (ev_ID e) = Some r \<and> e = outbox_event_of r
         \<and> claimable (sq_ts E now) (sq_ts E (now - Minute)) r
         \<and> event_row (cn_shared d) (ev_ID e) = Some (claimed (sq_ts E) now r)" if "e \<in> set events" for e
  proof -
    obtain r where r: "r \<in> set (tb_outbox (sh_tables ?s))" "or_event_id r \<in> ids" "e = outbox_event_of r"
      using \<open>e \<in> set events\<close> set by auto
    then show ?thesis
      using event_row_mem [OF inv r(1)] claims_due [OF claims inv r(1,2)] row by (simp add: outbox_event_of_def)
  qed
  have rest: "event_row (cn_shared d) eid = event_row ?s eid" if "eid \<notin> ev_ID ` set events" for eid
  proof (cases "event_row ?s eid")
    case (Some r)
    then have "or_event_id r \<notin> ids"
      using \<open>eid \<notin> ev_ID ` set events\<close> set event_rowD [OF Some] by (force simp: outbox_event_of_def)
    with Some show ?thesis
      using row [of eid] by simp
  qed (simp add: row)
  show ?thesis
    using claims_count [OF claims inv] each rest by blast
qed

section \<open>The outbox: updates of a claimed event\<close>

text \<open>
  The contract of the five updates: each changes the rows that satisfy its guard, and its guard asks for
  the event and for a claim.  A call that returns no error changed exactly the event's row.
\<close>

locale claimed_update =
  fixes stmt :: "int stmt" and eid :: string and guard :: "outbox_row \<Rightarrow> bool" and change :: "outbox_row \<Rightarrow> outbox_row"
  assumes stmt_Inr: "stmt t = Inr (n, u) \<Longrightarrow>
      n = affected guard (tb_outbox t) \<and> u = t\<lparr>tb_outbox := update_where guard change (tb_outbox t)\<rparr>"
    and guard_claimed: "guard r \<Longrightarrow> or_event_id r = eid \<and> or_status r = PUBLISHING"
    and change_id: "or_event_id (change r) = or_event_id r"
begin

lemma effect:
  assumes "expect_one E msg stmt c = (Inr x, d)"
  shows "affected guard (tb_outbox (cn_tables (arrive E c))) = 1"
    and "cn_shared d = (cn_shared (arrive E c))\<lparr>sh_tables := (cn_tables (arrive E c))
          \<lparr>tb_outbox := update_where guard change (tb_outbox (cn_tables (arrive E c)))\<rparr>\<rparr>"
  using assms stmt_Inr by (auto simp: expect_one_def bindE_Inr autocommit_Inr driver_read_Inr split: if_splits)

lemma success:
  assumes "expect_one E msg stmt c = (Inr x, d)" and inv: "sys_inv (cn_shared (arrive E c))"
  obtains r where "event_row (cn_shared (arrive E c)) eid = Some r" "guard r" "event_row (cn_shared d) eid = Some (change r)"
proof -
  let ?rows = "tb_outbox (cn_tables (arrive E c))"
  have "filter guard ?rows \<noteq> []"
    using effect(1) [OF assms(1)] by (auto simp: affected_def)
  then obtain r where r: "r \<in> set ?rows" "guard r"
    by (auto simp: filter_empty_conv)
  have row: "event_row (cn_shared (arrive E c)) eid = Some r"
    using event_row_mem [OF inv r(1)] guard_claimed [OF r(2)] by simp
  moreover have "event_row (cn_shared d) eid = Some (change r)"
    using row r(2) effect(2) [OF assms(1)] find_update_where [of "\<lambda>r. or_event_id r = eid" change guard ?rows]
    by (simp add: event_row_def change_id)
  ultimately show thesis
    using r(2) that by blast
qed

lemma others:
  assumes "expect_one E msg stmt c = (Inr x, d)" and "other \<noteq> eid"
  shows "event_row (cn_shared d) other = event_row (cn_shared (arrive E c)) other"
proof -
  let ?s = "cn_shared (arrive E c)"
  have "event_row (cn_shared d) other = map_option (\<lambda>r. if guard r then change r else r) (event_row ?s other)"
    unfolding event_row_def effect(2) [OF assms(1)] by (simp add: find_update_where change_id)
  also have "\<dots> = event_row ?s other"
    using guard_claimed assms(2) event_rowD [of ?s other] by (cases "event_row ?s other") auto
  finally show ?thesis .
qed

lemma applies:
  assumes E: "undisturbed E" and inv: "sys_inv (cn_shared c)"
    and row: "event_row (cn_shared c) eid = Some r" "guard r" and ok: "stmt (cn_tables c) = Inr y"
  obtains d where "expect_one E msg stmt c = (Inr (), d)" "sh_broker (cn_shared d) = sh_broker (cn_shared c)"
    "event_row (cn_shared d) eid = Some (change r)" "\<And>other. other \<noteq> eid \<Longrightarrow> event_row (cn_shared d) other = event_row (cn_shared c) other"
proof -
  let ?rows = "tb_outbox (cn_tables c)"
  have arrive: "cn_shared (arrive E c) = cn_shared c"
    using E by (simp add: undisturbed_def)
  have r: "r \<in> set ?rows" "or_event_id r = eid"
    using event_rowD [OF row(1)] by simp_all
  have "x = r" if "x \<in> set ?rows" "guard x" for x
    using event_unique [OF inv that(1) r(1)] guard_claimed [OF that(2)] r(2) by simp
  then have only: "set (filter guard ?rows) = {r}"
    using r(1) row(2) unfolding set_filter by blast
  have "distinct (filter guard ?rows)"
    using inv by (simp add: sys_inv_def outbox_inv_def distinct_map)
  from distinct_card [OF this] have "affected guard ?rows = 1"
    unfolding only by (simp add: affected_def)
  then have "\<exists>d. expect_one E msg stmt c = (Inr (), d)"
    using ok stmt_Inr [of "cn_tables c"] E arrive
    by (cases y) (auto simp: expect_one_def bindE_def autocommit_def driver_read_def undisturbed_def Let_def)
  then obtain d where d: "expect_one E msg stmt c = (Inr (), d)"
    by blast
  show thesis
  proof (rule that [OF d])
    show "sh_broker (cn_shared d) = sh_broker (cn_shared c)"
      using effect(2) [OF d] arrive by simp
    show "event_row (cn_shared d) eid = Some (change r)"
      by (rule success [OF d, unfolded arrive, OF inv]) (use row(1) in simp)
    show "event_row (cn_shared d) other = event_row (cn_shared c) other" if "other \<noteq> eid" for other
      using others [OF d that] arrive by simp
  qed
qed

end

lemmas claimed_update_defs = update_prepared_def update_published_def update_retry_def update_terminal_def
  checked_attempts_def update_claimed_def is_claimed_def

interpretation prepared: claimed_update "update_prepared eid v headers" eid
  "\<lambda>r. is_claimed eid r \<and> or_prepared_value r = None \<and> or_prepared_headers r = None"
  "\<lambda>r. r\<lparr>or_prepared_value := Some v, or_prepared_headers := Some headers\<rparr>" for eid v headers
  by unfold_locales (auto simp: claimed_update_defs)

interpretation published: claimed_update "update_published ts eid now" eid "is_claimed eid"
  "\<lambda>r. r\<lparr>or_status := PUBLISHED, or_published_at := Some (ts now)\<rparr>" for ts eid now
  by unfold_locales (auto simp: claimed_update_defs)

interpretation retried: claimed_update "update_retry ts eid attempts available" eid "is_claimed eid"
  "\<lambda>r. r\<lparr>or_status := PENDING, or_attempts := attempts, or_available_at := ts available, or_claimed_at := None\<rparr>"
  for ts eid attempts available
  by unfold_locales (auto simp: claimed_update_defs split: if_splits)

interpretation ended: claimed_update "update_terminal eid attempts status" eid "is_claimed eid"
  "\<lambda>r. r\<lparr>or_status := status, or_attempts := attempts, or_claimed_at := None\<rparr>" for eid attempts status
  by unfold_locales (auto simp: claimed_update_defs split: if_splits)

section \<open>Histories\<close>

definition history :: "sql_env \<Rightarrow> (checkin_row \<Rightarrow> string) \<Rightarrow> string \<Rightarrow> checkin_row list \<Rightarrow> CheckInRecord list" where
  "history E column value rows =
     map (\<lambda>r. record_of (cr_user_id r) r) (order_by (newest_first (sq_le E)) (filter (\<lambda>r. column r = value) rows))"

lemma list_where_Inr:
  assumes "list_where E column value page limit c = (Inr (records, n), d)"
    and "0 \<le> page" and "0 \<le> limit" and "page * limit < 2 ^ 63"
  shows "records = take (nat limit) (drop (nat page * nat limit) (history E column value (tb_check_ins (cn_tables d))))"
    and "n = int (length (history E column value (tb_check_ins (cn_tables (arrive E c)))))"
proof -
  have nonneg: "0 \<le> page * limit"
    using assms(2,3) by simp
  have off: "int64 (page * limit) = page * limit" "nat (page * limit) = nat page * nat limit"
    using nonneg assms(2,4) by (auto simp: nat_mult_distrib intro!: int64_id)
  show "records = take (nat limit) (drop (nat page * nat limit) (history E column value (tb_check_ins (cn_tables d))))"
    using assms(1,3) off nonneg
    by (auto simp: list_where_def bindE_Inr autocommit_Inr driver_read_Inr select_page_def page_of_def history_def
        take_map drop_map split: sum.splits if_splits)
  show "n = int (length (history E column value (tb_check_ins (cn_tables (arrive E c)))))"
    using assms(1)
    by (auto simp: list_where_def bindE_Inr autocommit_Inr select_count_def affected_def history_def)
qed

lemma concat_pages: "concat (map (\<lambda>p. take l (drop (p * l) xs)) [0..<n]) = take (n * l) xs"
  by (induction n) (simp_all add: take_add add.commute [of l])

lemma history_sorted:
  assumes "\<And>a b. sq_le E a b \<or> sq_le E b a" and "\<And>a b d. sq_le E a b \<Longrightarrow> sq_le E b d \<Longrightarrow> sq_le E a d"
  shows "sorted_wrt (\<lambda>a b. ci_CheckedInAt b \<le> ci_CheckedInAt a) (history E column v rows)"
proof -
  let ?le = "newest_first (sq_le E)"
  have "sorted_wrt ?le (order_by ?le (filter (\<lambda>r. column r = v) rows))"
  proof (rule sorted_order_by)
    show "?le a b \<or> ?le b a" for a b
      using assms(1) [of "cr_checkin_id a" "cr_checkin_id b"] by (auto simp: newest_first_def)
    show "?le a d" if "?le a b" "?le b d" for a b d
      using that assms(2) by (auto simp: newest_first_def)
  qed
  then show ?thesis
    by (auto simp: history_def sorted_wrt_map record_of_def newest_first_def elim!: sorted_wrt_mono_rel [rotated])
qed

text \<open>C21: Reading a member's or a user's history page by page, while no check-in is added to the table, yields
  the newest-first list of exactly that user's check-ins, cut into pages without gap or overlap.\<close>

theorem history_pages:
  assumes "\<And>p. p < n \<Longrightarrow> ListByUser E userID (int p) limit (cs p) = (Inr (records p, counted p), ds p)"
    and "\<And>p. p < n \<Longrightarrow> tb_check_ins (cn_tables (ds p)) = rows"
    and "0 \<le> limit" and "int n * limit < 2 ^ 63"
    and order: "\<And>a b. sq_le E a b \<or> sq_le E b a" "\<And>a b d. sq_le E a b \<Longrightarrow> sq_le E b d \<Longrightarrow> sq_le E a d"
  shows "concat (map records [0..<n]) = take (n * nat limit) (history E cr_user_id userID rows)
    \<and> mset (history E cr_user_id userID rows) = image_mset (record_of userID) {#r \<in># mset rows. cr_user_id r = userID#}
    \<and> sorted_wrt (\<lambda>a b. ci_CheckedInAt b \<le> ci_CheckedInAt a) (history E cr_user_id userID rows)"
proof (intro conjI)
  show "sorted_wrt (\<lambda>a b. ci_CheckedInAt b \<le> ci_CheckedInAt a) (history E cr_user_id userID rows)"
    using order by (rule history_sorted)
  have page: "records p = take (nat limit) (drop (p * nat limit) (history E cr_user_id userID rows))" if "p < n" for p
  proof -
    have "int p * limit \<le> int n * limit"
      using that assms(3) by (intro mult_right_mono) auto
    then show ?thesis
      using list_where_Inr(1) [OF assms(1) [OF that, unfolded ListByUser_def]] assms(2) [OF that] assms(3,4) by simp
  qed
  have "map records [0..<n] = map (\<lambda>p. take (nat limit) (drop (p * nat limit) (history E cr_user_id userID rows))) [0..<n]"
    using page by simp
  then show "concat (map records [0..<n]) = take (n * nat limit) (history E cr_user_id userID rows)"
    using concat_pages by metis
  show "mset (history E cr_user_id userID rows) = image_mset (record_of userID) {#r \<in># mset rows. cr_user_id r = userID#}"
    by (auto simp: history_def intro!: image_mset_cong)
qed

section \<open>Concrete runs\<close>

definition sample_record :: CheckInRecord where
  "sample_record = \<lparr>ci_ID = ''c1'', ci_UserID = ''u1'', ci_MemberID = ''m1'', ci_GymID = ''g1'', ci_CheckedInAt = 1500\<rparr>"

definition sample_event :: OutboxEvent where
  "sample_event = \<lparr>ev_ID = ''e1'', ev_Topic = checkInTopic, ev_Key = ''m1'', ev_Payload = [1, 2], ev_PreparedValue = None,
     ev_PreparedHeaders = None, ev_Attempts = 0, ev_CreatedAt = 1500\<rparr>"

definition sample_key :: RootKey where
  "sample_key = \<lparr>rk_GymID = ''g1'', rk_Version = 1, rk_Ciphertext = ''secret'', rk_KeyReference = ''arn'',
     rk_Status = RootKeyCurrent, rk_ActivatedAt = 1000, rk_AcceptanceDeadline = zero_time, rk_RetiredAt = None\<rparr>"

definition first_scan :: "(err + CheckInRecord) \<times> conn" where
  "first_scan = CreateCheckIn quiet_env sample_record ''fp'' ''i1'' sample_event start_conn"

definition second_scan :: "(err + CheckInRecord) \<times> conn" where
  "second_scan = CreateCheckIn quiet_env (sample_record\<lparr>ci_ID := ''c2''\<rparr>) ''fp'' ''i1'' sample_event (snd first_scan)"

lemma sample_event_for [simp]: "event_for sample_record sample_event"
  by (simp add: event_for_def sample_record_def sample_event_def)

lemma sample_scans:
  "first_scan = (Inr sample_record, snd first_scan)"
  "second_scan = (Inr (sample_record\<lparr>ci_CheckedInAt := 1000\<rparr>), snd second_scan)"
  by code_simp+

lemma first_scan_inv: "sys_inv (cn_shared (snd first_scan))"
  by (rule moves_inv [OF guarD [OF CreateCheckIn_moves] sys_inv_start])
    (use sample_scans(1) in \<open>auto simp: first_scan_def\<close>)

definition key_created :: "(err + RootKey) \<times> conn" where
  "key_created = CreateCurrentKey quiet_env sample_key start_conn"

definition key_rotated :: "(err + RootKey) \<times> conn" where
  "key_rotated = RotateKey quiet_env (sample_key\<lparr>rk_Ciphertext := ''next''\<rparr>) 5000 False (snd key_created)"

definition key_rotated2 :: "(err + RootKey) \<times> conn" where
  "key_rotated2 = RotateKey quiet_env (sample_key\<lparr>rk_Ciphertext := ''third''\<rparr>) 9000 True (snd key_rotated)"

definition key_found :: "(err + RootKey option) \<times> conn" where
  "key_found = FindKey quiet_env ''g1'' 1 (snd key_rotated2)"

lemma sample_keys:
  "key_created = (Inr sample_key, snd key_created)"
  "key_rotated = (Inr (sample_key\<lparr>rk_Version := 2, rk_Ciphertext := ''next''\<rparr>), snd key_rotated)"
  "key_rotated2 = (Inr (sample_key\<lparr>rk_Version := 3, rk_Ciphertext := ''third''\<rparr>), snd key_rotated2)"
  "key_found = (Inr (Some (sample_key\<lparr>rk_Status := RootKeyRetired, rk_AcceptanceDeadline := 1000,
     rk_RetiredAt := Some 1000\<rparr>)), snd key_found)"
  by code_simp+

lemma sample_rotation:
  "RotateKey quiet_env (sample_key\<lparr>rk_Ciphertext := ''next''\<rparr>) 5000 False (snd key_created)
     = (Inr (sample_key\<lparr>rk_Version := 2, rk_Ciphertext := ''next''\<rparr>), snd key_rotated)"
  using sample_keys(2) by (simp add: key_rotated_def)

lemma sample_key_moves:
  "moves quiet_env start_conn (snd key_created)"
  "moves quiet_env (snd key_created) (snd key_rotated)"
  "moves quiet_env (snd key_rotated) (snd key_rotated2)"
  unfolding key_created_def key_rotated_def key_rotated2_def
  using CreateCurrentKey_moves [OF rely_quiet] RotateKey_moves [OF rely_quiet] by (simp_all add: guar_def)

lemma sample_key_inv: "sys_inv (cn_shared (snd key_created))" "sys_inv (cn_shared (snd key_rotated))"
  using sample_key_moves sys_inv_start moves_inv by blast+

theorem RotateKey_result_witness:
  "\<exists>a cur. moves quiet_env (snd key_created) a \<and> find (is_current ''g1'') (tb_keys (cn_tables a)) = Some cur
     \<and> (2 :: int) = kr_key_version cur + 1"
  using RotateKey_result [OF rely_quiet sample_key_inv(1) sample_rotation]
  by (auto simp: sample_key_def)

theorem keys_agree_witness:
  "\<exists>k. fst key_found = Inr (Some k) \<and> rk_Ciphertext sample_key = rk_Ciphertext k
     \<and> rk_KeyReference sample_key = rk_KeyReference k"
  using keys_agree [OF rely_quiet sys_inv_start, of "snd key_created" "snd key_rotated2" sample_key sample_key 0 False
      "''g1''" 1 sample_key
      "sample_key\<lparr>rk_Status := RootKeyRetired, rk_AcceptanceDeadline := 1000, rk_RetiredAt := Some 1000\<rparr>"
      "snd key_found" 0 False "''g1''" 1]
    sample_keys(1,4) moves_trans [OF sample_key_moves(2,3)]
  by (auto simp: key_created_def [symmetric] key_found_def [symmetric] dest: arg_cong [of _ _ fst])

theorem ClaimOutbox_result_witness:
  "\<exists>events d. ClaimOutbox quiet_env 50 2000 (snd first_scan) = (Inr events, d) \<and> length events = 1
     \<and> distinct (map ev_ID events)"
proof -
  define r where "r = ClaimOutbox quiet_env 50 2000 (snd first_scan)"
  have "fst r = Inr [sample_event\<lparr>ev_CreatedAt := 1000\<rparr>]"
    unfolding r_def by code_simp
  then have "ClaimOutbox quiet_env 50 2000 (snd first_scan) = (Inr [sample_event\<lparr>ev_CreatedAt := 1000\<rparr>], snd r)"
    by (simp add: r_def prod_eq_iff)
  then show ?thesis
    using ClaimOutbox_result [OF rely_quiet first_scan_inv] by (fastforce simp: quiet_env_def)
qed

theorem history_pages_witness:
  "concat (map (\<lambda>p. [sample_record\<lparr>ci_CheckedInAt := 1000\<rparr>]) [0..<1]) = take (1 * nat 10)
     (history quiet_env cr_user_id ''u1'' (tb_check_ins (cn_tables (snd first_scan))))"
proof -
  define r where "r = ListByUser quiet_env ''u1'' 0 10 (snd first_scan)"
  have fst: "fst r = Inr ([sample_record\<lparr>ci_CheckedInAt := 1000\<rparr>], 1)"
    and rows: "tb_check_ins (cn_tables (snd r)) = tb_check_ins (cn_tables (snd first_scan))"
    unfolding r_def by code_simp+
  show ?thesis
    using history_pages [of 1 quiet_env "''u1''" 10 "\<lambda>_. snd first_scan" "\<lambda>_. [sample_record\<lparr>ci_CheckedInAt := 1000\<rparr>]"
        "\<lambda>_. 1" "\<lambda>_. snd r" "tb_check_ins (cn_tables (snd first_scan))"] fst rows
    by (simp add: r_def prod_eq_iff quiet_env_def)
qed

end
