(* ===== verification/KeyCache.thy ===== *)
theory KeyCache
  imports Domain GoStrings
begin

text \<open>
  \<open>internal/usecase/key_cache.go\<close>: the bounded cache of plaintext root keys.  A Go slice is an address of
  the heap, so that \<open>clear\<close> (which zeroes an array in place) and \<open>append([]byte(nil), v...)\<close> (which copies
  one) are what they are in the code.  The map is its list of entries; the order in which \<open>range\<close> visits
  a map is not specified, so the entry \<open>put\<close> evicts is chosen by the parameter \<open>pick\<close>.  The mutex makes
  each method one step.

  \<open>view\<close> is the abstract cache, a partial map from identifiers to the bytes and the expiry; the lemmas
  say what each method does to it.  \<open>cache_ok\<close> is the invariant of the representation, \<open>confined\<close> says
  that no plaintext is left in an array the cache does not own.
\<close>

section \<open>Heap and cache\<close>

record cachedKey =
  ck_value :: nat
  ck_expires :: time

record keyCache =
  kc_capacity :: int
  kc_values :: "(string \<times> cachedKey) list"

record memory =
  me_heap :: "bytes list"
  me_keys :: keyCache

definition newKeyCache :: "int \<Rightarrow> keyCache" where
  "newKeyCache capacity = \<lparr>kc_capacity = capacity, kc_values = []\<rparr>"

definition alloc :: "bytes \<Rightarrow> memory \<Rightarrow> nat \<times> memory" where
  "alloc bs m = (length (me_heap m), m\<lparr>me_heap := me_heap m @ [bs]\<rparr>)"

definition deref :: "memory \<Rightarrow> nat \<Rightarrow> bytes" where
  "deref m a = (if a < length (me_heap m) then me_heap m ! a else [])"

definition clear_slice :: "nat \<Rightarrow> memory \<Rightarrow> memory" where
  "clear_slice a m = m\<lparr>me_heap := (me_heap m)[a := replicate (length (deref m a)) 0]\<rparr>"

text \<open>Filling an allocated array in place.\<close>

definition write_slice :: "nat \<Rightarrow> bytes \<Rightarrow> memory \<Rightarrow> memory" where
  "write_slice a bs m = m\<lparr>me_heap := (me_heap m)[a := bs]\<rparr>"

definition cacheID :: "string \<Rightarrow> u64 \<Rightarrow> string" where
  "cacheID gymID version = gymID @ '':'' @ FormatUint version"

definition delete_entry :: "string \<Rightarrow> memory \<Rightarrow> memory" where
  "delete_entry key m =
     (case map_of (kc_values (me_keys m)) key of
        None \<Rightarrow> m
      | Some entry \<Rightarrow>
          (clear_slice (ck_value entry) m)
            \<lparr>me_keys := (me_keys m)\<lparr>kc_values := filter (\<lambda>e. fst e \<noteq> key) (kc_values (me_keys m))\<rparr>\<rparr>)"

definition cache_get :: "string \<Rightarrow> u64 \<Rightarrow> time \<Rightarrow> memory \<Rightarrow> nat option \<times> memory" where
  "cache_get gymID version now m =
     (let key = cacheID gymID version
      in case map_of (kc_values (me_keys m)) key of
           None \<Rightarrow> (None, m)
         | Some entry \<Rightarrow>
             if \<not> now < ck_expires entry then (None, delete_entry key m)
             else (case alloc (deref m (ck_value entry)) m of (a, m') \<Rightarrow> (Some a, m')))"

definition evict :: "nat \<Rightarrow> memory \<Rightarrow> memory" where
  "evict pick m =
     (let values = kc_values (me_keys m)
      in if kc_capacity (me_keys m) \<le> int (length values) \<and> values \<noteq> []
         then delete_entry (fst (values ! (pick mod length values))) m
         else m)"

definition cache_put :: "nat \<Rightarrow> string \<Rightarrow> u64 \<Rightarrow> nat \<Rightarrow> time \<Rightarrow> memory \<Rightarrow> memory" where
  "cache_put pick gymID version a expires m =
     (let key = cacheID gymID version;
          m1 = evict pick m
      in case alloc (deref m1 a) m1 of
           (b, m2) \<Rightarrow>
             m2\<lparr>me_keys := (me_keys m2)\<lparr>kc_values :=
               (key, \<lparr>ck_value = b, ck_expires = expires\<rparr>) # filter (\<lambda>e. fst e \<noteq> key) (kc_values (me_keys m2))\<rparr>\<rparr>)"

definition cache_delete :: "string \<Rightarrow> u64 \<Rightarrow> memory \<Rightarrow> memory" where
  "cache_delete gymID version m = delete_entry (cacheID gymID version) m"

section \<open>Invariant and abstract view\<close>

definition owned :: "memory \<Rightarrow> nat set" where
  "owned m = ck_value ` snd ` set (kc_values (me_keys m))"

definition cache_ok :: "memory \<Rightarrow> bool" where
  "cache_ok m \<longleftrightarrow> distinct (map fst (kc_values (me_keys m)))
     \<and> distinct (map (ck_value \<circ> snd) (kc_values (me_keys m)))
     \<and> (\<forall>e \<in> set (kc_values (me_keys m)). ck_value (snd e) < length (me_heap m))
     \<and> int (length (kc_values (me_keys m))) \<le> max 1 (kc_capacity (me_keys m))"

definition view :: "memory \<Rightarrow> string \<Rightarrow> (bytes \<times> time) option" where
  "view m key = map_option (\<lambda>e. (deref m (ck_value e), ck_expires e)) (map_of (kc_values (me_keys m)) key)"

definition blank :: "bytes \<Rightarrow> bool" where
  "blank bs \<longleftrightarrow> (\<forall>b \<in> set bs. b = 0)"

text \<open>Every array holds zeroes, those of the cache and those in \<open>A\<close> (the buffers the caller is using) excepted.\<close>

definition confined :: "nat set \<Rightarrow> memory \<Rightarrow> bool" where
  "confined A m \<longleftrightarrow> (\<forall>a. a \<in> owned m \<or> a \<in> A \<or> blank (deref m a))"

lemma blank_replicate [simp]: "blank (replicate n 0)"
  by (simp add: blank_def)

lemma alloc_simps [simp]:
  "fst (alloc bs m) = length (me_heap m)"
  "me_heap (snd (alloc bs m)) = me_heap m @ [bs]"
  "me_keys (snd (alloc bs m)) = me_keys m"
  by (simp_all add: alloc_def)

lemma clear_simps [simp]:
  "length (me_heap (clear_slice a m)) = length (me_heap m)"
  "me_keys (clear_slice a m) = me_keys m"
  by (simp_all add: clear_slice_def)

lemma deref_clear: "deref (clear_slice a m) b = (if b = a then replicate (length (deref m a)) 0 else deref m b)"
  by (auto simp: deref_def clear_slice_def)

lemma deref_alloc: "deref (snd (alloc bs m)) a = (if a = length (me_heap m) then bs else deref m a)"
  by (auto simp: deref_def nth_append alloc_def)

lemma map_of_filter_key: "map_of (filter (\<lambda>e. fst e \<noteq> key) xs) k = (if k = key then None else map_of xs k)"
  by (induction xs) auto

lemma cacheID_inject [simp]: "cacheID g v = cacheID g' v' \<longleftrightarrow> g = g' \<and> v = v'"
  by (simp add: cacheID_def uint_dec.sep_encode_inject digits_def digit_val_def)

lemma owned_of: "map_of (kc_values (me_keys m)) key = Some e \<Longrightarrow> ck_value e \<in> owned m"
  unfolding owned_def by (force dest: map_of_SomeD)

lemma owned_less: "cache_ok m \<Longrightarrow> a \<in> owned m \<Longrightarrow> a < length (me_heap m)"
  by (auto simp: cache_ok_def owned_def)

lemma owner_unique:
  assumes "cache_ok m" and "map_of (kc_values (me_keys m)) k = Some e" and "map_of (kc_values (me_keys m)) k' = Some e'"
    and "ck_value e = ck_value e'"
  shows "k = k'"
proof -
  have "(k, e) \<in> set (kc_values (me_keys m))" "(k', e') \<in> set (kc_values (me_keys m))"
    using assms(2,3) by (auto dest: map_of_SomeD)
  then show ?thesis
    using assms(1,4) map_update_unique [of "ck_value \<circ> snd" "kc_values (me_keys m)" "(k, e)" "(k', e')"]
    by (simp add: cache_ok_def)
qed

section \<open>What the methods do to the view\<close>

lemma deref_keys [simp]: "deref (m\<lparr>me_keys := c\<rparr>) = deref m"
  by (simp add: deref_def fun_eq_iff)

lemma view_alloc:
  assumes "cache_ok m"
  shows "view (snd (alloc bs m)) = view m"
proof
  fix k
  show "view (snd (alloc bs m)) k = view m k"
    using owned_less [OF assms owned_of, of k]
    by (cases "map_of (kc_values (me_keys m)) k") (auto simp: view_def deref_alloc)
qed

lemma view_clear:
  assumes "a \<notin> owned m"
  shows "view (clear_slice a m) = view m"
proof
  fix k
  show "view (clear_slice a m) k = view m k"
    using owned_of [of m k] assms by (cases "map_of (kc_values (me_keys m)) k") (auto simp: view_def deref_clear)
qed

lemma view_delete:
  assumes "cache_ok m"
  shows "view (delete_entry key m) = (view m)(key := None)"
proof (cases "map_of (kc_values (me_keys m)) key")
  case (Some e)
  show ?thesis
  proof
    fix k
    show "view (delete_entry key m) k = ((view m)(key := None)) k"
      using Some owner_unique [OF assms _ Some, of k]
      by (cases "map_of (kc_values (me_keys m)) k")
        (auto simp: view_def delete_entry_def map_of_filter_key deref_clear)
  qed
qed (auto simp: view_def delete_entry_def fun_eq_iff)

lemma cache_ok_alloc: "cache_ok m \<Longrightarrow> cache_ok (snd (alloc bs m))"
  by (auto simp: cache_ok_def less_SucI)

lemma cache_ok_clear: "cache_ok m \<Longrightarrow> cache_ok (clear_slice a m)"
  by (simp add: cache_ok_def)

lemma cache_ok_delete:
  assumes "cache_ok m"
  shows "cache_ok (delete_entry key m)"
  using assms length_filter_le [of "\<lambda>e. fst e \<noteq> key" "kc_values (me_keys m)"]
  by (auto simp: cache_ok_def delete_entry_def distinct_map_filter split: option.splits simp del: length_filter_le)

lemma delete_entry_absent: "key \<notin> fst ` set (kc_values (me_keys (delete_entry key m)))"
  by (auto simp: delete_entry_def map_of_eq_None_iff split: option.splits)

lemma cache_ok_evict: "cache_ok m \<Longrightarrow> cache_ok (evict pick m)"
  by (simp add: evict_def Let_def cache_ok_delete)

lemma view_evict: "cache_ok m \<Longrightarrow> view (evict pick m) k = Some v \<Longrightarrow> view m k = Some v"
  by (auto simp: evict_def Let_def view_delete split: if_splits)

lemma evict_room:
  assumes "cache_ok m"
  shows "int (length (kc_values (me_keys (evict pick m)))) < max 1 (kc_capacity (me_keys m))"
proof (cases "kc_capacity (me_keys m) \<le> int (length (kc_values (me_keys m))) \<and> kc_values (me_keys m) \<noteq> []")
  case True
  let ?vs = "kc_values (me_keys m)"
  let ?e = "?vs ! (pick mod length ?vs)"
  have mem: "?e \<in> set ?vs"
    using True by (intro nth_mem mod_less_divisor) simp
  then obtain e where "map_of ?vs (fst ?e) = Some e"
    by (metis (no_types) not_None_eq map_of_eq_None_iff imageI)
  then have "kc_values (me_keys (evict pick m)) = filter (\<lambda>x. fst x \<noteq> fst ?e) ?vs"
    using True by (simp add: evict_def Let_def delete_entry_def)
  moreover have "length (filter (\<lambda>x. fst x \<noteq> fst ?e) ?vs) < length ?vs"
    using mem by (intro length_filter_less) auto
  ultimately show ?thesis
    using assms by (simp add: cache_ok_def)
qed (auto simp: evict_def Let_def)

lemma evict_capacity [simp]: "kc_capacity (me_keys (evict pick m)) = kc_capacity (me_keys m)"
  by (auto simp: evict_def Let_def delete_entry_def split: option.splits)

lemma cache_ok_put:
  assumes "cache_ok m"
  shows "cache_ok (cache_put pick g v a expires m)"
proof -
  let ?m = "evict pick m" and ?k = "cacheID g v"
  let ?vs = "filter (\<lambda>e. fst e \<noteq> ?k) (kc_values (me_keys ?m))"
  have ok: "cache_ok ?m"
    using assms by (rule cache_ok_evict)
  have "length ?vs \<le> length (kc_values (me_keys ?m))"
    by simp
  with evict_room [OF assms, of pick] have "int (length ?vs) < max 1 (kc_capacity (me_keys m))"
    by linarith
  then show ?thesis
    using ok by (auto simp: cache_ok_def cache_put_def Let_def alloc_def distinct_map_filter less_SucI)
qed

lemma view_put:
  assumes "cache_ok m"
  shows "view (cache_put pick g v a expires m) =
    (view (evict pick m))(cacheID g v \<mapsto> (deref (evict pick m) a, expires))"
proof
  fix k
  let ?m = "evict pick m"
  have ok: "cache_ok ?m"
    using assms by (rule cache_ok_evict)
  show "view (cache_put pick g v a expires m) k = ((view ?m)(cacheID g v \<mapsto> (deref ?m a, expires))) k"
    using owned_less [OF ok owned_of, of k]
    by (cases "map_of (kc_values (me_keys ?m)) k")
      (auto simp: cache_put_def Let_def alloc_def view_def map_of_filter_key deref_def nth_append)
qed

lemma deref_evict: "a \<notin> owned m \<Longrightarrow> deref (evict pick m) a = deref m a"
  using owned_of by (auto simp: evict_def Let_def delete_entry_def deref_clear split: option.splits)

text \<open>The abstract effect of the three methods.\<close>

lemma cache_get_view:
  assumes "cache_ok m" and "cache_get g v now m = (r, m')"
  shows "cache_ok m'"
    and "case view m (cacheID g v) of
       None \<Rightarrow> r = None \<and> view m' = view m
     | Some (bs, expires) \<Rightarrow>
         if now < expires then r = Some (length (me_heap m)) \<and> deref m' (length (me_heap m)) = bs \<and> view m' = view m
         else r = None \<and> view m' = (view m)(cacheID g v := None)"
proof -
  let ?k = "cacheID g v"
  have "cache_ok m' \<and> (case view m ?k of
       None \<Rightarrow> r = None \<and> view m' = view m
     | Some (bs, expires) \<Rightarrow>
         if now < expires then r = Some (length (me_heap m)) \<and> deref m' (length (me_heap m)) = bs \<and> view m' = view m
         else r = None \<and> view m' = (view m)(cacheID g v := None))"
  proof (cases "map_of (kc_values (me_keys m)) ?k")
    case None
    then show ?thesis
      using assms by (auto simp: cache_get_def Let_def view_def)
  next
    case (Some e)
    then have v: "view m ?k = Some (deref m (ck_value e), ck_expires e)"
      by (simp add: view_def)
    show ?thesis
    proof (cases "now < ck_expires e")
      case True
      then have "m' = snd (alloc (deref m (ck_value e)) m)" "r = Some (length (me_heap m))"
        using assms(2) Some by (auto simp: cache_get_def Let_def alloc_def)
      then show ?thesis
        using v True assms(1) by (simp add: view_alloc cache_ok_alloc deref_alloc)
    next
      case False
      then show ?thesis
        using v assms Some by (auto simp: cache_get_def Let_def view_delete cache_ok_delete)
    qed
  qed
  then show "cache_ok m'" and "case view m ?k of
       None \<Rightarrow> r = None \<and> view m' = view m
     | Some (bs, expires) \<Rightarrow>
         if now < expires then r = Some (length (me_heap m)) \<and> deref m' (length (me_heap m)) = bs \<and> view m' = view m
         else r = None \<and> view m' = (view m)(cacheID g v := None)"
    by simp_all
qed

section \<open>Plaintext is confined\<close>

lemma owned_alloc [simp]: "owned (snd (alloc bs m)) = owned m"
  by (simp add: owned_def)

lemma owned_clear [simp]: "owned (clear_slice a m) = owned m"
  by (simp add: owned_def)

lemma confined_mono: "confined A m \<Longrightarrow> A \<subseteq> B \<Longrightarrow> confined B m"
  by (auto simp: confined_def)

lemma confined_alloc: "confined A m \<Longrightarrow> confined (insert (length (me_heap m)) A) (snd (alloc bs m))"
  by (auto simp: confined_def deref_alloc)

lemma confined_clear: "confined A m \<Longrightarrow> confined (A - {a}) (clear_slice a m)"
  by (auto simp: confined_def deref_clear)

lemma owned_delete:
  assumes "cache_ok m" and "map_of (kc_values (me_keys m)) key = Some e"
  shows "owned (delete_entry key m) = owned m - {ck_value e}"
proof -
  have "ck_value (snd x) \<noteq> ck_value e" if "x \<in> set (kc_values (me_keys m))" "fst x \<noteq> key" for x
    using that assms owner_unique [OF assms(1), of "fst x" "snd x" key e]
    by (auto simp: cache_ok_def)
  moreover have "x = (key, e)" if "x \<in> set (kc_values (me_keys m))" "fst x = key" for x
  proof -
    have "map_of (kc_values (me_keys m)) (fst x) = Some (snd x)"
      using that(1) assms(1) by (simp add: cache_ok_def)
    with assms(2) that(2) show ?thesis
      by (simp add: prod_eq_iff)
  qed
  ultimately show ?thesis
    using assms(2) by (auto simp: owned_def delete_entry_def image_iff) metis
qed

lemma confined_delete:
  assumes "cache_ok m" and "confined A m"
  shows "confined A (delete_entry key m)"
proof (cases "map_of (kc_values (me_keys m)) key")
  case (Some e)
  have "deref (delete_entry key m) a = (if a = ck_value e then replicate (length (deref m a)) 0 else deref m a)" for a
    using Some by (simp add: delete_entry_def deref_clear)
  then show ?thesis
    using assms(2) owned_delete [OF assms(1) Some] by (auto simp: confined_def)
qed (use assms in \<open>simp add: delete_entry_def\<close>)

lemma confined_evict: "cache_ok m \<Longrightarrow> confined A m \<Longrightarrow> confined A (evict pick m)"
  by (simp add: evict_def Let_def confined_delete)

lemma confined_get:
  assumes "cache_ok m" and "confined A m" and "cache_get g v now m = (r, m')"
  shows "confined (A \<union> set_option r) m'"
  using assms confined_alloc [OF assms(2)]
  by (auto simp: cache_get_def Let_def confined_delete alloc_def split: option.splits if_splits)

lemma owned_put:
  assumes "view m (cacheID g v) = None" and "cache_ok m"
  shows "owned (cache_put pick g v a expires m) = insert (length (me_heap (evict pick m))) (owned (evict pick m))"
proof -
  let ?m = "evict pick m"
  have "view ?m (cacheID g v) = None"
    using view_evict [OF assms(2)] assms(1) by (cases "view ?m (cacheID g v)") auto
  then have "filter (\<lambda>e. fst e \<noteq> cacheID g v) (kc_values (me_keys ?m)) = kc_values (me_keys ?m)"
    by (force simp: view_def map_of_eq_None_iff filter_id_conv)
  then show ?thesis
    by (simp add: cache_put_def Let_def alloc_def owned_def)
qed

lemma deref_put:
  "deref (cache_put pick g v a expires m) b =
     (if b = length (me_heap (evict pick m)) then deref (evict pick m) a else deref (evict pick m) b)"
  by (auto simp: cache_put_def Let_def alloc_def deref_def nth_append)

lemma confined_put:
  assumes "cache_ok m" and "confined A m" and "view m (cacheID g v) = None"
  shows "confined A (cache_put pick g v a expires m)"
  using confined_evict [OF assms(1,2), of pick]
  by (auto simp: confined_def owned_put [OF assms(3,1)] deref_put)

section \<open>Clients of the cache\<close>

text \<open>
  The contract a client of a cache relies on: a hit is an entry of the view that has not expired, a
  deletion only removes, an insertion adds one entry and may remove others.  If everything the client
  ever inserts is right, then everything it is ever given is right.
\<close>

locale cache_contract =
  fixes ok :: "'m \<Rightarrow> bool" and contents :: "'m \<Rightarrow> 'k \<Rightarrow> ('v \<times> time) option"
    and lookup :: "'k \<Rightarrow> time \<Rightarrow> 'm \<Rightarrow> 'v option \<times> 'm" and insert_into :: "'k \<Rightarrow> 'v \<Rightarrow> time \<Rightarrow> 'm \<Rightarrow> 'm \<Rightarrow> bool"
    and remove :: "'k \<Rightarrow> 'm \<Rightarrow> 'm"
  assumes lookup_ok: "ok m \<Longrightarrow> lookup k now m = (r, m') \<Longrightarrow>
      ok m' \<and> (\<forall>j w. contents m' j = Some w \<longrightarrow> contents m j = Some w)
      \<and> (\<forall>x. r = Some x \<longrightarrow> (\<exists>e. contents m k = Some (x, e) \<and> now < e))"
    and insert_ok: "ok m \<Longrightarrow> insert_into k x e m m' \<Longrightarrow>
      ok m' \<and> (\<forall>j w. contents m' j = Some w \<longrightarrow> contents m j = Some w \<or> j = k \<and> w = (x, e))"
    and remove_ok: "ok m \<Longrightarrow> ok (remove k m) \<and> contents (remove k m) k = None
      \<and> (\<forall>j w. contents (remove k m) j = Some w \<longrightarrow> contents m j = Some w)"
begin

definition sound :: "('k \<Rightarrow> 'v \<Rightarrow> time \<Rightarrow> bool) \<Rightarrow> 'm \<Rightarrow> bool" where
  "sound good m \<longleftrightarrow> ok m \<and> (\<forall>k x e. contents m k = Some (x, e) \<longrightarrow> good k x e)"

lemma sound_lookup: "sound good m \<Longrightarrow> lookup k now m = (r, m') \<Longrightarrow> sound good m'"
  unfolding sound_def using lookup_ok by blast

lemma sound_hit: "sound good m \<Longrightarrow> lookup k now m = (Some x, m') \<Longrightarrow> \<exists>e. good k x e \<and> now < e"
  unfolding sound_def using lookup_ok by blast

lemma sound_insert: "sound good m \<Longrightarrow> good k x e \<Longrightarrow> insert_into k x e m m' \<Longrightarrow> sound good m'"
  unfolding sound_def using insert_ok by blast

lemma sound_remove: "sound good m \<Longrightarrow> sound good (remove k m)"
  unfolding sound_def using remove_ok by blast

lemma sound_mono: "sound good m \<Longrightarrow> (\<And>k x e. good k x e \<Longrightarrow> good' k x e) \<Longrightarrow> sound good' m"
  unfolding sound_def by blast

end

text \<open>The cache of the program, its keys pairs of a gym and a version, its values byte strings.\<close>

definition contents_of :: "memory \<Rightarrow> string \<times> u64 \<Rightarrow> (bytes \<times> time) option" where
  "contents_of m = (\<lambda>(g, v). view m (cacheID g v))"

definition lookup_in :: "string \<times> u64 \<Rightarrow> time \<Rightarrow> memory \<Rightarrow> bytes option \<times> memory" where
  "lookup_in = (\<lambda>(g, v) now m. case cache_get g v now m of (r, m') \<Rightarrow> (map_option (deref m') r, m'))"

definition insert_rel :: "string \<times> u64 \<Rightarrow> bytes \<Rightarrow> time \<Rightarrow> memory \<Rightarrow> memory \<Rightarrow> bool" where
  "insert_rel = (\<lambda>(g, v) x e m m'. \<exists>pick a. deref m a = x \<and> a \<notin> owned m \<and> m' = cache_put pick g v a e m)"

interpretation keys: cache_contract cache_ok contents_of lookup_in insert_rel "\<lambda>(g, v). cache_delete g v"
proof unfold_locales
  show "cache_ok m' \<and> (\<forall>j w. contents_of m' j = Some w \<longrightarrow> contents_of m j = Some w)
      \<and> (\<forall>x. r = Some x \<longrightarrow> (\<exists>e. contents_of m k = Some (x, e) \<and> now < e))"
    if ok: "cache_ok m" and run: "lookup_in k now m = (r, m')" for m k now r m'
  proof -
    obtain g v r' where k: "k = (g, v)" and get: "cache_get g v now m = (r', m')" "r = map_option (deref m') r'"
      using run by (cases k) (auto simp: lookup_in_def split: prod.splits)
    note gv = cache_get_view [OF ok get(1)]
    then show ?thesis
      using get(2) by (auto simp: contents_of_def k split: option.splits if_splits)
  qed
  show "cache_ok m' \<and> (\<forall>j w. contents_of m' j = Some w \<longrightarrow> contents_of m j = Some w \<or> j = k \<and> w = (x, e))"
    if ok: "cache_ok m" and put: "insert_rel k x e m m'" for m k x e m'
    using put ok by (cases k) (auto simp: insert_rel_def contents_of_def cache_ok_put view_put deref_evict split: if_splits
        dest: view_evict [OF ok])
  show "cache_ok ((case k of (g, v) \<Rightarrow> cache_delete g v) m)
      \<and> contents_of ((case k of (g, v) \<Rightarrow> cache_delete g v) m) k = None
      \<and> (\<forall>j w. contents_of ((case k of (g, v) \<Rightarrow> cache_delete g v) m) j = Some w \<longrightarrow> contents_of m j = Some w)"
    if "cache_ok m" for k m
    using that by (cases k) (auto simp: contents_of_def cache_delete_def cache_ok_delete view_delete split: if_splits)
qed

section \<open>The invariant of a request\<close>

text \<open>
  \<open>mem_ok good A m\<close>: the cache is intact and right, the request works on the private arrays \<open>A\<close>, and
  there is no plaintext anywhere else.
\<close>

definition mem_ok :: "(string \<times> u64 \<Rightarrow> bytes \<Rightarrow> time \<Rightarrow> bool) \<Rightarrow> nat set \<Rightarrow> memory \<Rightarrow> bool" where
  "mem_ok good A m \<longleftrightarrow> keys.sound good m \<and> confined A m \<and> (\<forall>a \<in> A. a < length (me_heap m) \<and> a \<notin> owned m)"

lemma sound_view:
  "keys.sound good m \<longleftrightarrow> cache_ok m \<and> (\<forall>g v x e. view m (cacheID g v) = Some (x, e) \<longrightarrow> good (g, v) x e)"
  by (auto simp: keys.sound_def contents_of_def)

lemma sound_same_view: "keys.sound good m \<Longrightarrow> cache_ok m' \<Longrightarrow> view m' = view m \<Longrightarrow> keys.sound good m'"
  by (simp add: sound_view)

lemma mem_okD:
  assumes "mem_ok good A m"
  shows "keys.sound good m" "cache_ok m" "confined A m" "a \<in> A \<Longrightarrow> a < length (me_heap m)" "a \<in> A \<Longrightarrow> a \<notin> owned m"
  using assms by (auto simp: mem_ok_def keys.sound_def)

lemma mem_ok_mono: "mem_ok good A m \<Longrightarrow> (\<And>k x e. good k x e \<Longrightarrow> good' k x e) \<Longrightarrow> mem_ok good' A m"
  unfolding mem_ok_def using keys.sound_mono by blast

lemma mem_ok_alloc:
  assumes "mem_ok good A m" and "alloc bs m = (a, m')"
  shows "mem_ok good (insert a A) m'" "a \<notin> A" "deref m' a = bs" "b \<in> A \<Longrightarrow> deref m' b = deref m b"
proof -
  have m': "m' = snd (alloc bs m)" "a = length (me_heap m)"
    using assms(2) by (simp_all add: alloc_def)
  note ok = mem_okD [OF assms(1)]
  show "a \<notin> A" "deref m' a = bs" "b \<in> A \<Longrightarrow> deref m' b = deref m b"
    using ok(4) by (auto simp: m' deref_alloc)
  have "keys.sound good m'"
    using ok(1) cache_ok_alloc [OF ok(2)] view_alloc [OF ok(2)] unfolding m' by (rule sound_same_view)
  moreover have "a \<notin> owned m"
    using owned_less [OF ok(2)] m'(2) by blast
  ultimately show "mem_ok good (insert a A) m'"
    using ok(4,5) confined_alloc [OF ok(3), of bs] by (auto simp: mem_ok_def m' less_SucI)
qed

lemma mem_ok_clear:
  assumes "mem_ok good A m" and "a \<in> A"
  shows "mem_ok good (A - {a}) (clear_slice a m)"
proof -
  note ok = mem_okD [OF assms(1)]
  have "keys.sound good (clear_slice a m)"
    using ok(1) cache_ok_clear [OF ok(2)] view_clear [OF ok(5) [OF assms(2)]] by (rule sound_same_view)
  then show ?thesis
    using ok(4,5) confined_clear [OF ok(3)] by (auto simp: mem_ok_def)
qed

lemma mem_ok_write:
  assumes "mem_ok good A m" and "a \<in> A"
  shows "mem_ok good A (write_slice a bs m)" "deref (write_slice a bs m) a = bs"
proof -
  note ok = mem_okD [OF assms(1)]
  have deref: "deref (write_slice a bs m) b = (if b = a then bs else deref m b)" for b
    using ok(4) [OF assms(2)] by (auto simp: write_slice_def deref_def)
  then show "deref (write_slice a bs m) a = bs"
    by simp
  have own: "owned (write_slice a bs m) = owned m" "length (me_heap (write_slice a bs m)) = length (me_heap m)"
    by (simp_all add: owned_def write_slice_def)
  have "view (write_slice a bs m) k = view m k" for k
    using owned_of [of m k] ok(5) [OF assms(2)]
    by (cases "map_of (kc_values (me_keys m)) k") (auto simp: view_def deref, auto simp: write_slice_def)
  moreover have "cache_ok (write_slice a bs m)"
    using ok(2) by (simp add: cache_ok_def write_slice_def)
  ultimately have "keys.sound good (write_slice a bs m)"
    using ok(1) by (simp add: sound_view)
  then show "mem_ok good A (write_slice a bs m)"
    using ok(3-5) assms(2) by (auto simp: mem_ok_def own confined_def deref)
qed

lemma owned_delete_subset: "owned (delete_entry key m) \<subseteq> owned m"
  by (auto simp: owned_def delete_entry_def split: option.splits)

lemma length_delete [simp]: "length (me_heap (delete_entry key m)) = length (me_heap m)"
  by (simp add: delete_entry_def split: option.splits)

lemma deref_delete: "a \<notin> owned m \<Longrightarrow> deref (delete_entry key m) a = deref m a"
  using owned_of by (auto simp: delete_entry_def deref_clear split: option.splits)

lemma mem_ok_delete:
  assumes "mem_ok good A m"
  shows "mem_ok good A (cache_delete g v m)" "view (cache_delete g v m) (cacheID g v) = None"
proof -
  note ok = mem_okD [OF assms]
  show "view (cache_delete g v m) (cacheID g v) = None"
    by (simp add: cache_delete_def view_delete [OF ok(2)])
  show "mem_ok good A (cache_delete g v m)"
    using keys.sound_remove [OF ok(1), of "(g, v)"] confined_delete [OF ok(2,3)] ok(4,5) owned_delete_subset
    by (fastforce simp: mem_ok_def cache_delete_def)
qed

lemma mem_ok_get:
  assumes "mem_ok good A m" and "cache_get g v now m = (r, m')"
  shows "r = None \<Longrightarrow> mem_ok good A m' \<and> view m' (cacheID g v) = None"
    and "r = Some a \<Longrightarrow> mem_ok good (insert a A) m' \<and> a \<notin> A \<and> (\<exists>e. good (g, v) (deref m' a) e \<and> now < e)"
proof -
  note ok = mem_okD [OF assms(1)]
  show "mem_ok good A m' \<and> view m' (cacheID g v) = None" if "r = None"
  proof (cases "map_of (kc_values (me_keys m)) (cacheID g v)")
    case None
    with that assms show ?thesis
      by (auto simp: cache_get_def Let_def view_def)
  next
    case (Some e)
    with that assms(2) have "m' = cache_delete g v m"
      by (auto simp: cache_get_def Let_def cache_delete_def alloc_def split: if_splits)
    with mem_ok_delete [OF assms(1), of g v] show ?thesis
      by simp
  qed
  assume r: "r = Some a"
  then obtain e where e: "map_of (kc_values (me_keys m)) (cacheID g v) = Some e" "now < ck_expires e"
    "alloc (deref m (ck_value e)) m = (a, m')"
    using assms(2) by (auto simp: cache_get_def Let_def alloc_def split: option.splits if_splits)
  then have "good (g, v) (deref m (ck_value e)) (ck_expires e)"
    using ok(1) by (simp add: sound_view view_def)
  then show "mem_ok good (insert a A) m' \<and> a \<notin> A \<and> (\<exists>e. good (g, v) (deref m' a) e \<and> now < e)"
    using mem_ok_alloc [OF assms(1) e(3)] e(2) by auto
qed

lemma evict_facts:
  shows "owned (evict pick m) \<subseteq> owned m" "length (me_heap (evict pick m)) = length (me_heap m)"
  using owned_delete_subset by (auto simp: evict_def Let_def)

lemma mem_ok_put:
  assumes "mem_ok good A m" and "a \<in> A" and "view m (cacheID g v) = None" and "good (g, v) (deref m a) e"
  shows "mem_ok good A (cache_put pick g v a e m)" "deref (cache_put pick g v a e m) a = deref m a"
proof -
  note ok = mem_okD [OF assms(1)]
  have len: "length (me_heap (evict pick m)) = length (me_heap m)"
    by (rule evict_facts)
  show "deref (cache_put pick g v a e m) a = deref m a"
    using ok(4,5) [OF assms(2)] by (simp add: deref_put len deref_evict)
  have "keys.sound good (cache_put pick g v a e m)"
    by (rule keys.sound_insert [OF ok(1), of "(g, v)" "deref m a" e])
      (use assms(2,4) ok(5) in \<open>auto simp: insert_rel_def\<close>)
  moreover have "length (me_heap (cache_put pick g v a e m)) = Suc (length (me_heap m))"
    by (simp add: cache_put_def Let_def alloc_def len)
  ultimately show "mem_ok good A (cache_put pick g v a e m)"
    using confined_put [OF ok(2,3) assms(3)] ok(4,5) evict_facts(1) [of pick m]
    by (fastforce simp: mem_ok_def owned_put [OF assms(3) ok(2)] len less_SucI)
qed

section \<open>Properties\<close>

text \<open>C23: The cache of plaintext keys holds at most \<open>capacity\<close> entries, every entry in an array of its own; a hit
  returns a fresh copy of an entry that has not expired, so that a caller who zeroes what it was given never
  changes the cache.\<close>

theorem cache_hit_isolated:
  assumes "cache_ok m" and "0 < kc_capacity (me_keys m)" and "cache_get gymID version now m = (Some a, m')"
  shows "cache_ok m' \<and> int (length (kc_values (me_keys m'))) \<le> kc_capacity (me_keys m')
    \<and> (\<exists>bs expires. view m (cacheID gymID version) = Some (bs, expires) \<and> now < expires \<and> deref m' a = bs)
    \<and> a \<notin> owned m' \<and> view (clear_slice a m') = view m"
proof -
  note gv = cache_get_view [OF assms(1,3)]
  then obtain bs e where e: "view m (cacheID gymID version) = Some (bs, e)" "now < e" "a = length (me_heap m)"
    "deref m' a = bs" "view m' = view m"
    by (auto split: option.splits if_splits)
  have keys: "me_keys m' = me_keys m"
    using assms(3) by (auto simp: cache_get_def Let_def alloc_def split: option.splits if_splits)
  then have "a \<notin> owned m'"
    using owned_less [OF assms(1)] e(3) by (auto simp: owned_def)
  then show ?thesis
    using gv(1) e keys assms(1,2) view_clear [of a m'] by (simp add: cache_ok_def)
qed

text \<open>Putting a key never leaves the cache above its capacity, keeps every array of the cache private, makes the
  entry available until it expires, and changes no other entry except that it may remove one.\<close>

lemma cache_put_get:
  assumes "cache_ok m" and "0 < kc_capacity (me_keys m)" and "a \<notin> owned m"
    and put: "m1 = cache_put pick gymID version a expires m" and "now < expires"
  shows "cache_ok m1 \<and> int (length (kc_values (me_keys m1))) \<le> kc_capacity (me_keys m)
    \<and> (\<exists>b m2. cache_get gymID version now m1 = (Some b, m2) \<and> deref m2 b = deref m a)
    \<and> (\<forall>key. key \<noteq> cacheID gymID version \<longrightarrow> view m1 key = None \<or> view m1 key = view m key)"
proof -
  have ok: "cache_ok m1"
    unfolding put by (rule cache_ok_put [OF assms(1)])
  have cap: "kc_capacity (me_keys m1) = kc_capacity (me_keys m)"
    by (simp add: put cache_put_def Let_def alloc_def)
  have v: "view m1 = (view (evict pick m))(cacheID gymID version \<mapsto> (deref m a, expires))"
    unfolding put using view_put [OF assms(1)] deref_evict [OF assms(3)] by simp
  obtain r m2 where get: "cache_get gymID version now m1 = (r, m2)"
    by fastforce
  have "r = Some (length (me_heap m1)) \<and> deref m2 (length (me_heap m1)) = deref m a"
    using cache_get_view(2) [OF ok get] v assms(5) by simp
  moreover have "view m1 key = None \<or> view m1 key = view m key" if "key \<noteq> cacheID gymID version" for key
    using that v view_evict [OF assms(1), of pick key] by (cases "view (evict pick m) key") auto
  ultimately show ?thesis
    using ok cap get assms(2) by (auto simp: cache_ok_def)
qed

definition sample_memory :: memory where
  "sample_memory = \<lparr>me_heap = [[1, 2, 3]], me_keys = newKeyCache 2\<rparr>"

definition filled_memory :: memory where
  "filled_memory = cache_put 0 ''g'' 7 0 100 sample_memory"

lemma sample_memory_ok: "cache_ok sample_memory" "0 \<notin> owned sample_memory" "0 < kc_capacity (me_keys sample_memory)"
  by (simp_all add: sample_memory_def cache_ok_def newKeyCache_def owned_def)

lemma filled_memory_ok: "cache_ok filled_memory" "0 < kc_capacity (me_keys filled_memory)"
  using cache_ok_put [OF sample_memory_ok(1)] by (simp add: filled_memory_def, code_simp)

theorem cache_hit_isolated_witness:
  "\<exists>m'. cache_get ''g'' 7 50 filled_memory = (Some 2, m') \<and> deref m' 2 = [1, 2, 3] \<and> view (clear_slice 2 m') = view filled_memory"
proof -
  define m' where "m' = snd (cache_get ''g'' 7 50 filled_memory)"
  have run: "cache_get ''g'' 7 50 filled_memory = (Some 2, m')" and bytes: "deref m' 2 = [1, 2, 3]"
    unfolding m'_def by code_simp+
  show ?thesis
    using cache_hit_isolated [OF filled_memory_ok run] run bytes by blast
qed

end
