(* ===== verification/Kms.thy ===== *)
theory Kms
  imports GoStrings
begin

text \<open>
  \<open>internal/adapter/kms/kms.go\<close>: the protector of root keys.  The AWS client is a parameter, \<open>kms_api\<close>: one
  function per call of the \<open>client\<close> interface, with the number of the call as its first argument, because
  the service need not answer the same way twice.  A response that is nil is \<open>None\<close>.  What the code relies
  on is \<open>kms_law\<close>: a ciphertext made under a key decrypts, under that key, to the plaintext or fails.
\<close>

record KeyMetadata =
  km_Arn :: "string option"
  km_KeyState :: string
  km_KeyUsage :: string
  km_KeySpec :: string

record kms_api =
  aw_DescribeKey :: "nat \<Rightarrow> string \<Rightarrow> err + KeyMetadata option option"
  aw_Encrypt :: "nat \<Rightarrow> string \<Rightarrow> bytes \<Rightarrow> err + bytes option"
  aw_Decrypt :: "nat \<Rightarrow> string \<Rightarrow> bytes \<Rightarrow> err + bytes option"

record Protector =
  pr_keyReference :: string

section \<open>Operations\<close>

definition describeKey :: "kms_api \<Rightarrow> nat \<Rightarrow> string \<Rightarrow> err + string" where
  "describeKey api n keyID =
     (case aw_DescribeKey api n keyID of
        Inl e \<Rightarrow> Inl (Wrap ''describe KMS key'' e)
      | Inr None \<Rightarrow> Inl (Errorf ''KMS returned no key ARN'')
      | Inr (Some None) \<Rightarrow> Inl (Errorf ''KMS returned no key ARN'')
      | Inr (Some (Some metadata)) \<Rightarrow>
          (case km_Arn metadata of
             None \<Rightarrow> Inl (Errorf ''KMS returned no key ARN'')
           | Some arn \<Rightarrow>
               if arn = [] then Inl (Errorf ''KMS returned no key ARN'')
               else if km_KeyState metadata \<noteq> ''Enabled'' \<or> km_KeyUsage metadata \<noteq> ''ENCRYPT_DECRYPT''
                       \<or> km_KeySpec metadata \<noteq> ''SYMMETRIC_DEFAULT''
                    then Inl (Errorf ''KMS key must be enabled symmetric ENCRYPT_DECRYPT'')
               else Inr arn))"

definition newProtector :: "kms_api \<Rightarrow> nat \<Rightarrow> string \<Rightarrow> err + Protector" where
  "newProtector api n keyID =
     (case describeKey api n keyID of
        Inl e \<Rightarrow> Inl e
      | Inr keyReference \<Rightarrow> Inr \<lparr>pr_keyReference = keyReference\<rparr>)"

definition KeyReference :: "Protector \<Rightarrow> string" where
  "KeyReference p = pr_keyReference p"

definition Encrypt :: "kms_api \<Rightarrow> nat \<Rightarrow> Protector \<Rightarrow> bytes \<Rightarrow> err + string" where
  "Encrypt api n p plaintext =
     (case aw_Encrypt api n (pr_keyReference p) plaintext of
        Inl e \<Rightarrow> Inl (Wrap ''encrypt with KMS'' e)
      | Inr None \<Rightarrow> Inl (Errorf ''KMS returned no ciphertext'')
      | Inr (Some blob) \<Rightarrow>
          if blob = [] then Inl (Errorf ''KMS returned no ciphertext'') else Inr (Std_encode blob))"

definition Decrypt :: "kms_api \<Rightarrow> nat \<Rightarrow> Protector \<Rightarrow> string \<Rightarrow> string \<Rightarrow> err + bytes" where
  "Decrypt api n p keyReference ciphertext =
     (if keyReference \<noteq> pr_keyReference p then Inl (Errorf ''KMS key reference does not match configured key'')
      else case Std_decode ciphertext of
             None \<Rightarrow> Inl (Errorf ''decode KMS ciphertext'')
           | Some blob \<Rightarrow>
               (case aw_Decrypt api n keyReference blob of
                  Inl e \<Rightarrow> Inl (Wrap ''decrypt with KMS'' e)
                | Inr None \<Rightarrow> Inl (Errorf ''KMS returned no plaintext'')
                | Inr (Some plain) \<Rightarrow>
                    if plain = [] then Inl (Errorf ''KMS returned no plaintext'') else Inr plain))"

definition kms_Ping :: "kms_api \<Rightarrow> nat \<Rightarrow> Protector \<Rightarrow> err + unit" where
  "kms_Ping api n p = (case describeKey api n (pr_keyReference p) of Inl e \<Rightarrow> Inl e | Inr _ \<Rightarrow> Inr ())"

text \<open>What \<open>isLocalEndpoint\<close> reads of a parsed URL, and the value of \<open>url.ParseRequestURI\<close> as an argument.\<close>

record URL =
  ur_Scheme :: string
  ur_User :: "string option"
  ur_Hostname :: string
  ur_Path :: string
  ur_RawQuery :: string
  ur_Fragment :: string

definition isLocalEndpoint :: "err + URL \<Rightarrow> bool" where
  "isLocalEndpoint parsed =
     (case parsed of
        Inl _ \<Rightarrow> False
      | Inr u \<Rightarrow>
          if ToLower (ur_Scheme u) \<noteq> ''http'' \<or> ur_User u \<noteq> None \<or> ur_Path u \<noteq> [] \<or> ur_RawQuery u \<noteq> []
             \<or> ur_Fragment u \<noteq> [] then False
          else ToLower (ur_Hostname u) \<in> set [''localhost'', ''127.0.0.1'', ''::1'', ''localstack''])"

text \<open>\<open>New\<close>: the endpoint check comes before the SDK configuration is loaded and before the key is described.\<close>

definition kms_New ::
  "(string \<Rightarrow> err + URL) \<Rightarrow> err + unit \<Rightarrow> kms_api \<Rightarrow> nat \<Rightarrow> string \<Rightarrow> string \<Rightarrow> err + Protector" where
  "kms_New parse loaded api n keyID endpointURL =
     (if endpointURL \<noteq> [] \<and> \<not> isLocalEndpoint (parse endpointURL)
      then Inl (Errorf ''KMS_ENDPOINT_URL must target local LocalStack'')
      else case loaded of
             Inl e \<Rightarrow> Inl (Wrap ''load AWS configuration'' e)
           | Inr _ \<Rightarrow> newProtector api n keyID)"

section \<open>Properties\<close>

definition kms_law :: "kms_api \<Rightarrow> bool" where
  "kms_law api \<longleftrightarrow> (\<forall>n m ref plain blob r. aw_Encrypt api n ref plain = Inr (Some blob) \<longrightarrow>
     aw_Decrypt api m ref blob = Inr (Some r) \<longrightarrow> r = plain)"

lemma newProtector_Inr:
  "newProtector api n keyID = Inr p \<longleftrightarrow> (\<exists>metadata. aw_DescribeKey api n keyID = Inr (Some (Some metadata))
     \<and> km_Arn metadata = Some (pr_keyReference p) \<and> pr_keyReference p \<noteq> [] \<and> km_KeyState metadata = ''Enabled''
     \<and> km_KeyUsage metadata = ''ENCRYPT_DECRYPT'' \<and> km_KeySpec metadata = ''SYMMETRIC_DEFAULT'')"
  by (cases p) (auto simp: newProtector_def describeKey_def split: sum.splits option.splits)

lemma Encrypt_Inr:
  "Encrypt api n p plain = Inr s \<longleftrightarrow>
     (\<exists>blob. aw_Encrypt api n (pr_keyReference p) plain = Inr (Some blob) \<and> blob \<noteq> [] \<and> s = Std_encode blob)"
  by (auto simp: Encrypt_def split: sum.splits option.splits)

lemma Decrypt_Inr:
  "Decrypt api n p ref s = Inr plain \<longleftrightarrow> ref = pr_keyReference p \<and> plain \<noteq> []
     \<and> (\<exists>blob. Std_decode s = Some blob \<and> aw_Decrypt api n ref blob = Inr (Some plain))"
  by (auto simp: Decrypt_def split: sum.splits option.splits)

lemma Decrypt_Encrypt:
  assumes "kms_law api" and "Encrypt api n p plain = Inr s" and "Decrypt api m q ref s = Inr plain'"
    and "pr_keyReference q = pr_keyReference p"
  shows "plain' = plain"
  using assms std_b64.decode_encode by (fastforce simp: kms_law_def Encrypt_Inr Decrypt_Inr)


text \<open>An implementation of the parameter: the ciphertext is the plaintext with the key's name in front.\<close>

definition sample_kms :: kms_api where
  "sample_kms = \<lparr>aw_DescribeKey = \<lambda>_ _. Inr (Some (Some \<lparr>km_Arn = Some ''arn'', km_KeyState = ''Enabled'',
        km_KeyUsage = ''ENCRYPT_DECRYPT'', km_KeySpec = ''SYMMETRIC_DEFAULT''\<rparr>)),
     aw_Encrypt = \<lambda>_ ref plain. Inr (Some (bytes_of ref @ plain)),
     aw_Decrypt = \<lambda>_ ref blob. if take (length ref) blob = bytes_of ref then Inr (Some (drop (length ref) blob))
       else Inl (Foreign ''InvalidCiphertextException'')\<rparr>"

lemma sample_kms_law: "kms_law sample_kms"
  by (simp add: kms_law_def sample_kms_def)

definition sample_protector :: Protector where
  "sample_protector = \<lparr>pr_keyReference = ''arn''\<rparr>"


end
