(* ===== verification/Clients.thy ===== *)
theory Clients
  imports GoTime
begin

text \<open>
  \<open>internal/adapter/member/client.go\<close>, \<open>internal/adapter/plans/client.go\<close> and the records of
  \<open>internal/usecase/port/ports.go\<close>.  The two gRPC services are parameters: an answer is a status code or the
  response.  A \<open>grpc.ClientConn\<close> is seen through the states it reports, call after call; \<open>Ping\<close> waits in a
  loop that ends only when the connection is ready, is closed or the context ends, so it is a partial
  function whose value is \<open>None\<close> while it waits.
\<close>

section \<open>Interfaces\<close>

record Membership =
  mb_MemberID :: string
  mb_Valid :: bool
  mb_Status :: string

record Gym =
  gy_ID :: string
  gy_Status :: string

datatype code = NotFound | InvalidArgument | FailedPrecondition | Unauthenticated | PermissionDenied | OtherCode nat

datatype MembershipStatus = STATUS_ACTIVE | STATUS_PAUSED | STATUS_EXPIRED | STATUS_OTHER int

datatype GymLocationStatus = LOCATION_ACTIVE | LOCATION_OTHER int

record ValidateMembershipResponse =
  vm_MemberId :: string
  vm_Valid :: bool
  vm_Status :: MembershipStatus

record ValidateCheckInGymResponse =
  vg_GymId :: string
  vg_Status :: GymLocationStatus

type_synonym member_api = "nat \<Rightarrow> string \<Rightarrow> string \<Rightarrow> code + ValidateMembershipResponse"
type_synonym plans_api = "nat \<Rightarrow> string \<Rightarrow> code + ValidateCheckInGymResponse"

section \<open>The member client\<close>

fun membershipStatus :: "MembershipStatus \<Rightarrow> string" where
  "membershipStatus STATUS_ACTIVE = ''ACTIVE''"
| "membershipStatus STATUS_PAUSED = ''PAUSED''"
| "membershipStatus STATUS_EXPIRED = ''EXPIRED''"
| "membershipStatus (STATUS_OTHER _) = ''NONE''"

fun member_mapError :: "code \<Rightarrow> string \<Rightarrow> err" where
  "member_mapError NotFound dependency =
     Categorized CategoryNotFound (dependency @ ''_NOT_FOUND'') ''membership was not found''"
| "member_mapError InvalidArgument dependency =
     Categorized CategoryValidation (dependency @ ''_INVALID'') ''membership request is invalid''"
| "member_mapError Unauthenticated dependency =
     Categorized CategoryUnauthorized (dependency @ ''_UNAUTHENTICATED'') ''membership service rejected credentials''"
| "member_mapError PermissionDenied dependency =
     Categorized CategoryForbidden (dependency @ ''_FORBIDDEN'') ''membership service denied request''"
| "member_mapError _ dependency =
     Categorized CategoryUnavailable (dependency @ ''_UNAVAILABLE'') ''membership service is unavailable''"

definition ValidateMembership :: "member_api \<Rightarrow> nat \<Rightarrow> string \<Rightarrow> string \<Rightarrow> err + Membership" where
  "ValidateMembership api n userID gymID =
     (case api n userID gymID of
        Inl c \<Rightarrow> Inl (member_mapError c ''MEMBER'')
      | Inr response \<Rightarrow>
          Inr \<lparr>mb_MemberID = vm_MemberId response, mb_Valid = vm_Valid response,
               mb_Status = membershipStatus (vm_Status response)\<rparr>)"

section \<open>The plans client\<close>

fun gymStatus :: "GymLocationStatus \<Rightarrow> string" where
  "gymStatus LOCATION_ACTIVE = ''ACTIVE''"
| "gymStatus (LOCATION_OTHER _) = ''UNSPECIFIED''"

fun plans_mapError :: "code \<Rightarrow> err" where
  "plans_mapError NotFound = Categorized CategoryNotFound ''GYM_NOT_FOUND'' ''gym was not found''"
| "plans_mapError InvalidArgument = Categorized CategoryValidation ''GYM_INVALID'' ''gym request is invalid''"
| "plans_mapError FailedPrecondition = Categorized CategoryUnprocessable ''GYM_INACTIVE'' ''gym is not active''"
| "plans_mapError Unauthenticated =
     Categorized CategoryUnauthorized ''PLANS_UNAUTHENTICATED'' ''plans service rejected credentials''"
| "plans_mapError PermissionDenied = Categorized CategoryForbidden ''PLANS_FORBIDDEN'' ''plans service denied request''"
| "plans_mapError _ = Categorized CategoryUnavailable ''PLANS_UNAVAILABLE'' ''plans service is unavailable''"

definition ValidateCheckInGym :: "plans_api \<Rightarrow> nat \<Rightarrow> string \<Rightarrow> err + Gym" where
  "ValidateCheckInGym api n gymID =
     (case api n gymID of
        Inl c \<Rightarrow> Inl (plans_mapError c)
      | Inr response \<Rightarrow> Inr \<lparr>gy_ID = vg_GymId response, gy_Status = gymStatus (vg_Status response)\<rparr>)"

section \<open>Waiting for a connection\<close>

datatype conn_state = Idle | Connecting | Ready | TransientFailure | Shutdown

text \<open>\<open>states n\<close> is what the n-th \<open>GetState\<close> returns; \<open>changes n\<close> is whether the n-th \<open>WaitForStateChange\<close>
  saw a change, false when the context ended first.\<close>

partial_function (option) ping_loop ::
  "string \<Rightarrow> (nat \<Rightarrow> conn_state) \<Rightarrow> (nat \<Rightarrow> bool) \<Rightarrow> nat \<Rightarrow> (err + unit) option" where
  "ping_loop closed states changes n =
     (if states n = Ready then Some (Inr ())
      else if states n = Shutdown then Some (Inl (Errorf closed))
      else if \<not> changes n then Some (Inl ContextDone)
      else ping_loop closed states changes (Suc n))"

declare ping_loop.simps [code]

type_synonym connection = "(nat \<Rightarrow> conn_state) \<times> (nat \<Rightarrow> bool)"

definition member_Ping :: "(nat \<Rightarrow> conn_state) \<Rightarrow> (nat \<Rightarrow> bool) \<Rightarrow> (err + unit) option" where
  "member_Ping states changes = ping_loop ''member connection is closed'' states changes 0"

definition plans_Ping :: "(nat \<Rightarrow> conn_state) \<Rightarrow> (nat \<Rightarrow> bool) \<Rightarrow> (err + unit) option" where
  "plans_Ping states changes = ping_loop ''plans connection is closed'' states changes 0"

definition settled :: "(nat \<Rightarrow> conn_state) \<Rightarrow> (nat \<Rightarrow> bool) \<Rightarrow> nat \<Rightarrow> bool" where
  "settled states changes n \<longleftrightarrow> states n = Ready \<or> states n = Shutdown \<or> \<not> changes n"

lemma ping_loop_first:
  assumes "n \<le> m" and "settled states changes m" and "\<And>k. n \<le> k \<Longrightarrow> k < m \<Longrightarrow> \<not> settled states changes k"
  shows "ping_loop closed states changes n =
    Some (if states m = Ready then Inr () else if states m = Shutdown then Inl (Errorf closed) else Inl ContextDone)"
  using assms
proof (induction "m - n" arbitrary: n)
  case 0
  then show ?case
    by (subst ping_loop.simps) (auto simp: settled_def)
next
  case (Suc d)
  then have "n < m" "\<not> settled states changes n"
    by auto
  moreover from this Suc have "ping_loop closed states changes (Suc n) =
      Some (if states m = Ready then Inr () else if states m = Shutdown then Inl (Errorf closed) else Inl ContextDone)"
    by (intro Suc.hyps(1)) auto
  ultimately show ?case
    by (subst ping_loop.simps) (auto simp: settled_def)
qed

lemma ping_loop_settles:
  assumes "ping_loop closed states changes n = Some r"
  shows "\<exists>m \<ge> n. settled states changes m"
  using assms
  by (rule ping_loop.raw_induct [where P = "\<lambda>closed states changes n r. \<exists>m \<ge> n. settled states changes m", rotated])
    (auto simp: settled_def split: if_splits, meson Suc_leD)

lemma first_settled:
  assumes "settled states changes n"
  obtains m where "m \<le> n" "settled states changes m" "\<And>k. k < m \<Longrightarrow> \<not> settled states changes k"
  using that [of "LEAST k. settled states changes k"] assms by (blast intro: LeastI Least_le dest: not_less_Least)

text \<open>The readiness probe of a dependency returns if and only if its connection ever becomes ready, is closed, or
  the context ends while it waits; it succeeds exactly when readiness comes first.\<close>

lemma Ping_returns:
  "((\<exists>r. member_Ping states changes = Some r) \<longleftrightarrow> (\<exists>n. settled states changes n))
   \<and> (member_Ping states changes = Some (Inr ()) \<longleftrightarrow>
        (\<exists>n. states n = Ready \<and> filter (settled states changes) [0..<n] = []))
   \<and> map_option (map_sum (\<lambda>_. ()) id) (plans_Ping states changes) = map_option (map_sum (\<lambda>_. ()) id) (member_Ping states changes)"
proof (cases "\<exists>n. settled states changes n")
  case True
  then obtain m where m: "settled states changes m" "\<And>k. k < m \<Longrightarrow> \<not> settled states changes k"
    by (blast elim: first_settled)
  have run: "ping_loop closed states changes 0 =
    Some (if states m = Ready then Inr () else if states m = Shutdown then Inl (Errorf closed) else Inl ContextDone)" for closed
    using m by (intro ping_loop_first) auto
  have "states m = Ready" if "states n = Ready" "filter (settled states changes) [0..<n] = []" for n
  proof -
    have "settled states changes n" "\<not> m < n"
      using that m(1) by (auto simp: settled_def filter_empty_conv)
    with m(2) [of n] have "n = m"
      by (meson linorder_neqE_nat)
    with that show ?thesis by simp
  qed
  moreover have "filter (settled states changes) [0..<m] = []"
    using m(2) by (simp add: filter_empty_conv)
  ultimately show ?thesis
    using True by (auto simp: member_Ping_def plans_Ping_def run)
next
  case False
  then have none: "ping_loop closed states changes 0 = None" for closed
    using ping_loop_settles [of closed states changes 0] by (cases "ping_loop closed states changes 0") auto
  have "states n \<noteq> Ready" for n
    using False by (auto simp: settled_def)
  then show ?thesis
    using False by (simp add: member_Ping_def plans_Ping_def none)
qed

definition gets_ready :: "connection \<Rightarrow> bool" where
  "gets_ready = (\<lambda>(states, changes). \<exists>n. states n = Ready \<and> (\<forall>k < n. \<not> settled states changes k))"

lemma ping_ends:
  assumes "\<exists>n. \<not> snd c n"
  shows "\<exists>r. ping_loop closed (fst c) (snd c) 0 = Some r \<and> (r = Inr () \<longleftrightarrow> gets_ready c)"
proof -
  obtain m where m: "settled (fst c) (snd c) m" "\<And>k. k < m \<Longrightarrow> \<not> settled (fst c) (snd c) k"
    using assms first_settled [of "fst c" "snd c"] unfolding settled_def by metis
  have "m = n" if "fst c n = Ready" "\<And>k. k < n \<Longrightarrow> \<not> settled (fst c) (snd c) k" for n
    using m that by (metis linorder_neqE_nat settled_def)
  then have "gets_ready c \<longleftrightarrow> fst c m = Ready"
    using m by (auto simp: gets_ready_def split_def)
  then show ?thesis
    using m ping_loop_first [of 0 m "fst c" "snd c" closed] by auto
qed

section \<open>Transport credentials\<close>

text \<open>\<open>credentialsFor\<close> of each client: the certificate, the CA file and the pool of authorities are
  read through the standard library, whose answers are the fields of \<open>cert_files\<close>.\<close>

record cert_files =
  cf_LoadX509KeyPair :: "string \<Rightarrow> string \<Rightarrow> err + bytes"
  cf_ReadFile :: "string \<Rightarrow> err + bytes"
  cf_AppendCertsFromPEM :: "bytes \<Rightarrow> bool"

record MTLSClient =
  mc_Address :: string
  mc_CertFile :: string
  mc_KeyFile :: string
  mc_CAFile :: string
  mc_ServerName :: string
  mc_Deadline :: time

datatype tls_version = VersionTLS10 | VersionTLS11 | VersionTLS12 | VersionTLS13

record tls_config =
  tc_Certificate :: bytes
  tc_RootCAs :: bytes
  tc_ServerName :: string
  tc_MinVersion :: tls_version

definition member_credentialsFor :: "cert_files \<Rightarrow> MTLSClient \<Rightarrow> err + tls_config" where
  "member_credentialsFor fs cfg =
     (case cf_LoadX509KeyPair fs (mc_CertFile cfg) (mc_KeyFile cfg) of
        Inl e \<Rightarrow> Inl e
      | Inr cert \<Rightarrow>
          (case cf_ReadFile fs (mc_CAFile cfg) of
             Inl e \<Rightarrow> Inl e
           | Inr pem \<Rightarrow>
               if \<not> cf_AppendCertsFromPEM fs pem then Inl (Errorf ''invalid server CA'')
               else Inr \<lparr>tc_Certificate = cert, tc_RootCAs = pem, tc_ServerName = mc_ServerName cfg,
                         tc_MinVersion = VersionTLS12\<rparr>))"

definition plans_credentialsFor :: "cert_files \<Rightarrow> MTLSClient \<Rightarrow> err + tls_config" where
  "plans_credentialsFor fs cfg =
     (case cf_LoadX509KeyPair fs (mc_CertFile cfg) (mc_KeyFile cfg) of
        Inl e \<Rightarrow> Inl e
      | Inr cert \<Rightarrow>
          (case cf_ReadFile fs (mc_CAFile cfg) of
             Inl e \<Rightarrow> Inl e
           | Inr pem \<Rightarrow>
               if \<not> cf_AppendCertsFromPEM fs pem then Inl (Errorf ''invalid server CA'')
               else Inr \<lparr>tc_Certificate = cert, tc_RootCAs = pem, tc_ServerName = mc_ServerName cfg,
                         tc_MinVersion = VersionTLS12\<rparr>))"

text \<open>\<open>New\<close> of each client: the connection is made by \<open>grpc.NewClient\<close>, the parameter \<open>dial\<close>; the deadline is what the
  calls are limited to.\<close>

definition member_New :: "cert_files \<Rightarrow> (string \<Rightarrow> tls_config \<Rightarrow> err + unit) \<Rightarrow> MTLSClient \<Rightarrow> err + duration" where
  "member_New fs dial cfg =
     (case member_credentialsFor fs cfg of
        Inl e \<Rightarrow> Inl e
      | Inr creds \<Rightarrow> (case dial (mc_Address cfg) creds of Inl e \<Rightarrow> Inl e | Inr _ \<Rightarrow> Inr (mc_Deadline cfg)))"

definition plans_New :: "cert_files \<Rightarrow> (string \<Rightarrow> tls_config \<Rightarrow> err + unit) \<Rightarrow> MTLSClient \<Rightarrow> err + duration" where
  "plans_New fs dial cfg =
     (case plans_credentialsFor fs cfg of
        Inl e \<Rightarrow> Inl e
      | Inr creds \<Rightarrow> (case dial (mc_Address cfg) creds of Inl e \<Rightarrow> Inl e | Inr _ \<Rightarrow> Inr (mc_Deadline cfg)))"

text \<open>The two packages agree: what one accepts, the other does.\<close>

lemma clients_agree: "plans_credentialsFor = member_credentialsFor" "plans_New = member_New"
  by (simp_all add: fun_eq_iff plans_credentialsFor_def member_credentialsFor_def plans_New_def member_New_def)

lemma member_New_ok:
  "member_New fs dial cfg = Inr d \<longleftrightarrow> d = mc_Deadline cfg \<and> (\<exists>cert pem. cf_LoadX509KeyPair fs (mc_CertFile cfg) (mc_KeyFile cfg) = Inr cert
     \<and> cf_ReadFile fs (mc_CAFile cfg) = Inr pem \<and> cf_AppendCertsFromPEM fs pem
     \<and> dial (mc_Address cfg) \<lparr>tc_Certificate = cert, tc_RootCAs = pem, tc_ServerName = mc_ServerName cfg,
          tc_MinVersion = VersionTLS12\<rparr> = Inr ())"
  by (auto simp: member_New_def member_credentialsFor_def split: sum.splits if_splits)

end
