(* ===== verification/QR.thy ===== *)
theory QR
  imports Domain Sha256
begin

text \<open>
  \<open>internal/domain/qr.go\<close>: the signed QR payload, its printer \<open>SignQR\<close>, its parser \<open>ParseSignedQR\<close> and
  the check \<open>VerifyQR\<close>.  \<open>github.com/google/uuid\<close> is a parameter, the record \<open>uuid_lib\<close>; what is
  used of it is named \<open>uuid_text\<close>: the text of a parsed UUID has hexadecimal digits and dashes only.
  Instants are within the range of \<open>int64\<close> seconds, as every \<open>time.Time\<close> the program makes is, so
  \<open>Unix\<close> and the slot computed from it do not wrap; \<open>SlotStart\<close> multiplies and keeps its wrap-around.
\<close>

record uuid_lib =
  uuid_Parse :: "string \<Rightarrow> bytes option"
  uuid_String :: "bytes \<Rightarrow> string"

definition uuid_chars :: "char set" where
  "uuid_chars = set ''0123456789abcdef-''"

definition uuid_text :: "uuid_lib \<Rightarrow> bool" where
  "uuid_text U \<longleftrightarrow> (\<forall>v u. uuid_Parse U v = Some u \<longrightarrow> set (uuid_String U u) \<subseteq> uuid_chars)"

definition QRSlotDuration :: duration where
  "QRSlotDuration = Minute"

record SignedQR =
  qr_GymID :: string
  qr_KeyVersion :: u64
  qr_Slot :: int
  qr_MAC :: bytes

definition CanonicalGymID :: "uuid_lib \<Rightarrow> string \<Rightarrow> err + string" where
  "CanonicalGymID U value =
     (case uuid_Parse U value of
        None \<Rightarrow> Inl (Errorf ''invalid gym id'')
      | Some parsed \<Rightarrow>
          if uuid_String U parsed \<noteq> value then Inl (Errorf ''invalid gym id'') else Inr value)"

definition parsePositiveUint :: "string \<Rightarrow> err + u64" where
  "parsePositiveUint value =
     (if value = [] \<or> (length value > 1 \<and> hd value = CHR ''0'') then Inl (Errorf ''invalid integer'')
      else case ParseUint value of
        None \<Rightarrow> Inl (Errorf ''invalid integer'')
      | Some parsed \<Rightarrow> if parsed = 0 then Inl (Errorf ''invalid integer'') else Inr parsed)"

definition parsePositiveInt :: "string \<Rightarrow> err + int" where
  "parsePositiveInt value =
     (if value = [] \<or> (length value > 1 \<and> hd value = CHR ''0'') then Inl (Errorf ''invalid integer'')
      else case ParseInt value of
        None \<Rightarrow> Inl (Errorf ''invalid integer'')
      | Some parsed \<Rightarrow> if parsed \<le> 0 then Inl (Errorf ''invalid integer'') else Inr parsed)"

definition ParseSignedQR :: "uuid_lib \<Rightarrow> string \<Rightarrow> err + SignedQR" where
  "ParseSignedQR U value =
     (case Split (CHR ''.'') value of
        [version, gym, kv, sl, sig] \<Rightarrow>
          if version \<noteq> ''v1'' then Inl (Errorf ''invalid QR payload'')
          else (case CanonicalGymID U gym of
            Inl e \<Rightarrow> Inl e
          | Inr gymID \<Rightarrow>
            (case parsePositiveUint kv of
              Inl _ \<Rightarrow> Inl (Errorf ''invalid key version'')
            | Inr keyVersion \<Rightarrow>
              (case parsePositiveInt sl of
                Inl _ \<Rightarrow> Inl (Errorf ''invalid QR slot'')
              | Inr slot \<Rightarrow>
                (case RawURL_decode sig of
                  None \<Rightarrow> Inl (Errorf ''invalid QR signature'')
                | Some mac \<Rightarrow>
                    if length mac \<noteq> 32 \<or> RawURL_encode mac \<noteq> sig
                    then Inl (Errorf ''invalid QR signature'')
                    else Inr \<lparr>qr_GymID = gymID, qr_KeyVersion = keyVersion, qr_Slot = slot, qr_MAC = mac\<rparr>))))
      | _ \<Rightarrow> Inl (Errorf ''invalid QR payload''))"

definition qrMessage :: "string \<Rightarrow> u64 \<Rightarrow> int \<Rightarrow> string" where
  "qrMessage gymID keyVersion slot =
     ''checkin-qr:v1|'' @ gymID @ ''|'' @ FormatUint keyVersion @ ''|'' @ FormatInt slot"

definition slot_at :: "time \<Rightarrow> int" where
  "slot_at t = gdiv (Unix t) (gdiv QRSlotDuration Second)"

definition SignQR :: "uuid_lib \<Rightarrow> string \<Rightarrow> u64 \<Rightarrow> time \<Rightarrow> bytes \<Rightarrow> err + string" where
  "SignQR U gymID keyVersion at key =
     (case CanonicalGymID U gymID of
        Inl e \<Rightarrow> Inl e
      | Inr gymID \<Rightarrow>
          if keyVersion = 0 \<or> length key = 0 then Inl (Errorf ''invalid signing key'')
          else let slot = slot_at at
            in if slot \<le> 0 then Inl (Errorf ''invalid QR slot'')
               else let mac = hmac_sha256 key (bytes_of (qrMessage gymID keyVersion slot))
                 in Inr (''v1.'' @ gymID @ ''.'' @ FormatUint keyVersion @ ''.'' @ FormatInt slot
                         @ ''.'' @ RawURL_encode mac))"

definition VerifyQR :: "SignedQR \<Rightarrow> bytes \<Rightarrow> time \<Rightarrow> bool" where
  "VerifyQR parsed key now =
     (let current = slot_at now
      in if qr_Slot parsed \<noteq> current \<and> qr_Slot parsed \<noteq> current - 1 then False
         else qr_MAC parsed =
           hmac_sha256 key (bytes_of (qrMessage (qr_GymID parsed) (qr_KeyVersion parsed) (qr_Slot parsed))))"

definition SlotStart :: "int \<Rightarrow> time" where
  "SlotStart slot = of_Unix (int64 (slot * gdiv QRSlotDuration Second))"

section \<open>Fields\<close>

lemma slot_seconds [simp]: "gdiv QRSlotDuration Second = 60"
  by (simp add: QRSlotDuration_def durations gdiv_def)

lemma CanonicalGymID_Inr: "CanonicalGymID U v = Inr g \<longleftrightarrow> g = v \<and> (\<exists>u. uuid_Parse U v = Some u \<and> uuid_String U u = v)"
  by (auto simp: CanonicalGymID_def split: option.splits if_splits)

lemma canonical_same: "CanonicalGymID U v = Inr g \<Longrightarrow> g = v"
  by (simp add: CanonicalGymID_Inr)

lemma canonical_no_dot:
  assumes "uuid_text U" and "CanonicalGymID U v = Inr g"
  shows "CHR ''.'' \<notin> set g"
proof -
  have "set g \<subseteq> uuid_chars"
    using assms by (auto simp: uuid_text_def CanonicalGymID_Inr)
  moreover have "CHR ''.'' \<notin> uuid_chars"
    by (simp add: uuid_chars_def)
  ultimately show ?thesis
    by blast
qed

lemma dots_outside [simp]:
  "CHR ''.'' \<notin> digits" "CHR ''.'' \<notin> set b64_url" "CHR ''|'' \<notin> digits" "CHR '':'' \<notin> digits"
  by (simp_all add: digits_def digit_val_def b64_url_def)

lemma digit_zero: "digit_val (CHR ''0'') = Some 0"
  by (simp add: digit_val_def)

lemma digit_char_zero: "digit_char 0 = CHR ''0''"
  by code_simp

lemma nat_dec_no_zero: "0 < n \<Longrightarrow> hd (nat_dec n) \<noteq> CHR ''0''"
  using nat_dec_hd [of n] by (auto simp: digit_zero)

lemma parsePositiveUint_Format: "v \<noteq> 0 \<Longrightarrow> parsePositiveUint (FormatUint v) = Inr v"
  using uint_dec.decode_encode [of v]
  by (simp add: parsePositiveUint_def) (simp add: FormatUint_def nat_dec_no_zero unat_gt_0)

lemma parsePositiveInt_Format: "0 < i \<Longrightarrow> i < 2 ^ 63 \<Longrightarrow> parsePositiveInt (FormatInt i) = Inr i"
  using int_dec.decode_encode [of i]
  by (simp add: parsePositiveInt_def) (simp add: FormatInt_def nat_dec_no_zero)

text \<open>A decimal text without a leading zero is the printed form of its value.\<close>

lemma parse_digits_canonical:
  assumes "parse_digits 0 s = Some n" and "s \<noteq> []" and "hd s \<noteq> CHR ''0''"
  shows "s = nat_dec n \<and> 0 < n"
  using assms
proof (induction s arbitrary: n rule: rev_induct)
  case (snoc c s)
  then obtain m d where m: "parse_digits 0 s = Some m" and d: "digit_val c = Some d"
    and n: "n = m * 10 + d"
    by (auto simp: parse_digits_append bind_eq_Some_conv split: option.splits if_splits)
  have c: "digit_char d = c" and "d < 10"
    using digit_val_bound [OF d] by simp_all
  show ?case
  proof (cases "s = []")
    case True
    with m have "m = 0" by simp
    moreover have "d \<noteq> 0"
      using snoc.prems(3) c True digit_char_zero by (metis append_Nil list.sel(1))
    ultimately show ?thesis
      using True n c \<open>d < 10\<close> by (subst nat_dec.simps) simp
  next
    case False
    with snoc.IH [OF m] snoc.prems(3) have "s = nat_dec m" and "0 < m"
      by auto
    with n c \<open>d < 10\<close> show ?thesis
      by (subst nat_dec.simps) simp
  qed
qed simp

lemma parse_digits_less: "parse_digits m s = Some n \<Longrightarrow> m < 2 ^ 64 \<Longrightarrow> n < 2 ^ 64"
  by (induction s arbitrary: m) (auto split: option.splits if_splits)

lemma single_zero: "value \<noteq> [] \<Longrightarrow> \<not> length value > 1 \<Longrightarrow> hd value = CHR ''0'' \<Longrightarrow> value = ''0''"
  by (cases "value") auto

lemma parsePositiveUint_Inr:
  assumes "parsePositiveUint s = Inr v"
  shows "s = FormatUint v \<and> v \<noteq> 0"
proof -
  from assms obtain n where ne: "s \<noteq> []" and n: "parse_digits 0 s = Some n" and v: "v = of_nat n" "v \<noteq> 0"
    and lead: "\<not> (length s > 1 \<and> hd s = CHR ''0'')"
    by (auto simp: parsePositiveUint_def ParseUint_def split: if_splits option.splits)
  have "hd s \<noteq> CHR ''0''"
  proof
    assume "hd s = CHR ''0''"
    with ne lead have "s = ''0''"
      using single_zero by blast
    with n v show False
      by (simp add: digit_zero)
  qed
  with n ne have "s = nat_dec n"
    using parse_digits_canonical by blast
  moreover have "n < 2 ^ 64"
    using parse_digits_less [OF n] by simp
  ultimately show ?thesis
    using v by (simp add: FormatUint_def unat_of_nat take_bit_nat_eq_self)
qed

lemma parsePositiveInt_Inr:
  assumes "parsePositiveInt s = Inr i"
  shows "0 < i \<and> i < 2 ^ 63 \<and> ParseInt s = Some i"
  using assms
  by (auto simp: parsePositiveInt_def ParseInt_def Let_def split: if_splits option.splits list.splits)

lemma parsePositiveInt_digits:
  assumes "parsePositiveInt s = Inr i" and plus: "CHR ''+'' \<notin> set s"
  shows "s = FormatInt i"
proof -
  have ne: "s \<noteq> []" and lead: "\<not> (length s > 1 \<and> hd s = CHR ''0'')"
    using assms(1) by (auto simp: parsePositiveInt_def split: if_splits)
  have i: "0 < i" "ParseInt s = Some i"
    using parsePositiveInt_Inr [OF assms(1)] by simp_all
  obtain c cs where s: "s = c # cs"
    using ne by (cases s) auto
  have "c \<noteq> CHR ''-''"
    using i s by (auto simp: ParseInt_def Let_def split: option.splits if_splits)
  with plus s obtain n where n: "parse_digits 0 s = Some n" and i_n: "i = int n"
    using i by (auto simp: ParseInt_def Let_def simp del: parse_digits.simps split: option.splits if_splits)
  have "hd s \<noteq> CHR ''0''"
  proof
    assume "hd s = CHR ''0''"
    with ne lead have "s = ''0''"
      using single_zero by blast
    with n i_n i(1) show False
      by (simp add: digit_zero)
  qed
  with n ne have "s = nat_dec n"
    using parse_digits_canonical by blast
  with i_n show ?thesis
    by (simp add: FormatInt_def)
qed

section \<open>Printing and parsing\<close>

definition print_QR :: "SignedQR \<Rightarrow> string" where
  "print_QR q = ''v1.'' @ qr_GymID q @ ''.'' @ FormatUint (qr_KeyVersion q) @ ''.'' @ FormatInt (qr_Slot q)
     @ ''.'' @ RawURL_encode (qr_MAC q)"

definition wf_QR :: "uuid_lib \<Rightarrow> SignedQR \<Rightarrow> bool" where
  "wf_QR U q \<longleftrightarrow> CanonicalGymID U (qr_GymID q) = Inr (qr_GymID q) \<and> qr_KeyVersion q \<noteq> 0
     \<and> 0 < qr_Slot q \<and> qr_Slot q < 2 ^ 63 \<and> length (qr_MAC q) = 32"

lemma Split5:
  assumes "CHR ''.'' \<notin> set a" "CHR ''.'' \<notin> set b" "CHR ''.'' \<notin> set c" "CHR ''.'' \<notin> set d" "CHR ''.'' \<notin> set e"
  shows "Split (CHR ''.'') (a @ ''.'' @ b @ ''.'' @ c @ ''.'' @ d @ ''.'' @ e) = [a, b, c, d, e]"
  using assms by (simp add: Split_field Split_none)

lemma parse_print:
  assumes "uuid_text U" and wf: "wf_QR U q"
  shows "ParseSignedQR U (print_QR q) = Inr q"
proof -
  have dots: "CHR ''.'' \<notin> set (qr_GymID q)" "CHR ''.'' \<notin> set (FormatUint (qr_KeyVersion q))"
    "CHR ''.'' \<notin> set (FormatInt (qr_Slot q))" "CHR ''.'' \<notin> set (RawURL_encode (qr_MAC q))"
    using assms canonical_no_dot uint_dec.encode_free [where c = "CHR ''.''"]
      int_dec.encode_free [where x = "qr_Slot q" and c = "CHR ''.''"]
      raw_url.encode_free [where c = "CHR ''.''"]
    by (auto simp: wf_QR_def)
  have "Split (CHR ''.'') (print_QR q) = [''v1'', qr_GymID q, FormatUint (qr_KeyVersion q),
      FormatInt (qr_Slot q), RawURL_encode (qr_MAC q)]"
    using Split5 [of "''v1''", OF _ dots] by (simp add: print_QR_def)
  then show ?thesis
    using wf by (simp add: ParseSignedQR_def wf_QR_def parsePositiveUint_Format parsePositiveInt_Format
        raw_url.decode_encode)
qed

lemma ParseSignedQR_Inr:
  assumes "ParseSignedQR U s = Inr q"
  obtains sl where
    "s = ''v1.'' @ qr_GymID q @ ''.'' @ FormatUint (qr_KeyVersion q) @ ''.'' @ sl @ ''.'' @ RawURL_encode (qr_MAC q)"
    and "parsePositiveInt sl = Inr (qr_Slot q)" and "wf_QR U q"
proof -
  from assms obtain gym kv sl sig where split: "Split (CHR ''.'') s = [''v1'', gym, kv, sl, sig]"
    and gym: "CanonicalGymID U gym = Inr (qr_GymID q)"
    and kv: "parsePositiveUint kv = Inr (qr_KeyVersion q)"
    and sl: "parsePositiveInt sl = Inr (qr_Slot q)"
    and mac: "length (qr_MAC q) = 32" "RawURL_encode (qr_MAC q) = sig"
    by (auto simp: ParseSignedQR_def split: list.splits if_splits sum.splits option.splits)
  have "s = Join (CHR ''.'') [''v1'', gym, kv, sl, sig]"
    using Join_Split [of "CHR ''.''" s] split by simp
  moreover have "gym = qr_GymID q" "kv = FormatUint (qr_KeyVersion q)" "qr_KeyVersion q \<noteq> 0"
    using gym kv parsePositiveUint_Inr by (auto simp: CanonicalGymID_Inr)
  ultimately show thesis
    using that [of sl] sl mac gym parsePositiveInt_Inr [OF sl] by (simp add: wf_QR_def)
qed

lemma SignQR_Inr:
  "SignQR U g v at key = Inr s \<longleftrightarrow>
     CanonicalGymID U g = Inr g \<and> v \<noteq> 0 \<and> key \<noteq> [] \<and> 0 < slot_at at \<and>
     s = print_QR \<lparr>qr_GymID = g, qr_KeyVersion = v, qr_Slot = slot_at at,
       qr_MAC = hmac_sha256 key (bytes_of (qrMessage g v (slot_at at)))\<rparr>"
  by (cases "CanonicalGymID U g") (auto simp: SignQR_def print_QR_def Let_def dest: canonical_same)

section \<open>Slots and instants\<close>

lemma slot_at_pos: "0 < slot_at t \<longleftrightarrow> 60 * Second \<le> t"
proof -
  have "0 < slot_at t \<longleftrightarrow> 60 \<le> Unix t"
    by (simp add: slot_at_def gdiv_pos_iff)
  also have "\<dots> \<longleftrightarrow> 60 * Second \<le> t"
    unfolding Unix_def Second_def by linarith
  finally show ?thesis .
qed

lemma slot_at_nonneg: "0 \<le> t \<Longrightarrow> slot_at t = t div QRSlotDuration"
proof -
  assume "0 \<le> t"
  then have "0 \<le> Unix t"
    by (simp add: Unix_def Second_def pos_imp_zdiv_nonneg_iff)
  then have "slot_at t = t div Second div 60"
    by (simp add: slot_at_def gdiv_nonneg) (simp add: Unix_def)
  then show ?thesis
    by (simp add: QRSlotDuration_def durations zdiv_zmult2_eq [symmetric])
qed

lemma slot_at_iff:
  assumes "0 < s"
  shows "slot_at t = s \<longleftrightarrow> s * QRSlotDuration \<le> t \<and> t < s * QRSlotDuration + QRSlotDuration"
proof (cases "0 \<le> t")
  case True
  then show ?thesis
    by (simp add: slot_at_nonneg QRSlotDuration_def durations) linarith
next
  case False
  then have "\<not> 0 < slot_at t"
    by (simp add: slot_at_pos Second_def)
  with False assms show ?thesis
    by (simp add: QRSlotDuration_def durations)
qed

lemma SlotStart_slot:
  assumes "0 \<le> s" and "s * 60 < 2 ^ 63"
  shows "SlotStart s = s * QRSlotDuration"
proof -
  have "SlotStart s = of_Unix (s * 60)"
    using assms by (simp add: SlotStart_def int64_id)
  then show ?thesis
    by (simp add: of_Unix_def QRSlotDuration_def durations)
qed

lemma slot_bound:
  assumes "0 < slot_at t" and "Unix t < 2 ^ 63"
  shows "slot_at t < 2 ^ 63" and "slot_at t * 60 < 2 ^ 63"
proof -
  have "60 * Second \<le> t"
    using assms(1) by (simp add: slot_at_pos)
  then have "0 \<le> Unix t"
    by (simp add: Unix_def Second_def pos_imp_zdiv_nonneg_iff)
  then have "slot_at t * 60 \<le> Unix t"
    by (simp add: slot_at_def gdiv_nonneg)
  with assms show "slot_at t * 60 < 2 ^ 63" and "slot_at t < 2 ^ 63"
    by linarith+
qed

lemma signed_wf:
  assumes "SignQR U g v at key = Inr s" and "Unix at < 2 ^ 63"
  shows "wf_QR U \<lparr>qr_GymID = g, qr_KeyVersion = v, qr_Slot = slot_at at,
       qr_MAC = hmac_sha256 key (bytes_of (qrMessage g v (slot_at at)))\<rparr>"
  using assms slot_bound [of at] by (simp add: SignQR_Inr wf_QR_def)

text \<open>What is signed: how it parses and when it verifies.\<close>

definition signed :: "string \<Rightarrow> u64 \<Rightarrow> time \<Rightarrow> bytes \<Rightarrow> SignedQR" where
  "signed g v at key = \<lparr>qr_GymID = g, qr_KeyVersion = v, qr_Slot = slot_at at,
     qr_MAC = hmac_sha256 key (bytes_of (qrMessage g v (slot_at at)))\<rparr>"

lemma signed_parse:
  assumes "uuid_text U" and "SignQR U g v at key = Inr s" and "Unix at < 2 ^ 63"
  shows "ParseSignedQR U s = Inr (signed g v at key)"
  using parse_print [OF assms(1) signed_wf [OF assms(2,3)]] assms(2) by (simp add: SignQR_Inr signed_def)

lemma signed_verify:
  assumes "SignQR U g v at key = Inr s" and "Unix at < 2 ^ 63"
  shows "VerifyQR (signed g v at key) key now \<longleftrightarrow>
     SlotStart (slot_at at) \<le> now \<and> now < SlotStart (slot_at at) + 2 * QRSlotDuration"
proof -
  have pos: "0 < slot_at at"
    using assms(1) by (simp add: SignQR_Inr)
  have start: "SlotStart (slot_at at) = slot_at at * QRSlotDuration"
    using pos slot_bound [OF pos assms(2)] by (simp add: SlotStart_slot)
  have "VerifyQR (signed g v at key) key now \<longleftrightarrow> slot_at now = slot_at at \<or> slot_at now = slot_at at + 1"
    by (auto simp: VerifyQR_def signed_def Let_def)
  also have "\<dots> \<longleftrightarrow> SlotStart (slot_at at) \<le> now \<and> now < SlotStart (slot_at at) + 2 * QRSlotDuration"
    using pos unfolding start by (subst (1 2) slot_at_iff) (auto simp: QRSlotDuration_def durations)
  finally show ?thesis .
qed

section \<open>Properties\<close>

text \<open>C18: What \<open>SignQR\<close> prints, \<open>ParseSignedQR\<close> reads back: the gym, the key version and the slot that
  were signed, with the HMAC-SHA-256 of their message under the key.\<close>

theorem sign_parse_roundtrip:
  assumes "uuid_text U" and "SignQR U g v at key = Inr s" and "Unix at < 2 ^ 63"
  shows "ParseSignedQR U s = Inr \<lparr>qr_GymID = g, qr_KeyVersion = v, qr_Slot = slot_at at,
       qr_MAC = hmac_sha256 key (bytes_of (qrMessage g v (slot_at at)))\<rparr>"
  using signed_parse [OF assms] by (simp add: signed_def)

text \<open>C17: A payload signed at \<open>at\<close> verifies under the signing key exactly from the start of its slot
  until two slot durations later, at every instant.\<close>

theorem verify_window:
  assumes "uuid_text U" and "SignQR U g v at key = Inr s" and "Unix at < 2 ^ 63"
    and "ParseSignedQR U s = Inr q"
  shows "VerifyQR q key now \<longleftrightarrow>
     SlotStart (slot_at at) \<le> now \<and> now < SlotStart (slot_at at) + 2 * QRSlotDuration"
  using signed_parse [OF assms(1-3)] signed_verify [OF assms(2,3)] assms(4) by simp

text \<open>C35: Every payload \<open>ParseSignedQR\<close> accepts has a canonical gym id, a positive key version, a
  positive \<open>int64\<close> slot and a 32-byte MAC, and is, unless it contains a plus sign, exactly the printed
  form of the parsed value.\<close>

theorem parse_canonical:
  assumes "ParseSignedQR U s = Inr q"
  shows "wf_QR U q \<and> (CHR ''+'' \<notin> set s \<longrightarrow> s = print_QR q)"
proof -
  obtain sl where s: "s = ''v1.'' @ qr_GymID q @ ''.'' @ FormatUint (qr_KeyVersion q) @ ''.'' @ sl
      @ ''.'' @ RawURL_encode (qr_MAC q)"
    and sl: "parsePositiveInt sl = Inr (qr_Slot q)" and wf: "wf_QR U q"
    using ParseSignedQR_Inr [OF assms] by blast
  have "sl = FormatInt (qr_Slot q)" if "CHR ''+'' \<notin> set s"
    using that s by (intro parsePositiveInt_digits [OF sl]) auto
  with s wf show ?thesis
    by (auto simp: print_QR_def)
qed

text \<open>A sign lets zeros through: the check for a leading zero sees only the sign.\<close>

lemma parse_digits_zeros: "parse_digits 0 (replicate n (CHR ''0'') @ s) = parse_digits 0 s"
  by (induction n) (simp_all add: digit_zero)

lemma parsePositiveInt_plus:
  assumes "0 < i" and "i < 2 ^ 63"
  shows "parsePositiveInt (CHR ''+'' # replicate n (CHR ''0'') @ FormatInt i) = Inr i"
proof -
  have n: "nat i < 2 ^ 63"
    using assms by (simp add: nat_less_iff)
  with assms have "parse_digits 0 (FormatInt i) = Some (nat i)" "FormatInt i \<noteq> []"
    by (simp_all add: FormatInt_def parse_nat_dec)
  with assms n show ?thesis
    by (simp add: parsePositiveInt_def ParseInt_def parse_digits_zeros)
qed

lemma leading_zero_refused: "parsePositiveInt (CHR ''0'' # FormatInt i) = Inl (Errorf ''invalid integer'')"
  by (simp add: parsePositiveInt_def FormatInt_def)

lemma plus_version_refused: "parsePositiveUint (CHR ''+'' # s) = Inl (Errorf ''invalid integer'')"
  by (simp add: parsePositiveUint_def ParseUint_def digit_val_def)

text \<open>C39: The slot field is not canonical, although the other fields are. The printed form of a value is
  \<open>v1.<gym>.<version>.<slot>.<mac>\<close>; \<open>ParseSignedQR\<close> refuses it with a zero before the slot and with a plus sign
  before the version, but accepts it, as the same value, with a plus sign before the slot and with any number of zeros
  after that sign.\<close>

theorem parse_accepts_plus:
  assumes "uuid_text U" and wf: "wf_QR U q"
  shows "print_QR q = ''v1.'' @ qr_GymID q @ ''.'' @ FormatUint (qr_KeyVersion q) @ ''.'' @ FormatInt (qr_Slot q)
      @ ''.'' @ RawURL_encode (qr_MAC q)
    \<and> ParseSignedQR U (''v1.'' @ qr_GymID q @ ''.'' @ FormatUint (qr_KeyVersion q) @ ''.0'' @ FormatInt (qr_Slot q)
        @ ''.'' @ RawURL_encode (qr_MAC q)) = Inl (Errorf ''invalid QR slot'')
    \<and> ParseSignedQR U (''v1.'' @ qr_GymID q @ ''.+'' @ FormatUint (qr_KeyVersion q) @ ''.'' @ FormatInt (qr_Slot q)
        @ ''.'' @ RawURL_encode (qr_MAC q)) = Inl (Errorf ''invalid key version'')
    \<and> ParseSignedQR U (''v1.'' @ qr_GymID q @ ''.'' @ FormatUint (qr_KeyVersion q)
        @ ''.+'' @ replicate zeros (CHR ''0'') @ FormatInt (qr_Slot q) @ ''.'' @ RawURL_encode (qr_MAC q)) = Inr q"
    (is "?printed \<and> ?zero \<and> ?version \<and> ?plus")
proof (intro conjI)
  have i: "0 < qr_Slot q" "qr_Slot q < 2 ^ 63"
    using wf by (simp_all add: wf_QR_def)
  have v1: "CHR ''.'' \<notin> set ''v1''"
    by simp
  have gym: "CHR ''.'' \<notin> set (qr_GymID q)"
    using assms canonical_no_dot by (auto simp: wf_QR_def)
  have ver: "CHR ''.'' \<notin> set (FormatUint (qr_KeyVersion q))" and sl: "CHR ''.'' \<notin> set (FormatInt (qr_Slot q))"
    and mac: "CHR ''.'' \<notin> set (RawURL_encode (qr_MAC q))"
    using i uint_dec.encode_free [where c = "CHR ''.''"] int_dec.encode_free [where x = "qr_Slot q" and c = "CHR ''.''"]
      raw_url.encode_free [where c = "CHR ''.''"] by auto
  note parse = ParseSignedQR_def wf_QR_def parsePositiveUint_Format raw_url.decode_encode
  show ?printed
    by (simp add: print_QR_def)
  have "CHR ''.'' \<notin> set (CHR ''0'' # FormatInt (qr_Slot q))"
    using sl by simp
  from Split5 [OF v1 gym ver this mac] show ?zero
    using wf by (simp add: parse leading_zero_refused)
  have "CHR ''.'' \<notin> set (CHR ''+'' # FormatUint (qr_KeyVersion q))"
    using ver by simp
  from Split5 [OF v1 gym this sl mac] show ?version
    using wf by (simp add: parse plus_version_refused)
  have "CHR ''.'' \<notin> set (CHR ''+'' # replicate zeros (CHR ''0'') @ FormatInt (qr_Slot q))"
    using sl by simp
  from Split5 [OF v1 gym ver this mac] show ?plus
    using wf by (simp add: parse parsePositiveInt_plus)
qed

text \<open>C36: The signed message is unambiguous: two messages are equal only for the same gym, key version
  and slot.\<close>

theorem qrMessage_inject:
  assumes "0 \<le> i" "i < 2 ^ 63" "0 \<le> j" "j < 2 ^ 63"
  shows "qrMessage g v i = qrMessage h w j \<longleftrightarrow> g = h \<and> v = w \<and> i = j"
proof -
  have free: "CHR ''|'' \<notin> set (FormatInt k)" if "0 \<le> k" "k < 2 ^ 63" for k
    using that by (intro int_dec.encode_free) simp_all
  have vfree: "CHR ''|'' \<notin> set (FormatUint u)" for u
    by (rule uint_dec.encode_free) simp_all
  have "qrMessage g v i = qrMessage h w j \<longleftrightarrow>
      (g @ CHR ''|'' # FormatUint v) @ CHR ''|'' # FormatInt i = (h @ CHR ''|'' # FormatUint w) @ CHR ''|'' # FormatInt j"
    by (simp add: qrMessage_def)
  also have "\<dots> \<longleftrightarrow> g = h \<and> v = w \<and> i = j"
    using assms free vfree by (simp add: sep_append_inject uint_dec.encode_inject int_dec.encode_inject
        del: append_assoc append.append_Cons)
  finally show ?thesis .
qed

section \<open>Witnesses\<close>

text \<open>A concrete UUID library for the witnesses: the identity on 36 bytes of UUID text.\<close>

definition sample_uuid :: uuid_lib where
  "sample_uuid = \<lparr>
     uuid_Parse = (\<lambda>v. if length v = 36 \<and> list_all (\<lambda>c. c \<in> uuid_chars) v then Some (bytes_of v) else None),
     uuid_String = map (\<lambda>b. char_of (unat b))\<rparr>"

definition sample_gym :: string where
  "sample_gym = ''11111111-1111-1111-1111-111111111111''"

lemma char_of_byte: "char_of (unat (of_char c :: byte)) = c"
proof -
  have "(of_char c :: nat) < 2 ^ 8"
    by simp
  then have "unat (of_nat (of_char c) :: byte) = of_char c"
    by (simp add: unat_of_nat take_bit_nat_eq_self)
  then show ?thesis
    by (simp add: of_nat_of_char)
qed

lemma chars_of_bytes: "map (\<lambda>b. char_of (unat b)) (bytes_of s) = s"
  by (simp add: bytes_of_def o_def char_of_byte)

lemma sample_uuid_text: "uuid_text sample_uuid"
  unfolding uuid_text_def
proof (intro allI impI)
  fix v u
  assume "uuid_Parse sample_uuid v = Some u"
  then have "list_all (\<lambda>c. c \<in> uuid_chars) v" and "u = bytes_of v"
    by (simp_all add: sample_uuid_def split: if_splits)
  moreover have "uuid_String sample_uuid (bytes_of v) = v"
    by (simp add: sample_uuid_def chars_of_bytes)
  ultimately show "set (uuid_String sample_uuid u) \<subseteq> uuid_chars"
    by (simp add: list_all_iff subset_iff)
qed

lemma sample_gym_canonical: "CanonicalGymID sample_uuid sample_gym = Inr sample_gym"
proof -
  have "length sample_gym = 36" and "list_all (\<lambda>c. c \<in> uuid_chars) sample_gym"
    by (simp_all add: sample_gym_def uuid_chars_def)
  then show ?thesis
    by (simp add: CanonicalGymID_def sample_uuid_def chars_of_bytes)
qed

definition sample_payload :: "bytes \<Rightarrow> string" where
  "sample_payload key = print_QR \<lparr>qr_GymID = sample_gym, qr_KeyVersion = 1, qr_Slot = 2,
     qr_MAC = hmac_sha256 key (bytes_of (qrMessage sample_gym 1 2))\<rparr>"

lemma sample_slot: "slot_at (150 * Second) = 2" "Unix (150 * Second) = 150" "SlotStart 2 = 120 * Second"
proof -
  show u: "Unix (150 * Second) = 150"
    by (simp add: Unix_def Second_def)
  show "slot_at (150 * Second) = 2"
    by (simp add: slot_at_def u) (simp add: gdiv_def)
  show "SlotStart 2 = 120 * Second"
    by (simp add: SlotStart_slot QRSlotDuration_def durations)
qed

lemma sample_signed: "key \<noteq> [] \<Longrightarrow> SignQR sample_uuid sample_gym 1 (150 * Second) key = Inr (sample_payload key)"
  by (simp add: SignQR_Inr sample_gym_canonical sample_slot sample_payload_def)

theorem sign_parse_roundtrip_witness:
  "ParseSignedQR sample_uuid (sample_payload [7]) = Inr \<lparr>qr_GymID = sample_gym, qr_KeyVersion = 1,
     qr_Slot = 2, qr_MAC = hmac_sha256 [7] (bytes_of (qrMessage sample_gym 1 2))\<rparr>"
  using sign_parse_roundtrip [OF sample_uuid_text sample_signed [of "[7]"]] by (simp add: sample_slot)

theorem verify_window_witness:
  "\<exists>q. ParseSignedQR sample_uuid (sample_payload [7]) = Inr q \<and> VerifyQR q [7] (239 * Second)
     \<and> \<not> VerifyQR q [7] (240 * Second)"
proof -
  let ?q = "\<lparr>qr_GymID = sample_gym, qr_KeyVersion = 1, qr_Slot = 2,
     qr_MAC = hmac_sha256 [7] (bytes_of (qrMessage sample_gym 1 2))\<rparr>"
  have p: "ParseSignedQR sample_uuid (sample_payload [7]) = Inr ?q"
    using parse_print [OF sample_uuid_text signed_wf [OF sample_signed [of "[7]"]]]
    by (simp add: sample_slot sample_payload_def)
  have "VerifyQR ?q [7] now \<longleftrightarrow> 120 * Second \<le> now \<and> now < 240 * Second" for now
    using verify_window [OF sample_uuid_text sample_signed [of "[7]"] _ p, of now]
    unfolding sample_slot by (simp add: QRSlotDuration_def Minute_def)
  with p show ?thesis
    by (auto simp: Second_def)
qed

abbreviation zero_QR :: SignedQR where
  "zero_QR \<equiv> \<lparr>qr_GymID = sample_gym, qr_KeyVersion = 1, qr_Slot = 2, qr_MAC = replicate 32 0\<rparr>"

lemma zero_QR_wf: "wf_QR sample_uuid zero_QR"
  by (simp add: wf_QR_def sample_gym_canonical)

theorem parse_canonical_witness:
  "\<exists>q. ParseSignedQR sample_uuid (print_QR zero_QR) = Inr q \<and> wf_QR sample_uuid q \<and> print_QR zero_QR = print_QR q"
proof -
  have "CHR ''+'' \<notin> set (print_QR zero_QR)"
    by code_simp
  with parse_canonical [OF parse_print [OF sample_uuid_text zero_QR_wf]] parse_print [OF sample_uuid_text zero_QR_wf]
  show ?thesis
    by blast
qed

theorem parse_accepts_plus_witness:
  "wf_QR sample_uuid zero_QR
    \<and> ParseSignedQR sample_uuid (''v1.'' @ sample_gym @ ''.1.+2.'' @ RawURL_encode (replicate 32 0)) = Inr zero_QR
    \<and> ParseSignedQR sample_uuid (''v1.'' @ sample_gym @ ''.1.+002.'' @ RawURL_encode (replicate 32 0)) = Inr zero_QR
    \<and> ParseSignedQR sample_uuid (''v1.'' @ sample_gym @ ''.1.02.'' @ RawURL_encode (replicate 32 0))
      = Inl (Errorf ''invalid QR slot'')"
proof -
  have "FormatUint 1 = ''1''" "FormatInt 2 = ''2''"
    by code_simp+
  then show ?thesis
    using parse_accepts_plus [OF sample_uuid_text zero_QR_wf, of 0] parse_accepts_plus [OF sample_uuid_text zero_QR_wf, of 2]
      zero_QR_wf by (simp add: numeral_2_eq_2)
qed

theorem qrMessage_inject_witness:
  "qrMessage sample_gym 1 2 \<noteq> qrMessage sample_gym 1 3"
  using qrMessage_inject [of 2 3 sample_gym 1 sample_gym 1] by simp

end
