(* ===== verification/Service.thy ===== *)
theory Service
  imports Store KeyCache Kms Clients QR
begin

text \<open>
  \<open>internal/usecase/service.go\<close>: every method of \<open>Service\<close>.  The state of an instance is its connection
  (with the state all instances share), its heap and key cache, and a counter that numbers the questions
  it puts to its surroundings; the answers, the clock's readings, the identifiers, the random bytes, KMS
  and the two clients, come from the environment \<open>svc_env\<close> by that number.  \<open>deferE\<close> is a deferred call.

  The lemmas show, method by method, that the shared state only moves along the protocol, that the cache
  only ever holds what KMS made of a stored key, and that no plaintext stays behind in memory.
\<close>

section \<open>State and environment\<close>

record svc_env =
  se_sql :: sql_env
  se_uuid :: uuid_lib
  se_member :: member_api
  se_plans :: plans_api
  se_kms :: kms_api
  se_protector :: Protector
  se_clock :: "nat \<Rightarrow> time"
  se_ids :: "nat \<Rightarrow> string"
  se_rand :: "nat \<Rightarrow> err + (nat \<Rightarrow> byte)"
  se_pick :: "nat \<Rightarrow> nat"
  se_marshal :: "string \<Rightarrow> string \<Rightarrow> time \<Rightarrow> err + bytes"
  se_store_ping :: "nat \<Rightarrow> err + unit"
  se_member_conn :: "nat \<Rightarrow> connection"
  se_plans_conn :: "nat \<Rightarrow> connection"

record svc =
  sv_conn :: conn
  sv_mem :: memory
  sv_tick :: nat

text \<open>\<open>NewService\<close>: the cache starts empty, with room for 128 keys.\<close>

definition NewService :: "conn \<Rightarrow> svc" where
  "NewService store = \<lparr>sv_conn = store, sv_mem = \<lparr>me_heap = [], me_keys = newKeyCache 128\<rparr>, sv_tick = 0\<rparr>"

definition askE :: "(nat \<Rightarrow> 'a) \<Rightarrow> (svc, 'a) op" where
  "askE f s = (Inr (f (sv_tick s)), s\<lparr>sv_tick := Suc (sv_tick s)\<rparr>)"

text \<open>A question whose answer may be an error.\<close>

definition callE :: "(nat \<Rightarrow> err + 'a) \<Rightarrow> (svc, 'a) op" where
  "callE f = bindE (askE f) liftE"

definition storeE :: "(conn, 'a) op \<Rightarrow> (svc, 'a) op" where
  "storeE = zoomE sv_conn (\<lambda>c s. s\<lparr>sv_conn := c\<rparr>)"

definition memE :: "(memory \<Rightarrow> 'a \<times> memory) \<Rightarrow> (svc, 'a) op" where
  "memE f s = (case f (sv_mem s) of (x, m) \<Rightarrow> (Inr x, s\<lparr>sv_mem := m\<rparr>))"

definition updE :: "(memory \<Rightarrow> memory) \<Rightarrow> (svc, unit) op" where
  "updE f = memE (\<lambda>m. ((), f m))"

definition deferE :: "(memory \<Rightarrow> memory) \<Rightarrow> (svc, 'a) op \<Rightarrow> (svc, 'a) op" where
  "deferE f m s = (case m s of (r, t) \<Rightarrow> (r, t\<lparr>sv_mem := f (sv_mem t)\<rparr>))"

definition Now :: "svc_env \<Rightarrow> (svc, time) op" where
  "Now E = askE (se_clock E)"

section \<open>Keys\<close>

definition priorKeyOverlap :: duration where
  "priorKeyOverlap = 120 * Second"

definition newKey :: "svc_env \<Rightarrow> string \<Rightarrow> u64 \<Rightarrow> (svc, RootKey) op" where
  "newKey E gymID version =
     bindE (memE (alloc (replicate 32 0))) (\<lambda>plain.
     bindE (askE (se_rand E)) (\<lambda>read.
       case read of
         Inl e \<Rightarrow> throwE (Wrap ''generate QR key'' e)
       | Inr random \<Rightarrow>
           deferE (clear_slice plain)
             (bindE (updE (write_slice plain (map random [0..<32]))) (\<lambda>_.
              bindE (memE (\<lambda>m. (deref m plain, m))) (\<lambda>bytes.
              bindE (callE (\<lambda>n. Encrypt (se_kms E) n (se_protector E) bytes)) (\<lambda>ciphertext.
              bindE (Now E) (\<lambda>now.
                returnE \<lparr>rk_GymID = gymID, rk_Version = version, rk_Ciphertext = ciphertext,
                  rk_KeyReference = KeyReference (se_protector E), rk_Status = RootKeyCurrent, rk_ActivatedAt = now,
                  rk_AcceptanceDeadline = zero_time, rk_RetiredAt = None\<rparr>)))))))"

definition currentKey :: "svc_env \<Rightarrow> string \<Rightarrow> (svc, RootKey) op" where
  "currentKey E gymID =
     bindE (storeE (CurrentKey (se_sql E) gymID)) (\<lambda>key.
       case key of
         Some k \<Rightarrow> returnE k
       | None \<Rightarrow>
           bindE (newKey E gymID 1) (\<lambda>created.
             storeE (CreateCurrentKey (se_sql E) created)))"

definition kms_unavailable :: err where
  "kms_unavailable = Categorized CategoryUnavailable ''KMS_UNAVAILABLE'' ''key service is unavailable''"

text \<open>\<open>key\<close>: the part after a miss, and the whole.\<close>

definition decrypt_key :: "svc_env \<Rightarrow> RootKey \<Rightarrow> (svc, nat) op" where
  "decrypt_key E key =
     bindE (askE (\<lambda>n. Decrypt (se_kms E) n (se_protector E) (rk_KeyReference key) (rk_Ciphertext key))) (\<lambda>decrypted.
       case decrypted of
         Inl _ \<Rightarrow> throwE kms_unavailable
       | Inr bytes \<Rightarrow>
           bindE (memE (alloc bytes)) (\<lambda>plain.
           deferE (clear_slice plain)
             (if length bytes \<noteq> 32 then throwE kms_unavailable
              else bindE (if rk_Status key = RootKeyCurrent \<or> IsZero (rk_AcceptanceDeadline key)
                          then bindE (Now E) (\<lambda>t. returnE (t + 5 * Minute))
                          else returnE (rk_AcceptanceDeadline key)) (\<lambda>expires.
                   bindE (askE (se_pick E)) (\<lambda>pick.
                   bindE (updE (cache_put pick (rk_GymID key) (rk_Version key) plain expires)) (\<lambda>_.
                     memE (\<lambda>m. alloc (deref m plain) m)))))))"

definition key_of :: "svc_env \<Rightarrow> RootKey \<Rightarrow> (svc, nat) op" where
  "key_of E key =
     bindE (updE (if rk_Status key \<noteq> RootKeyCurrent then cache_delete (rk_GymID key) (rk_Version key) else id)) (\<lambda>_.
     bindE (Now E) (\<lambda>now.
     bindE (memE (cache_get (rk_GymID key) (rk_Version key) now)) (\<lambda>cached.
       case cached of
         Some a \<Rightarrow> returnE a
       | None \<Rightarrow> decrypt_key E key)))"

section \<open>Display and rotation\<close>

record DisplayPayload =
  dp_GymID :: string
  dp_Current :: string
  dp_CurrentActiveAt :: time
  dp_CurrentExpiresAt :: time
  dp_Next :: string
  dp_NextActiveAt :: time
  dp_NextExpiresAt :: time
  dp_SlotDurationSeconds :: int

record Rotation =
  ro_GymID :: string
  ro_KeyVersion :: u64
  ro_ActivatedAt :: time

definition Display :: "svc_env \<Rightarrow> string \<Rightarrow> (svc, DisplayPayload) op" where
  "Display E gymID =
     bindE (callE (\<lambda>n. ValidateCheckInGym (se_plans E) n gymID)) (\<lambda>gym.
     bindE (currentKey E (gy_ID gym)) (\<lambda>key.
     bindE (key_of E key) (\<lambda>plain.
     deferE (clear_slice plain)
       (bindE (Now E) (\<lambda>now.
        let slot = gdiv (Unix now) (gdiv QRSlotDuration Second);
            currentAt = SlotStart slot;
            nextAt = currentAt + QRSlotDuration
        in bindE (memE (\<lambda>m. (deref m plain, m))) (\<lambda>bytes.
           bindE (liftE (SignQR (se_uuid E) (gy_ID gym) (rk_Version key) currentAt bytes)) (\<lambda>current.
           bindE (liftE (SignQR (se_uuid E) (gy_ID gym) (rk_Version key) nextAt bytes)) (\<lambda>nxt.
             returnE \<lparr>dp_GymID = gy_ID gym, dp_Current = current, dp_CurrentActiveAt = currentAt,
               dp_CurrentExpiresAt = nextAt, dp_Next = nxt, dp_NextActiveAt = nextAt,
               dp_NextExpiresAt = nextAt + QRSlotDuration,
               dp_SlotDurationSeconds = int32 (gdiv QRSlotDuration Second)\<rparr>))))))))"

definition Rotate :: "svc_env \<Rightarrow> string \<Rightarrow> bool \<Rightarrow> (svc, Rotation) op" where
  "Rotate E gymID emergency =
     bindE (callE (\<lambda>n. ValidateCheckInGym (se_plans E) n gymID)) (\<lambda>gym.
     bindE (storeE (CurrentKey (se_sql E) (gy_ID gym))) (\<lambda>found.
       case found of
         None \<Rightarrow>
           bindE (currentKey E (gy_ID gym)) (\<lambda>key.
             returnE \<lparr>ro_GymID = rk_GymID key, ro_KeyVersion = rk_Version key, ro_ActivatedAt = rk_ActivatedAt key\<rparr>)
       | Some previous \<Rightarrow>
           bindE (newKey E (gy_ID gym) (rk_Version previous + 1)) (\<lambda>key.
           bindE (Now E) (\<lambda>now.
           let deadline = (if emergency then now else now + priorKeyOverlap)
           in bindE (storeE (RotateKey (se_sql E) key deadline emergency)) (\<lambda>created.
              bindE (updE (cache_delete (rk_GymID previous) (rk_Version previous))) (\<lambda>_.
                returnE \<lparr>ro_GymID = rk_GymID created, ro_KeyVersion = rk_Version created,
                  ro_ActivatedAt = rk_ActivatedAt created\<rparr>))))))"

section \<open>Scans\<close>

definition fingerprint :: "string \<Rightarrow> string \<Rightarrow> string" where
  "fingerprint gymID payload = hex_encode (sha256 (bytes_of (gymID @ [char_of (0::nat)] @ payload)))"

definition invalid_qr :: err where
  "invalid_qr = Categorized CategoryValidation ''INVALID_QR'' ''QR payload is invalid''"

definition membership_inactive :: err where
  "membership_inactive = Categorized CategoryUnprocessable ''MEMBERSHIP_INACTIVE'' ''membership is not active''"

text \<open>The part of \<open>Scan\<close> that checks the payload, up to the verdict of \<open>VerifyQR\<close>: once the key is found, and the whole.\<close>

definition scan_verify :: "svc_env \<Rightarrow> RootKey \<Rightarrow> SignedQR \<Rightarrow> (svc, SignedQR) op" where
  "scan_verify E key parsed =
     bindE (Now E) (\<lambda>now.
       if \<not> IsAcceptableAt key now then throwE invalid_qr
       else bindE (key_of E key) (\<lambda>plain.
            bindE (Now E) (\<lambda>now.
            bindE (memE (\<lambda>m. (deref m plain, m))) (\<lambda>bytes.
            bindE (updE (clear_slice plain)) (\<lambda>_.
              if \<not> VerifyQR parsed bytes now then throwE invalid_qr else returnE parsed)))))"

definition scan_check :: "svc_env \<Rightarrow> string \<Rightarrow> string \<Rightarrow> (svc, SignedQR) op" where
  "scan_check E gymID payload =
     (case ParseSignedQR (se_uuid E) payload of
        Inl _ \<Rightarrow> throwE invalid_qr
      | Inr parsed \<Rightarrow>
          if qr_GymID parsed \<noteq> gymID then throwE invalid_qr
          else tryE (storeE (FindKey (se_sql E) (qr_GymID parsed) (qr_KeyVersion parsed))) (\<lambda>found.
            case found of
              Inl _ \<Rightarrow> throwE invalid_qr
            | Inr None \<Rightarrow> throwE invalid_qr
            | Inr (Some key) \<Rightarrow> scan_verify E key parsed))"

text \<open>The part that records the check-in.\<close>

definition scan_record :: "svc_env \<Rightarrow> string \<Rightarrow> SignedQR \<Rightarrow> string \<Rightarrow> string \<Rightarrow> (svc, CheckInRecord) op" where
  "scan_record E userID parsed fp idempotencyKey =
     bindE (callE (\<lambda>n. ValidateMembership (se_member E) n userID (qr_GymID parsed))) (\<lambda>membership.
       if \<not> mb_Valid membership \<or> mb_Status membership \<noteq> ''ACTIVE'' then throwE membership_inactive
       else bindE (Now E) (\<lambda>now.
            bindE (askE (se_ids E)) (\<lambda>checkin_id.
            let record = \<lparr>ci_ID = checkin_id, ci_UserID = userID, ci_MemberID = mb_MemberID membership,
                  ci_GymID = qr_GymID parsed, ci_CheckedInAt = now\<rparr>
            in case se_marshal E (ci_MemberID record) (ci_GymID record) (ci_CheckedInAt record) of
                 Inl e \<Rightarrow> throwE (Wrap ''marshal check-in event'' e)
               | Inr event \<Rightarrow>
                   bindE (askE (se_ids E)) (\<lambda>event_id.
                     storeE (CreateCheckIn (se_sql E) record fp idempotencyKey
                       \<lparr>ev_ID = event_id, ev_Topic = checkInTopic, ev_Key = ci_MemberID record, ev_Payload = event,
                        ev_PreparedValue = None, ev_PreparedHeaders = None, ev_Attempts = 0, ev_CreatedAt = now\<rparr>)))))"

definition Scan :: "svc_env \<Rightarrow> string \<Rightarrow> string \<Rightarrow> string \<Rightarrow> string \<Rightarrow> (svc, CheckInRecord) op" where
  "Scan E userID gymID payload idempotencyKey =
     (let fp = fingerprint gymID payload
      in bindE (storeE (FindIdempotency (se_sql E) userID idempotencyKey)) (\<lambda>existing.
           case existing of
             Some found \<Rightarrow>
               if id_Fingerprint found \<noteq> fp then throwE idempotency_conflict else returnE (id_Record found)
           | None \<Rightarrow>
               bindE (scan_check E gymID payload) (\<lambda>parsed.
                 scan_record E userID parsed fp idempotencyKey)))"

section \<open>Histories, counts and readiness\<close>

definition paginationLimit :: "int \<Rightarrow> int" where
  "paginationLimit limit = (if limit \<le> 0 then 50 else limit)"

definition invalid_page :: err where
  "invalid_page = Categorized CategoryValidation ''INVALID_PAGE'' ''page is invalid''"

definition MyHistory :: "svc_env \<Rightarrow> string \<Rightarrow> int \<Rightarrow> int \<Rightarrow> (svc, CheckInRecord list \<times> int) op" where
  "MyHistory E userID page limit =
     (if page < 0 then throwE invalid_page
      else storeE (ListByUser (se_sql E) userID page (paginationLimit limit)))"

definition MemberHistory :: "svc_env \<Rightarrow> string \<Rightarrow> int \<Rightarrow> int \<Rightarrow> (svc, CheckInRecord list \<times> int) op" where
  "MemberHistory E memberID page limit =
     (if page < 0 then throwE invalid_page
      else storeE (ListByMember (se_sql E) memberID page (paginationLimit limit)))"

definition invalid_date :: err where
  "invalid_date = Categorized CategoryValidation ''INVALID_DATE'' ''date is invalid''"

definition service_DailyCount :: "svc_env \<Rightarrow> string \<Rightarrow> string \<Rightarrow> (svc, int) op" where
  "service_DailyCount E gymID date =
     (case parse_date date of
        None \<Rightarrow> throwE invalid_date
      | Some (y, m, d) \<Rightarrow> storeE (DailyCount (se_sql E) gymID (Date y m d) (AddDays (y, m, d) 1)))"

text \<open>A call that may wait for ever, and the sequence of such calls.\<close>

definition waitE :: "(nat \<Rightarrow> (err + 'a) option) \<Rightarrow> svc \<Rightarrow> ((err + 'a) \<times> svc) option" where
  "waitE f s = map_option (\<lambda>r. (r, s\<lparr>sv_tick := Suc (sv_tick s)\<rparr>)) (f (sv_tick s))"

definition bindW :: "(svc \<Rightarrow> ((err + 'a) \<times> svc) option) \<Rightarrow> ('a \<Rightarrow> svc \<Rightarrow> ((err + 'b) \<times> svc) option) \<Rightarrow>
    svc \<Rightarrow> ((err + 'b) \<times> svc) option" where
  "bindW m k s =
     (case m s of
        None \<Rightarrow> None
      | Some (r, t) \<Rightarrow> (case r of Inl e \<Rightarrow> Some (Inl e, t) | Inr x \<Rightarrow> k x t))"

definition Service_Ready :: "svc_env \<Rightarrow> svc \<Rightarrow> ((err + unit) \<times> svc) option" where
  "Service_Ready E =
     bindW (Some \<circ> callE (se_store_ping E)) (\<lambda>_.
     bindW (Some \<circ> callE (\<lambda>n. kms_Ping (se_kms E) n (se_protector E))) (\<lambda>_.
     bindW (waitE (\<lambda>n. case se_member_conn E n of (states, changes) \<Rightarrow> member_Ping states changes)) (\<lambda>_.
       waitE (\<lambda>n. case se_plans_conn E n of (states, changes) \<Rightarrow> plans_Ping states changes))))"

section \<open>The shared state moves along the protocol\<close>

definition smoves :: "svc_env \<Rightarrow> svc \<Rightarrow> svc \<Rightarrow> bool" where
  "smoves E s t \<longleftrightarrow> moves (se_sql E) (sv_conn s) (sv_conn t)"

lemma smoves_rel [simp]: "reflp (smoves E)" "transp (smoves E)"
  by (auto simp: smoves_def reflp_def transp_def intro: moves_trans)

lemma svc_moves [guar_rules]:
  "guar (smoves E) (askE f)"
  "guar (smoves E) (callE g)"
  "guar (smoves E) (memE h)"
  "guar (smoves E) (updE u)"
  "guar (smoves E) (Now E)"
  by (auto simp: guar_def smoves_def askE_def callE_def bindE_def memE_def updE_def Now_def split: prod.splits sum.splits)

lemma store_smoves [guar_rules]: "guar (moves (se_sql E)) m \<Longrightarrow> guar (smoves E) (storeE m)"
  by (auto simp: guar_def smoves_def storeE_def zoomE_def split: prod.splits) (metis snd_conv)

lemma defer_smoves [guar_rules]: "guar (smoves E) m \<Longrightarrow> guar (smoves E) (deferE f m)"
  by (auto simp: guar_def smoves_def deferE_def split: prod.splits) (metis snd_conv)

lemma key_smoves [guar_rules]:
  assumes "rely (se_sql E)"
  shows "guar (smoves E) (newKey E g v)" "guar (smoves E) (currentKey E g)" "guar (smoves E) (key_of E k)"
proof -
  show new: "guar (smoves E) (newKey E g v)" for g v
    unfolding newKey_def by (auto intro!: guar_rules)
  show "guar (smoves E) (currentKey E g)"
    unfolding currentKey_def using assms by (auto intro!: guar_rules new)
  show "guar (smoves E) (key_of E k)"
    unfolding key_of_def decrypt_key_def by (auto intro!: guar_rules)
qed

lemma scan_check_smoves [guar_rules]: "rely (se_sql E) \<Longrightarrow> guar (smoves E) (scan_check E g p)"
  unfolding scan_check_def scan_verify_def by (auto intro!: guar_rules)

lemma scan_record_smoves [guar_rules]: "rely (se_sql E) \<Longrightarrow> guar (smoves E) (scan_record E u q fp i)"
  unfolding scan_record_def Let_def by (auto intro!: guar_rules simp: event_for_def)

lemma service_smoves [guar_rules]:
  assumes "rely (se_sql E)"
  shows "guar (smoves E) (Display E g)" "guar (smoves E) (Rotate E g emergency)"
    "guar (smoves E) (Scan E u g p i)" "guar (smoves E) (MyHistory E u pg l)"
    "guar (smoves E) (MemberHistory E u pg l)" "guar (smoves E) (service_DailyCount E g date)"
  unfolding Display_def Rotate_def Scan_def MyHistory_def MemberHistory_def service_DailyCount_def Let_def
  using assms by (auto intro!: guar_rules)

section \<open>The memory of a request\<close>

text \<open>\<open>opens E k bs\<close>: KMS made the 32 bytes \<open>bs\<close> of the key \<open>k\<close>; \<open>cached_right\<close>: the same of a stored key.\<close>

definition opens :: "svc_env \<Rightarrow> RootKey \<Rightarrow> bytes \<Rightarrow> bool" where
  "opens E k bs \<longleftrightarrow> length bs = 32
     \<and> (\<exists>n. Decrypt (se_kms E) n (se_protector E) (rk_KeyReference k) (rk_Ciphertext k) = Inr bs)"

definition cached_right :: "svc_env \<Rightarrow> shared \<Rightarrow> string \<times> u64 \<Rightarrow> bytes \<Rightarrow> time \<Rightarrow> bool" where
  "cached_right E sh = (\<lambda>(g, v) bs _. \<exists>ct ref at n. key_entry sh (g, uint v) = Some (ct, ref, at)
     \<and> length bs = 32 \<and> Decrypt (se_kms E) n (se_protector E) ref ct = Inr bs)"

lemma cached_right_stored:
  "stored_key sh k \<Longrightarrow> cached_right E sh (rk_GymID k, rk_Version k) bs e \<longleftrightarrow> opens E k bs"
  by (auto simp: stored_key_def cached_right_def opens_def split: option.splits)

abbreviation sv_shared :: "svc \<Rightarrow> shared" where
  "sv_shared s \<equiv> cn_shared (sv_conn s)"

definition svc_inv :: "svc_env \<Rightarrow> nat set \<Rightarrow> svc \<Rightarrow> bool" where
  "svc_inv E A s \<longleftrightarrow> sys_inv (sv_shared s) \<and> mem_ok (cached_right E (sv_shared s)) A (sv_mem s)"

lemma svc_inv_tick [simp]: "svc_inv E A (s\<lparr>sv_tick := n\<rparr>) = svc_inv E A s"
  by (simp add: svc_inv_def)

lemma NewService_inv: "sys_inv (cn_shared store) \<Longrightarrow> svc_inv E {} (NewService store)"
  by (simp add: svc_inv_def NewService_def mem_ok_def sound_view confined_def cache_ok_def view_def newKeyCache_def deref_def blank_def)

lemma svc_inv_moves:
  assumes "svc_inv E A s" and "moves (se_sql E) (sv_conn s) c"
  shows "svc_inv E A (s\<lparr>sv_conn := c\<rparr>)"
proof -
  have inv: "sys_inv (cn_shared c)"
    using assms moves_inv by (auto simp: svc_inv_def)
  have "key_entry (cn_shared c) k = Some x" if "key_entry (sv_shared s) k = Some x" for k x
    using assms that key_material.entry_run by (auto simp: svc_inv_def moves_def)
  then have "cached_right E (cn_shared c) k bs e" if "cached_right E (sv_shared s) k bs e" for k bs e
    using that by (fastforce simp: cached_right_def split: prod.splits)
  then show ?thesis
    using assms(1) inv mem_ok_mono by (auto simp: svc_inv_def)
qed

lemmas svc_op_defs = bindE_def tryE_def memE_def askE_def callE_def deferE_def updE_def Now_def liftE_def returnE_def throwE_def

lemma newKey_run:
  assumes "newKey E g v s = (r, t)"
  obtains (random) e m a where "alloc (replicate 32 0) (sv_mem s) = (a, m)" "r = Inl e" "sv_mem t = m" "sv_conn t = sv_conn s"
    | (made) a m bs n where "alloc (replicate 32 0) (sv_mem s) = (a, m)" "length bs = 32"
      "sv_mem t = clear_slice a (write_slice a bs m)" "sv_conn t = sv_conn s"
      "(\<exists>e. r = Inl e) \<or> (\<exists>k. r = Inr k \<and> rk_GymID k = g \<and> rk_Version k = v
         \<and> rk_KeyReference k = KeyReference (se_protector E) \<and> rk_Status k = RootKeyCurrent
         \<and> Encrypt (se_kms E) n (se_protector E) bs = Inr (rk_Ciphertext k))"
proof -
  obtain a m where am: "alloc (replicate 32 0) (sv_mem s) = (a, m)"
    by fastforce
  then have a: "a < length (me_heap m)"
    by (auto simp: alloc_def)
  show thesis
  proof (cases "se_rand E (sv_tick s)")
    case (Inl e)
    then show thesis
      using assms am random [OF am] by (auto simp: newKey_def svc_op_defs)
  next
    case (Inr f)
    define bs where "bs = map f [0..<32]"
    have deref: "deref (write_slice a bs m) a = bs" and len: "length bs = 32"
      using a by (simp_all add: deref_def write_slice_def bs_def)
    show thesis
      using assms am Inr len
      by (intro made [OF am, of bs "Suc (sv_tick s)"])
        (auto simp: newKey_def svc_op_defs bs_def [symmetric] deref split: sum.splits)
  qed
qed

lemma svc_inv_blank:
  assumes "mem_ok good (insert a A) m" and "blank (deref m a)"
  shows "mem_ok good A m"
  using assms by (auto simp: mem_ok_def confined_def)

lemma newKey_inv:
  assumes "svc_inv E A s" and "newKey E g v s = (r, t)"
  shows "svc_inv E A t" and "sv_conn t = sv_conn s"
    and "r = Inr k \<Longrightarrow> rk_GymID k = g \<and> rk_Version k = v \<and> rk_KeyReference k = KeyReference (se_protector E)
       \<and> rk_Status k = RootKeyCurrent
       \<and> (\<exists>n bs. length bs = 32 \<and> Encrypt (se_kms E) n (se_protector E) bs = Inr (rk_Ciphertext k))"
proof -
  let ?good = "cached_right E (sv_shared s)"
  have ok: "mem_ok ?good A (sv_mem s)"
    using assms(1) by (simp add: svc_inv_def)
  have "sv_conn t = sv_conn s \<and> mem_ok ?good A (sv_mem t)"
    using assms(2)
  proof (cases rule: newKey_run)
    case (random e m a)
    note al = mem_ok_alloc [OF ok random(1)]
    have "mem_ok ?good A m"
      by (rule svc_inv_blank [OF al(1)]) (simp add: al(3))
    with random show ?thesis
      by simp
  next
    case (made a m bs n)
    note al = mem_ok_alloc [OF ok made(1)]
    have "mem_ok ?good (insert a A) (write_slice a bs m)"
      using mem_ok_write(1) [OF al(1)] by simp
    then have "mem_ok ?good (insert a A - {a}) (clear_slice a (write_slice a bs m))"
      by (rule mem_ok_clear) simp
    with made al(2) show ?thesis
      by simp
  qed
  then show "svc_inv E A t" "sv_conn t = sv_conn s"
    using assms(1) by (simp_all add: svc_inv_def)
  show "rk_GymID k = g \<and> rk_Version k = v \<and> rk_KeyReference k = KeyReference (se_protector E)
       \<and> rk_Status k = RootKeyCurrent
       \<and> (\<exists>n bs. length bs = 32 \<and> Encrypt (se_kms E) n (se_protector E) bs = Inr (rk_Ciphertext k))" if "r = Inr k"
    using assms(2) by (cases rule: newKey_run) (use that in auto)
qed

lemma decrypt_key_run:
  assumes "decrypt_key E key s = (r, t)"
  obtains (failed) e where "r = Inl e" "sv_mem t = sv_mem s" "sv_conn t = sv_conn s"
    | (short) bs p m e where "alloc bs (sv_mem s) = (p, m)" "r = Inl e" "sv_mem t = clear_slice p m" "sv_conn t = sv_conn s"
    | (opened) bs p m expires pick b m' n where "length bs = 32"
      "Decrypt (se_kms E) n (se_protector E) (rk_KeyReference key) (rk_Ciphertext key) = Inr bs"
      "alloc bs (sv_mem s) = (p, m)"
      "alloc (deref (cache_put pick (rk_GymID key) (rk_Version key) p expires m) p)
         (cache_put pick (rk_GymID key) (rk_Version key) p expires m) = (b, m')"
      "r = Inr b" "sv_mem t = clear_slice p m'" "sv_conn t = sv_conn s"
proof (cases "Decrypt (se_kms E) (sv_tick s) (se_protector E) (rk_KeyReference key) (rk_Ciphertext key)")
  case (Inl e)
  then show thesis
    using assms failed by (auto simp: decrypt_key_def svc_op_defs)
next
  case (Inr bs)
  obtain p m where pm: "alloc bs (sv_mem s) = (p, m)"
    by fastforce
  show thesis
  proof (cases "length bs = 32")
    case False
    then show thesis
      using assms Inr pm short [OF pm] by (auto simp: decrypt_key_def svc_op_defs)
  next
    case True
    then show thesis
      using assms Inr pm opened [OF True Inr pm]
      by (auto simp: decrypt_key_def svc_op_defs split: if_splits prod.splits)
  qed
qed

lemma decrypt_key_inv:
  assumes inv: "svc_inv E A s" and stored: "stored_key (sv_shared s) key"
    and view: "view (sv_mem s) (cacheID (rk_GymID key) (rk_Version key)) = None" and run: "decrypt_key E key s = (r, t)"
  shows "sv_conn t = sv_conn s" and "r = Inl e \<Longrightarrow> svc_inv E A t"
    and "r = Inr a \<Longrightarrow> svc_inv E (insert a A) t \<and> a \<notin> A \<and> opens E key (deref (sv_mem t) a)"
proof -
  let ?good = "cached_right E (sv_shared s)"
  have ok: "mem_ok ?good A (sv_mem s)"
    using inv by (simp add: svc_inv_def)
  have "sv_conn t = sv_conn s \<and> (r = Inl e \<longrightarrow> mem_ok ?good A (sv_mem t))
      \<and> (r = Inr a \<longrightarrow> mem_ok ?good (insert a A) (sv_mem t) \<and> a \<notin> A \<and> opens E key (deref (sv_mem t) a))"
    using run
  proof (cases rule: decrypt_key_run)
    case (short bs p m e)
    note al = mem_ok_alloc [OF ok short(1)]
    have "mem_ok ?good (insert p A - {p}) (clear_slice p m)"
      by (rule mem_ok_clear [OF al(1)]) simp
    with short al(2) show ?thesis
      by simp
  next
    case (opened bs p m expires pick b m' n)
    note al = mem_ok_alloc [OF ok opened(3)]
    have m: "m = snd (alloc bs (sv_mem s))"
      using opened(3) by simp
    have op: "opens E key bs"
      using opened(1,2) by (auto simp: opens_def)
    then have "mem_ok ?good (insert p A) (cache_put pick (rk_GymID key) (rk_Version key) p expires m)"
      "deref (cache_put pick (rk_GymID key) (rk_Version key) p expires m) p = bs"
      using mem_ok_put [OF al(1), of p "rk_GymID key" "rk_Version key" expires pick] view al(3)
        cached_right_stored [OF stored] view_alloc [OF mem_okD(2) [OF ok]]
      by (simp_all add: m)
    note al' = mem_ok_alloc [OF this(1) opened(4)] and put = this(2)
    have "mem_ok ?good (insert b (insert p A) - {p}) (clear_slice p m')"
      by (rule mem_ok_clear [OF al'(1)]) simp
    moreover have "insert b (insert p A) - {p} = insert b A" "b \<noteq> p" "b \<notin> A"
      using al(2) al'(2) by auto
    ultimately show ?thesis
      using opened(5-7) op al'(3) put by (auto simp: deref_clear)
  qed (use ok in simp)
  then show "sv_conn t = sv_conn s" and "r = Inl e \<Longrightarrow> svc_inv E A t"
    and "r = Inr a \<Longrightarrow> svc_inv E (insert a A) t \<and> a \<notin> A \<and> opens E key (deref (sv_mem t) a)"
    using inv by (auto simp: svc_inv_def)
qed

lemma key_of_inv:
  assumes inv: "svc_inv E A s" and stored: "stored_key (sv_shared s) key" and run: "key_of E key s = (r, t)"
  shows "sv_conn t = sv_conn s" and "r = Inl e \<Longrightarrow> svc_inv E A t"
    and "r = Inr a \<Longrightarrow> svc_inv E (insert a A) t \<and> a \<notin> A \<and> opens E key (deref (sv_mem t) a)"
proof -
  let ?good = "cached_right E (sv_shared s)"
  have ok: "mem_ok ?good A (sv_mem s)"
    using inv by (simp add: svc_inv_def)
  define m1 where "m1 = (if rk_Status key \<noteq> RootKeyCurrent then cache_delete (rk_GymID key) (rk_Version key) else id) (sv_mem s)"
  have ok1: "mem_ok ?good A m1"
    using ok mem_ok_delete(1) by (simp add: m1_def)
  obtain cached m2 where get: "cache_get (rk_GymID key) (rk_Version key) (se_clock E (sv_tick s)) m1 = (cached, m2)"
    by fastforce
  let ?u = "s\<lparr>sv_tick := Suc (sv_tick s), sv_mem := m2\<rparr>"
  have "sv_conn t = sv_conn s \<and> (r = Inl e \<longrightarrow> svc_inv E A t)
      \<and> (r = Inr a \<longrightarrow> svc_inv E (insert a A) t \<and> a \<notin> A \<and> opens E key (deref (sv_mem t) a))"
  proof (cases cached)
    case None
    then have "decrypt_key E key ?u = (r, t)"
      using run get by (simp add: key_of_def svc_op_defs m1_def)
    moreover have "svc_inv E A ?u" "view (sv_mem ?u) (cacheID (rk_GymID key) (rk_Version key)) = None"
      using mem_ok_get(1) [OF ok1 get None] inv by (simp_all add: svc_inv_def)
    ultimately show ?thesis
      using decrypt_key_inv [of E A ?u key r t] stored by simp
  next
    case (Some b)
    then have "r = Inr b" "t = ?u"
      using run get by (auto simp: key_of_def svc_op_defs m1_def)
    then show ?thesis
      using mem_ok_get(2) [OF ok1 get Some] inv cached_right_stored [OF stored] by (auto simp: svc_inv_def)
  qed
  then show "sv_conn t = sv_conn s" and "r = Inl e \<Longrightarrow> svc_inv E A t"
    and "r = Inr a \<Longrightarrow> svc_inv E (insert a A) t \<and> a \<notin> A \<and> opens E key (deref (sv_mem t) a)"
    by blast+
qed

section \<open>Every method keeps the invariant\<close>

lemma storeE_run: "storeE m s = (r, t) \<longleftrightarrow> (\<exists>c. m (sv_conn s) = (r, c) \<and> t = s\<lparr>sv_conn := c\<rparr>)"
  by (auto simp: storeE_def zoomE_def split: prod.splits)

lemma storeE_inv:
  assumes "guar (moves (se_sql E)) m" and "svc_inv E A s" and "storeE m s = (r, t)"
  shows "svc_inv E A t"
  using assms guarD svc_inv_moves by (fastforce simp: storeE_run)

lemma ask_run:
  "askE f s = (r, t) \<longleftrightarrow> r = Inr (f (sv_tick s)) \<and> t = s\<lparr>sv_tick := Suc (sv_tick s)\<rparr>"
  "callE g s = (r', t) \<longleftrightarrow> r' = g (sv_tick s) \<and> t = s\<lparr>sv_tick := Suc (sv_tick s)\<rparr>"
  "Now E s = (r'', t) \<longleftrightarrow> r'' = Inr (se_clock E (sv_tick s)) \<and> t = s\<lparr>sv_tick := Suc (sv_tick s)\<rparr>"
  by (auto simp: askE_def callE_def Now_def bindE_def)

lemma currentKey_inv:
  assumes "rely (se_sql E)" and inv: "svc_inv E A s" and run: "currentKey E g s = (r, t)"
  shows "svc_inv E A t" and "r = Inr k \<Longrightarrow> stored_key (sv_shared t) k \<and> rk_GymID k = g"
proof -
  note moves = read_moves(7) [OF assms(1)] CreateCurrentKey_moves [OF assms(1)]
  have "svc_inv E A t \<and> (r = Inr k \<longrightarrow> stored_key (sv_shared t) k \<and> rk_GymID k = g)"
    using run unfolding currentKey_def
  proof (cases rule: bindE_cases)
    case (fail e)
    then show ?thesis
      using storeE_inv [OF moves(1) inv] by auto
  next
    case (bind found u)
    note u = storeE_inv [OF moves(1) inv bind(1)]
    show ?thesis
    proof (cases found)
      case (Some k')
      then obtain c where c: "CurrentKey (se_sql E) g (sv_conn s) = (Inr (Some k'), c)" "u = s\<lparr>sv_conn := c\<rparr>"
        using bind(1) by (auto simp: storeE_run)
      have "stored_key (sv_shared u) k'" "rk_GymID k' = g"
        using CurrentKey_stored [OF assms(1) _ c(1)] CurrentKey_Inr [OF c(1)] inv c(2) by (auto simp: svc_inv_def)
      with Some bind(2) u show ?thesis
        by auto
    next
      case None
      with bind(2) have "bindE (newKey E g 1) (\<lambda>created. storeE (CreateCurrentKey (se_sql E) created)) u = (r, t)"
        by simp
      then show ?thesis
      proof (cases rule: bindE_cases)
        case (fail e)
        then show ?thesis
          using newKey_inv(1) [OF u fail(1)] by simp
      next
        case (bind key w)
        note w = newKey_inv [OF u bind(1)]
        have gym: "rk_GymID key = g"
          using w(3) by blast
        obtain c where c: "CreateCurrentKey (se_sql E) key (sv_conn w) = (r, c)" "t = w\<lparr>sv_conn := c\<rparr>"
          using bind(2) by (auto simp: storeE_run)
        have "stored_key (sv_shared t) k \<and> rk_GymID k = g" if "r = Inr k"
          using CreateCurrentKey_stored [OF assms(1) _ c(1) [unfolded that]] CreateCurrentKey_gym [OF c(1) [unfolded that]]
            w(1) c(2) gym by (simp add: svc_inv_def)
        then show ?thesis
          using storeE_inv [OF moves(2) w(1) bind(2)] by blast
      qed
    qed
  qed
  then show "svc_inv E A t" and "r = Inr k \<Longrightarrow> stored_key (sv_shared t) k \<and> rk_GymID k = g"
    by simp_all
qed

text \<open>\<open>shows_payload\<close>: a payload on display, made with the bytes KMS made of a stored key, and the start of its slot.\<close>

definition shows_payload :: "svc_env \<Rightarrow> shared \<Rightarrow> string \<Rightarrow> string \<Rightarrow> time \<Rightarrow> bool" where
  "shows_payload E sh g payload at \<longleftrightarrow> (\<exists>key bs. stored_key sh key \<and> rk_GymID key = g \<and> opens E key bs
     \<and> SignQR (se_uuid E) g (rk_Version key) at bs = Inr payload)"

lemma Display_inv:
  assumes "rely (se_sql E)" and inv: "svc_inv E A s" and run: "Display E gymID s = (r, t)"
  shows "svc_inv E A t"
    and "r = Inr dp \<Longrightarrow> \<exists>n. dp_CurrentActiveAt dp = SlotStart (slot_at (se_clock E n))
      \<and> dp_NextActiveAt dp = dp_CurrentActiveAt dp + QRSlotDuration
      \<and> shows_payload E (sv_shared t) (dp_GymID dp) (dp_Current dp) (dp_CurrentActiveAt dp)
      \<and> shows_payload E (sv_shared t) (dp_GymID dp) (dp_Next dp) (dp_NextActiveAt dp)"
proof -
  have "svc_inv E A t \<and> (r = Inr dp \<longrightarrow> (\<exists>n. dp_CurrentActiveAt dp = SlotStart (slot_at (se_clock E n))
      \<and> dp_NextActiveAt dp = dp_CurrentActiveAt dp + QRSlotDuration
      \<and> shows_payload E (sv_shared t) (dp_GymID dp) (dp_Current dp) (dp_CurrentActiveAt dp)
      \<and> shows_payload E (sv_shared t) (dp_GymID dp) (dp_Next dp) (dp_NextActiveAt dp)))"
    using run unfolding Display_def
  proof (cases rule: bindE_cases)
    case (bind gym u)
    then have u: "svc_inv E A u"
      using inv by (auto simp: ask_run)
    from bind(2) show ?thesis
    proof (cases rule: bindE_cases)
      case (bind key w)
      note w = currentKey_inv [OF assms(1) u bind(1)]
      from bind(2) show ?thesis
      proof (cases rule: bindE_cases)
        case (bind plain x)
        have x: "svc_inv E (insert plain A) x" "plain \<notin> A" "opens E key (deref (sv_mem x) plain)" "sv_conn x = sv_conn w"
          using key_of_inv(1,3) [OF w(1) _ bind(1)] w(2) by simp_all
        have t: "sv_conn t = sv_conn x \<and> sv_mem t = clear_slice plain (sv_mem x)"
          using bind(2) by (auto simp: svc_op_defs Let_def split: sum.splits)
        then have "svc_inv E A t"
          using x mem_ok_clear [of _ "insert plain A" "sv_mem x" plain] by (simp add: svc_inv_def)
        moreover have "shows_payload E (sv_shared t) (gy_ID gym) p at"
          if "SignQR (se_uuid E) (gy_ID gym) (rk_Version key) at (deref (sv_mem x) plain) = Inr p" for p at
          using that x t w(2) by (auto simp: shows_payload_def)
        ultimately show ?thesis
          using bind(2) by (auto simp: svc_op_defs Let_def slot_at_def split: sum.splits intro!: exI [of _ "sv_tick x"])
      qed (use key_of_inv(2) [OF w(1) _ _ refl] w(2) in auto)
    qed (use currentKey_inv(1) [OF assms(1) u] in auto)
  qed (use inv in \<open>auto simp: ask_run\<close>)
  then show "svc_inv E A t" and "r = Inr dp \<Longrightarrow> \<exists>n. dp_CurrentActiveAt dp = SlotStart (slot_at (se_clock E n))
      \<and> dp_NextActiveAt dp = dp_CurrentActiveAt dp + QRSlotDuration
      \<and> shows_payload E (sv_shared t) (dp_GymID dp) (dp_Current dp) (dp_CurrentActiveAt dp)
      \<and> shows_payload E (sv_shared t) (dp_GymID dp) (dp_Next dp) (dp_NextActiveAt dp)"
    by blast+
qed

lemma svc_inv_mem:
  "svc_inv E A s \<Longrightarrow> (mem_ok (cached_right E (sv_shared s)) A (sv_mem s) \<Longrightarrow> mem_ok (cached_right E (sv_shared s)) B m) \<Longrightarrow>
     svc_inv E B (s\<lparr>sv_mem := m\<rparr>)"
  by (simp add: svc_inv_def)

lemma updE_run: "updE f s = (r, t) \<longleftrightarrow> r = Inr () \<and> t = s\<lparr>sv_mem := f (sv_mem s)\<rparr>"
  by (auto simp: updE_def memE_def)

lemma peek_run: "memE (\<lambda>m. (f m, m)) s = (r, t) \<longleftrightarrow> r = Inr (f (sv_mem s)) \<and> t = s"
  by (auto simp: memE_def)

lemma Rotate_cases:
  assumes "Rotate E gymID emergency s = (r, t)"
  obtains (invalid) e where "r = Inl e" "t = s\<lparr>sv_tick := Suc (sv_tick s)\<rparr>"
    | (unavailable) gym :: Gym and e u where "storeE (CurrentKey (se_sql E) (gy_ID gym)) (s\<lparr>sv_tick := Suc (sv_tick s)\<rparr>) = (Inl e, u)"
      "r = Inl e" "t = u"
    | (first) gym u r' where "ValidateCheckInGym (se_plans E) (sv_tick s) gymID = Inr gym"
      "storeE (CurrentKey (se_sql E) (gy_ID gym)) (s\<lparr>sv_tick := Suc (sv_tick s)\<rparr>) = (Inr None, u)"
      "currentKey E (gy_ID gym) u = (r', t)"
    | (unmade) gym :: Gym and previous u e where
      "storeE (CurrentKey (se_sql E) (gy_ID gym)) (s\<lparr>sv_tick := Suc (sv_tick s)\<rparr>) = (Inr (Some previous), u)"
      "newKey E (gy_ID gym) (rk_Version previous + 1) u = (Inl e, t)" "r = Inl e"
    | (rotated) gym previous u key w c created where "ValidateCheckInGym (se_plans E) (sv_tick s) gymID = Inr gym"
      "storeE (CurrentKey (se_sql E) (gy_ID gym)) (s\<lparr>sv_tick := Suc (sv_tick s)\<rparr>) = (Inr (Some previous), u)"
      "newKey E (gy_ID gym) (rk_Version previous + 1) u = (Inr key, w)"
      "RotateKey (se_sql E) key
         (if emergency then se_clock E (sv_tick w) else se_clock E (sv_tick w) + priorKeyOverlap) emergency (sv_conn w)
         = (created, c)"
      "r = map_sum id (\<lambda>k. \<lparr>ro_GymID = rk_GymID k, ro_KeyVersion = rk_Version k, ro_ActivatedAt = rk_ActivatedAt k\<rparr>) created"
      "sv_conn t = c"
      "sv_mem t = sv_mem w \<or> sv_mem t = cache_delete (rk_GymID previous) (rk_Version previous) (sv_mem w)"
  using assms unfolding Rotate_def Let_def
proof (cases rule: bindE_cases)
  case (fail e)
  then show thesis
    using invalid by (auto simp: ask_run)
next
  case (bind gym u)
  then have gym: "ValidateCheckInGym (se_plans E) (sv_tick s) gymID = Inr gym" and u: "u = s\<lparr>sv_tick := Suc (sv_tick s)\<rparr>"
    by (auto simp: ask_run)
  from bind(2) show thesis
    unfolding u
  proof (cases rule: bindE_cases)
    case (fail e)
    then show thesis
      using unavailable by blast
  next
    case (bind found v)
    show thesis
    proof (cases found)
      case None
      with bind(2) show thesis
        by (auto elim!: bindE_cases intro: first [OF gym bind(1) [unfolded None]])
    next
      case (Some previous)
      note found = bind(1) [unfolded Some]
      from bind(2) show thesis
        unfolding Some option.case
        by (auto elim!: bindE_cases simp: ask_run updE_run storeE_run intro: unmade [OF found])
          (rule rotated [OF gym found], assumption, assumption, simp_all)+
    qed
  qed
qed

lemma Rotate_inv:
  assumes "rely (se_sql E)" and inv: "svc_inv E A s" and run: "Rotate E gymID emergency s = (r, t)"
  shows "svc_inv E A t"
proof -
  note current = storeE_inv [OF read_moves(7) [OF assms(1)], of A "s\<lparr>sv_tick := Suc (sv_tick s)\<rparr>"]
  from run show ?thesis
  proof (cases rule: Rotate_cases)
    case (rotated gym previous u key w c created)
    have w: "svc_inv E A w"
      using newKey_inv(1) [OF current rotated(3)] rotated(2) inv by simp
    have "svc_inv E A (w\<lparr>sv_conn := c\<rparr>)"
      by (rule svc_inv_moves [OF w guarD [OF RotateKey_moves [OF assms(1)] rotated(4)]])
    then show ?thesis
      using rotated(6,7) mem_ok_delete(1) by (auto simp: svc_inv_def)
  next
    case (unmade gym previous u e)
    then show ?thesis
      using newKey_inv(1) [OF current unmade(2)] inv by simp
  next
    case (first gym u r')
    then show ?thesis
      using currentKey_inv(1) [OF assms(1) current first(3)] inv by simp
  next
    case (unavailable gym e u)
    then show ?thesis
      using current inv by simp
  qed (simp add: inv)
qed

text \<open>The payload check: what it found when it accepts, and the invariant in any case.\<close>

definition ticks :: "svc \<Rightarrow> svc \<Rightarrow> bool" where
  "ticks s t \<longleftrightarrow> sv_tick s \<le> sv_tick t"

lemma ticks_rules:
  "reflp ticks" "transp ticks" "guar ticks (askE f)" "guar ticks (callE g)" "guar ticks (Now E)"
  "guar ticks (memE h)" "guar ticks (updE u)" "guar ticks m \<Longrightarrow> guar ticks (deferE d m)"
  by (auto simp: guar_def ticks_def reflp_def transp_def svc_op_defs split: prod.splits sum.splits) (metis snd_conv)

lemma key_of_ticks: "guar ticks (key_of E key)"
  unfolding key_of_def decrypt_key_def by (auto intro!: guar_rules ticks_rules)

text \<open>\<open>key\<close> fails only when KMS, asked during the call, does not give 32 bytes.\<close>

definition no_plaintext :: "svc_env \<Rightarrow> RootKey \<Rightarrow> nat \<Rightarrow> bool" where
  "no_plaintext E key n \<longleftrightarrow>
     (\<forall>bs. Decrypt (se_kms E) n (se_protector E) (rk_KeyReference key) (rk_Ciphertext key) = Inr bs \<longrightarrow> length bs \<noteq> 32)"

lemma key_of_error:
  assumes "key_of E key s = (Inl e, t)"
  shows "e = kms_unavailable" and "\<exists>n. sv_tick s \<le> n \<and> n < sv_tick t \<and> no_plaintext E key n"
proof -
  have "e = kms_unavailable \<and> sv_tick t = Suc (Suc (sv_tick s)) \<and> no_plaintext E key (Suc (sv_tick s))"
    using assms
    by (auto simp: key_of_def decrypt_key_def svc_op_defs no_plaintext_def split: prod.splits sum.splits option.splits if_splits)
  then show "e = kms_unavailable" "\<exists>n. sv_tick s \<le> n \<and> n < sv_tick t \<and> no_plaintext E key n"
    by (auto intro!: exI [of _ "Suc (sv_tick s)"])
qed

lemma scan_verify_inv:
  assumes inv: "svc_inv E A s" and stored: "stored_key (sv_shared s) key" and run: "scan_verify E key p s = (r, t)"
  shows "svc_inv E A t \<and> sv_conn t = sv_conn s"
    and "if IsAcceptableAt key (se_clock E (sv_tick s))
      then r = Inl kms_unavailable \<and> (\<exists>n. sv_tick s \<le> n \<and> n < sv_tick t \<and> no_plaintext E key n) \<or> (\<exists>bs m. sv_tick s \<le> m \<and> m < sv_tick t \<and> opens E key bs
             \<and> r = (if VerifyQR p bs (se_clock E m) then Inr p else Inl invalid_qr))
      else r = Inl invalid_qr"
proof -
  let ?w = "s\<lparr>sv_tick := Suc (sv_tick s)\<rparr>"
  obtain r1 x where ko: "key_of E key ?w = (r1, x)"
    by fastforce
  note kinv = key_of_inv [of E A ?w, OF _ _ ko]
  have "(svc_inv E A t \<and> sv_conn t = sv_conn s) \<and> (if IsAcceptableAt key (se_clock E (sv_tick s))
      then r = Inl kms_unavailable \<and> (\<exists>n. sv_tick s \<le> n \<and> n < sv_tick t \<and> no_plaintext E key n) \<or> (\<exists>bs m. sv_tick s \<le> m \<and> m < sv_tick t \<and> opens E key bs
             \<and> r = (if VerifyQR p bs (se_clock E m) then Inr p else Inl invalid_qr))
      else r = Inl invalid_qr)"
  proof (cases "IsAcceptableAt key (se_clock E (sv_tick s))")
    case False
    then show ?thesis
      using run inv by (auto simp: scan_verify_def svc_op_defs)
  next
    case acc: True
    show ?thesis
    proof (cases r1)
      case (Inl e)
      then have "r = Inl e" "t = x"
        using run acc ko by (auto simp: scan_verify_def svc_op_defs)
      then show ?thesis
        using kinv(1) kinv(2) [OF _ _ Inl] key_of_error [OF ko [unfolded Inl]] inv stored acc by (auto dest: Suc_leD)
    next
      case (Inr a)
      let ?y = "x\<lparr>sv_tick := Suc (sv_tick x), sv_mem := clear_slice a (sv_mem x)\<rparr>"
      have a: "svc_inv E (insert a A) x" "a \<notin> A" "opens E key (deref (sv_mem x) a)"
        using kinv(3) [OF _ _ Inr] inv stored by simp_all
      have "t = ?y" "r = (if VerifyQR p (deref (sv_mem x) a) (se_clock E (sv_tick x)) then Inr p else Inl invalid_qr)"
        using run acc ko Inr by (auto simp: scan_verify_def svc_op_defs split: if_splits)
      moreover have "svc_inv E A ?y"
        using a mem_ok_clear [of _ "insert a A" "sv_mem x" a] by (simp add: svc_inv_def)
      moreover have "sv_tick s \<le> sv_tick x" "sv_conn x = sv_conn s"
        using guarD [OF key_of_ticks ko] kinv(1) inv stored by (simp_all add: ticks_def)
      ultimately show ?thesis
        using acc a(3) by auto
    qed
  qed
  then show "svc_inv E A t \<and> sv_conn t = sv_conn s" and "if IsAcceptableAt key (se_clock E (sv_tick s))
      then r = Inl kms_unavailable \<and> (\<exists>n. sv_tick s \<le> n \<and> n < sv_tick t \<and> no_plaintext E key n) \<or> (\<exists>bs m. sv_tick s \<le> m \<and> m < sv_tick t \<and> opens E key bs
             \<and> r = (if VerifyQR p bs (se_clock E m) then Inr p else Inl invalid_qr))
      else r = Inl invalid_qr"
    by blast+
qed

lemma scan_check_run:
  assumes "scan_check E gymID payload s = (r, t)"
  obtains (refused) "r = Inl invalid_qr" "t = s"
    | (absent) p c found where "ParseSignedQR (se_uuid E) payload = Inr p" "qr_GymID p = gymID"
      "FindKey (se_sql E) gymID (qr_KeyVersion p) (sv_conn s) = (found, c)" "\<not> (\<exists>key. found = Inr (Some key))"
      "r = Inl invalid_qr" "t = s\<lparr>sv_conn := c\<rparr>"
    | (verified) p c key where "ParseSignedQR (se_uuid E) payload = Inr p" "qr_GymID p = gymID"
      "FindKey (se_sql E) gymID (qr_KeyVersion p) (sv_conn s) = (Inr (Some key), c)"
      "scan_verify E key p (s\<lparr>sv_conn := c\<rparr>) = (r, t)"
proof (cases "ParseSignedQR (se_uuid E) payload")
  case (Inr p)
  obtain found c where fk: "FindKey (se_sql E) gymID (qr_KeyVersion p) (sv_conn s) = (found, c)"
    by fastforce
  then have st: "storeE (FindKey (se_sql E) gymID (qr_KeyVersion p)) s = (found, s\<lparr>sv_conn := c\<rparr>)"
    by (simp add: storeE_run)
  show thesis
    using assms Inr st refused absent [OF Inr _ fk] verified [OF Inr] fk
    by (auto simp: scan_check_def tryE_def split: if_splits sum.splits option.splits)
qed (use assms refused in \<open>auto simp: scan_check_def\<close>)

lemma scan_check_inv:
  assumes "rely (se_sql E)" and inv: "svc_inv E A s" and run: "scan_check E gymID payload s = (r, t)"
  shows "svc_inv E A t"
    and "r = Inr q \<Longrightarrow> ParseSignedQR (se_uuid E) payload = Inr q \<and> qr_GymID q = gymID
      \<and> (\<exists>key bs m. FindKey (se_sql E) gymID (qr_KeyVersion q) (sv_conn s) = (Inr (Some key), sv_conn t)
           \<and> IsAcceptableAt key (se_clock E (sv_tick s)) \<and> opens E key bs
           \<and> sv_tick s \<le> m \<and> m < sv_tick t \<and> VerifyQR q bs (se_clock E m))"
proof -
  have find: "svc_inv E A (s\<lparr>sv_conn := c\<rparr>)" if "FindKey (se_sql E) g v (sv_conn s) = (f, c)" for g v f c
    by (rule svc_inv_moves [OF inv guarD [OF read_moves(8) [OF assms(1)] that]])
  have stored: "stored_key (cn_shared c) key" if "FindKey (se_sql E) g v (sv_conn s) = (Inr (Some key), c)" for g v key c
    using FindKey_stored [OF assms(1) _ that] inv by (simp add: svc_inv_def)
  from run show "svc_inv E A t"
  proof (cases rule: scan_check_run)
    case (verified p c key)
    then show ?thesis
      using scan_verify_inv(1) [OF find [OF verified(3)] _ verified(4)] stored by simp
  qed (auto simp: inv find)
  from run show "ParseSignedQR (se_uuid E) payload = Inr q \<and> qr_GymID q = gymID
      \<and> (\<exists>key bs m. FindKey (se_sql E) gymID (qr_KeyVersion q) (sv_conn s) = (Inr (Some key), sv_conn t)
           \<and> IsAcceptableAt key (se_clock E (sv_tick s)) \<and> opens E key bs
           \<and> sv_tick s \<le> m \<and> m < sv_tick t \<and> VerifyQR q bs (se_clock E m))" if "r = Inr q"
  proof (cases rule: scan_check_run)
    case (verified p c key)
    note v = scan_verify_inv [OF find [OF verified(3)] _ verified(4)]
    show ?thesis
      using v that stored [OF verified(3)] verified(1-3) by (fastforce split: if_splits)
  qed (use that in simp_all)
qed

lemma scan_record_run:
  assumes "scan_record E userID q fp idem s = (r, t)"
  obtains (failed) e where "r = Inl e" "sv_conn t = sv_conn s" "sv_mem t = sv_mem s"
    | (create) n membership rec event where
      "ValidateMembership (se_member E) n userID (qr_GymID q) = Inr membership"
      "CreateCheckIn (se_sql E) rec fp idem event (sv_conn s) = (r, sv_conn t)"
      "mb_Valid membership" "mb_Status membership = ''ACTIVE''" "event_for rec event" "ci_UserID rec = userID"
      "ci_MemberID rec = mb_MemberID membership" "ci_GymID rec = qr_GymID q" "sv_mem t = sv_mem s"
      "sv_tick s \<le> n" "n < sv_tick t"
  using assms failed unfolding scan_record_def Let_def
  by (auto elim!: bindE_cases simp: ask_run storeE_run split: if_splits sum.splits)
    (rule create, rule sym, assumption, simp, simp_all add: event_for_def)

lemma Scan_cases:
  assumes "Scan E userID gymID payload idem s = (r, t)"
  obtains (unavailable) e where "r = Inl e" "FindIdempotency (se_sql E) userID idem (sv_conn s) = (Inl e, sv_conn t)"
      "sv_mem t = sv_mem s"
    | (known) row where "request_entry (cn_shared (arrive (se_sql E) (sv_conn s))) (userID, idem) = Some row"
      "sv_conn t = arrive (se_sql E) (sv_conn s)" "sv_mem t = sv_mem s"
      "r = (if cr_request_fingerprint row = fingerprint gymID payload then Inr (record_of userID row) else Inl idempotency_conflict)"
    | (refused) e where "request_entry (cn_shared (arrive (se_sql E) (sv_conn s))) (userID, idem) = None"
      "scan_check E gymID payload (s\<lparr>sv_conn := arrive (se_sql E) (sv_conn s)\<rparr>) = (Inl e, t)" "r = Inl e"
    | (accepted) q u where "request_entry (cn_shared (arrive (se_sql E) (sv_conn s))) (userID, idem) = None"
      "scan_check E gymID payload (s\<lparr>sv_conn := arrive (se_sql E) (sv_conn s)\<rparr>) = (Inr q, u)"
      "scan_record E userID q (fingerprint gymID payload) idem u = (r, t)"
proof -
  obtain f c where fi: "FindIdempotency (se_sql E) userID idem (sv_conn s) = (f, c)"
    by fastforce
  then have st: "storeE (FindIdempotency (se_sql E) userID idem) s = (f, s\<lparr>sv_conn := c\<rparr>)"
    by (simp add: storeE_run)
  show thesis
  proof (cases f)
    case (Inl e)
    then show thesis
      using assms st unavailable fi by (auto simp: Scan_def Let_def bindE_def)
  next
    case (Inr found)
    then have c: "c = arrive (se_sql E) (sv_conn s)"
      and found: "map_option (idempotency_of userID) (request_entry (cn_shared c) (userID, idem)) = found"
      using fi Inr FindIdempotency_Inr by blast+
    have run: "(case found of None \<Rightarrow> bindE (scan_check E gymID payload) (\<lambda>parsed. scan_record E userID parsed (fingerprint gymID payload) idem)
        | Some found \<Rightarrow> if id_Fingerprint found \<noteq> fingerprint gymID payload then throwE idempotency_conflict else returnE (id_Record found))
        (s\<lparr>sv_conn := c\<rparr>) = (r, t)"
      using assms st Inr by (simp add: Scan_def Let_def bindE_def)
    show thesis
    proof (cases "request_entry (cn_shared c) (userID, idem)")
      case None
      with run found have "bindE (scan_check E gymID payload) (\<lambda>parsed. scan_record E userID parsed (fingerprint gymID payload) idem)
          (s\<lparr>sv_conn := c\<rparr>) = (r, t)"
        by simp
      then show thesis
        using None refused accepted unfolding c by (cases rule: bindE_cases) auto
    next
      case (Some row)
      with run found show thesis
        using known [of row] by (auto simp: c idempotency_of_def split: if_splits)
    qed
  qed
qed

lemma scan_record_inv:
  assumes "rely (se_sql E)" and "svc_inv E A s" and "scan_record E u q fp i s = (r, t)"
  shows "svc_inv E A t"
  using assms(3)
proof (cases rule: scan_record_run)
  case (failed e)
  with assms(2) show ?thesis by (simp add: svc_inv_def)
next
  case (create n membership rec event)
  have "moves (se_sql E) (sv_conn s) (sv_conn t)"
    by (rule guarD [OF CreateCheckIn_moves [OF assms(1) create(5)] create(2)])
  from svc_inv_moves [OF assms(2) this] create(9) show ?thesis
    by (simp add: svc_inv_def)
qed

lemma arrive_inv: "rely (se_sql E) \<Longrightarrow> svc_inv E A s \<Longrightarrow> svc_inv E A (s\<lparr>sv_conn := arrive (se_sql E) (sv_conn s)\<rparr>)"
  by (blast intro: svc_inv_moves arrive_moves)

lemma Scan_inv:
  assumes "rely (se_sql E)" and inv: "svc_inv E A s" and run: "Scan E u g p i s = (r, t)"
  shows "svc_inv E A t"
  using run
proof (cases rule: Scan_cases)
  case (unavailable e)
  have "moves (se_sql E) (sv_conn s) (sv_conn t)"
    by (rule guarD [OF read_moves(1) [OF assms(1)] unavailable(2)])
  from svc_inv_moves [OF inv this] unavailable(3) show ?thesis
    by (simp add: svc_inv_def)
next
  case (known row)
  with arrive_inv [OF assms(1) inv] show ?thesis
    by (simp add: svc_inv_def)
next
  case (refused e)
  then show ?thesis
    using scan_check_inv(1) [OF assms(1) arrive_inv [OF assms(1) inv]] by blast
next
  case (accepted q u)
  then show ?thesis
    using scan_check_inv(1) [OF assms(1) arrive_inv [OF assms(1) inv]] scan_record_inv [OF assms(1)] by blast
qed

end
