(* ===== verification/Requests.thy ===== *)
theory Requests
  imports Service
begin

text \<open>
  What the service promises its callers: a scan is accepted only for a good reason, it is recorded once
  whatever the caller and the database do, a displayed code is accepted while it is shown, a rotation
  revokes the older keys, and no request leaves a plaintext key in memory.
\<close>

section \<open>Properties\<close>

text \<open>A key of the database that is acceptable is the current one, or the previous one before its deadline.\<close>

lemma acceptable_row:
  assumes "keys_inv rows" and "find p rows = Some row" and "IsAcceptableAt (root_key_of row) now"
  shows "kr_status row = RootKeyCurrent
    \<or> kr_status row = RootKeyPrevious \<and> (\<exists>deadline. kr_acceptance_deadline row = Some deadline \<and> now < deadline)"
proof -
  have "key_row_ok rows row"
    using assms(1) find_SomeD [OF assms(2)] by (simp add: keys_inv_def)
  then show ?thesis
    using assms(3) by (auto simp: key_row_ok_def IsAcceptableAt_def root_key_of_def split: if_splits option.splits)
qed

text \<open>C2: A scan succeeds only for a request that was already recorded with the same fingerprint, or for a payload
  that names the scanned gym and is signed with the key that the database has for the gym and the named version when
  the scan reads it; the row read is the gym's current key, or its previous key before the row's acceptance deadline,
  and is still the stored key of that version when the scan returns; the payload's slot is current or the one before at
  an instant read during the scan, and the member service, asked during the scan, reports the user's membership at that
  gym as valid and active.\<close>

theorem scan_sound:
  assumes "rely (se_sql E)" and "svc_inv E A s" and "Scan E userID gymID payload idem s = (Inr rec, t)"
  shows "(\<exists>row. request_entry (cn_shared (arrive (se_sql E) (sv_conn s))) (userID, idem) = Some row
       \<and> cr_request_fingerprint row = fingerprint gymID payload \<and> rec = record_of userID row)
    \<or> (\<exists>q row bs m k membership. ParseSignedQR (se_uuid E) payload = Inr q \<and> qr_GymID q = gymID
       \<and> find (is_version gymID (uint (qr_KeyVersion q)))
           (tb_keys (cn_tables (arrive (se_sql E) (arrive (se_sql E) (sv_conn s))))) = Some row
       \<and> (kr_status row = RootKeyCurrent \<or> kr_status row = RootKeyPrevious
            \<and> (\<exists>deadline. kr_acceptance_deadline row = Some deadline \<and> se_clock E (sv_tick s) < deadline))
       \<and> stored_key (sv_shared t) (root_key_of row) \<and> opens E (root_key_of row) bs
       \<and> sv_tick s \<le> m \<and> m < sv_tick t \<and> VerifyQR q bs (se_clock E m)
       \<and> sv_tick s \<le> k \<and> k < sv_tick t \<and> ValidateMembership (se_member E) k userID gymID = Inr membership
       \<and> mb_Valid membership \<and> mb_Status membership = ''ACTIVE'')"
  using assms(3)
proof (cases rule: Scan_cases)
  case (accepted q u)
  let ?a = "s\<lparr>sv_conn := arrive (se_sql E) (sv_conn s)\<rparr>"
  have a: "svc_inv E A ?a"
    by (rule arrive_inv [OF assms(1,2)])
  note check = scan_check_inv [OF assms(1) a accepted(2)]
  obtain key bs m where q: "ParseSignedQR (se_uuid E) payload = Inr q" "qr_GymID q = gymID"
    and fk: "FindKey (se_sql E) gymID (qr_KeyVersion q) (sv_conn ?a) = (Inr (Some key), sv_conn u)"
    and ok: "IsAcceptableAt key (se_clock E (sv_tick s))" "opens E key bs" "VerifyQR q bs (se_clock E m)"
    and m: "sv_tick s \<le> m" "m < sv_tick u"
    using check(2) [OF refl] by auto
  obtain row where row: "find (is_version gymID (uint (qr_KeyVersion q))) (tb_keys (cn_tables (sv_conn u))) = Some row"
      "key = root_key_of row" and u: "sv_conn u = arrive (se_sql E) (arrive (se_sql E) (sv_conn s))"
    using FindKey_Inr [OF fk] by auto
  have "keys_inv (tb_keys (cn_tables (sv_conn u)))"
    using check(1) sys_inv_keys by (simp add: svc_inv_def)
  note acceptable = acceptable_row [OF this row(1) ok(1) [unfolded row(2)]]
  have stored: "stored_key (sv_shared u) key"
    using FindKey_stored [OF assms(1) _ fk] a by (simp add: svc_inv_def)
  from accepted(3) show ?thesis
  proof (cases rule: scan_record_run)
    case (create k membership rc event)
    have "moves (se_sql E) (sv_conn u) (sv_conn t)"
      by (rule guarD [OF CreateCheckIn_moves [OF assms(1) create(5)] create(2)])
    then have "stored_key (sv_shared t) (root_key_of row)"
      using stored_key_run stored check(1) row(2) by (auto simp: svc_inv_def)
    moreover have "sv_tick s \<le> k" "m < sv_tick t"
      using m create(10,11) by simp_all
    ultimately show ?thesis
      using q ok(2,3) row(1) acceptable m(1) create(1) [unfolded q(2)] create(3,4,11) unfolding row(2) u by blast
  qed simp
qed (auto split: if_splits)

text \<open>What is stored for the request when a scan has succeeded.\<close>

lemma Scan_recorded:
  assumes "Scan E userID gymID payload idem s = (Inr rec, t)"
  obtains row where "request_entry (sv_shared t) (userID, idem) = Some row"
    "cr_request_fingerprint row = fingerprint gymID payload"
    "record_of userID row = rec\<lparr>ci_CheckedInAt := cr_checked_in_at row\<rparr>"
    "cr_checked_in_at row \<in> {ci_CheckedInAt rec, sq_ts (se_sql E) (ci_CheckedInAt rec)}"
  using assms
proof (cases rule: Scan_cases)
  case (known row)
  then show thesis
    using that [of row] by (auto simp: record_of_def split: if_splits)
next
  case (accepted q u)
  from accepted(3) show thesis
  proof (cases rule: scan_record_run)
    case (create k membership rc event)
    from create(2) obtain row where "request_entry (sv_shared t) (ci_UserID rc, idem) = Some row"
      "cr_request_fingerprint row = fingerprint gymID payload"
      "rec = record_of (ci_UserID rc) row \<or> rec = rc \<and> row = new_checkin_row (sq_ts (se_sql E)) rc (fingerprint gymID payload) idem"
      by (rule CreateCheckIn_Inr)
    then show thesis
      using that [of row] create(6) by (auto simp: new_checkin_row_def record_of_def)
  qed simp
qed simp_all

text \<open>C1: Scanning is idempotent for every instance: once a scan by a user under an idempotency key has succeeded,
  every later scan by that user under that key, on any instance and after anything the instances did in between,
  whose lookup is answered by the database returns the same check-in if its gym and payload have the same fingerprint
  and the conflict otherwise; either way it records nothing.\<close>

theorem scan_exactly_once:
  assumes "rely (se_sql E)" and "rely (se_sql E')" and ts: "sq_ts (se_sql E') = sq_ts (se_sql E)"
    and inv: "svc_inv E A s" and first: "Scan E userID gymID payload idem s = (Inr rec, t)"
    and between: "moves (se_sql E) (sv_conn t) (sv_conn s')"
    and second: "Scan E' userID gymID' payload' idem s' = (r, t')"
    and answered: "sq_outcome (se_sql E') (cn_calls (sv_conn s')) = Done"
  shows "sv_conn t' = arrive (se_sql E') (sv_conn s')
    \<and> (if fingerprint gymID' payload' = fingerprint gymID payload
        then (\<exists>rec'. r = Inr rec' \<and> rec' = rec\<lparr>ci_CheckedInAt := ci_CheckedInAt rec'\<rparr>
               \<and> ci_CheckedInAt rec' \<in> {ci_CheckedInAt rec, sq_ts (se_sql E) (ci_CheckedInAt rec)})
        else r = Inl idempotency_conflict)"
proof -
  have t: "svc_inv E A t"
    by (rule Scan_inv [OF assms(1) inv first])
  obtain row where row: "request_entry (sv_shared t) (userID, idem) = Some row"
    "cr_request_fingerprint row = fingerprint gymID payload"
    "record_of userID row = rec\<lparr>ci_CheckedInAt := cr_checked_in_at row\<rparr>"
    "cr_checked_in_at row \<in> {ci_CheckedInAt rec, sq_ts (se_sql E) (ci_CheckedInAt rec)}"
    using first by (rule Scan_recorded)
  let ?a = "arrive (se_sql E') (sv_conn s')"
  have "moves (se_sql E) (sv_conn t) ?a"
    using moves_trans [OF between] arrive_moves [OF assms(2)] unfolding moves_ts [OF ts] .
  then have known: "request_entry (cn_shared ?a) (userID, idem) = Some row"
    using t requests.entry_run [OF _ _ row(1)] by (auto simp: svc_inv_def moves_def)
  have "FindIdempotency (se_sql E') userID idem (sv_conn s') \<noteq> (Inl e, c)" for e c
    using answered by (auto simp: FindIdempotency_def bindE_Inl autocommit_def Let_def select_idempotency_def split: option.splits)
  with second known have "sv_conn t' = ?a \<and> r = (if fingerprint gymID' payload' = fingerprint gymID payload
      then Inr (record_of userID row) else Inl idempotency_conflict)"
    by (cases rule: Scan_cases) (auto simp: row(2))
  then show ?thesis
    using row(3,4) by (cases rec) (auto simp: record_of_def)
qed

lemma reads_inv:
  assumes "rely (se_sql E)" and "svc_inv E A s"
  shows "svc_inv E A (snd (MyHistory E u page limit s))" "svc_inv E A (snd (MemberHistory E u page limit s))"
    "svc_inv E A (snd (service_DailyCount E g date s))"
proof -
  have store: "svc_inv E A (snd (storeE m s))" if "guar (moves (se_sql E)) m" for m
    using storeE_inv [OF that assms(2) surjective_pairing] .
  show "svc_inv E A (snd (MyHistory E u page limit s))" "svc_inv E A (snd (MemberHistory E u page limit s))"
    "svc_inv E A (snd (service_DailyCount E g date s))"
    using assms by (auto simp: MyHistory_def MemberHistory_def service_DailyCount_def intro!: store guar_rules
        split: option.splits)
qed

section \<open>Displayed payloads\<close>

text \<open>What is relied on: the clocks stay in a range of dates whose slots fit, and a KMS key decrypts a ciphertext
  the same way whoever asks.\<close>

definition clock_ok :: "svc_env \<Rightarrow> bool" where
  "clock_ok E \<longleftrightarrow> (\<forall>n. 0 \<le> se_clock E n \<and> Unix (se_clock E n) < 2 ^ 62)"

definition same_kms :: "svc_env \<Rightarrow> svc_env \<Rightarrow> bool" where
  "same_kms E E' \<longleftrightarrow> (\<forall>n m ref blob p p'. aw_Decrypt (se_kms E) n ref blob = Inr (Some p)
     \<longrightarrow> aw_Decrypt (se_kms E') m ref blob = Inr (Some p') \<longrightarrow> p = p')"

lemma slot_instant:
  assumes "0 \<le> c" and "Unix c < 2 ^ 62"
    and at: "at = SlotStart (slot_at c) \<or> at = SlotStart (slot_at c) + QRSlotDuration"
  shows "SlotStart (slot_at at) = at" and "Unix at < 2 ^ 63"
proof -
  have "0 \<le> Unix c"
    using assms(1) by (simp add: Unix_def Second_def pos_imp_zdiv_nonneg_iff)
  then have S: "0 \<le> slot_at c" "slot_at c * 60 \<le> Unix c"
    by (simp_all add: slot_at_def gdiv_nonneg pos_imp_zdiv_nonneg_iff)
  then have "SlotStart (slot_at c) = slot_at c * QRSlotDuration"
    using assms(2) by (simp add: SlotStart_slot)
  with at have "at = slot_at c * QRSlotDuration \<or> at = (slot_at c + 1) * QRSlotDuration"
    by (simp add: distrib_right)
  then obtain k where k: "at = k * QRSlotDuration" "0 \<le> k" "k * 60 < 2 ^ 63"
    using S assms(2) by (elim disjE) (auto intro: that [of "slot_at c"] that [of "slot_at c + 1"])
  then have "slot_at at = k"
    by (simp add: slot_at_nonneg QRSlotDuration_def durations)
  with k show "SlotStart (slot_at at) = at"
    by (simp add: SlotStart_slot)
  show "Unix at < 2 ^ 63"
    using k by (simp add: Unix_def QRSlotDuration_def durations)
qed

lemma opens_agree:
  assumes "same_kms E E'" and "opens E k bs" and "opens E' k' bs'"
    and "rk_KeyReference k' = rk_KeyReference k" and "rk_Ciphertext k' = rk_Ciphertext k"
  shows "bs' = bs"
  using assms unfolding opens_def same_kms_def by (fastforce simp: Decrypt_Inr)

text \<open>Where one instance has decrypted a key, another that gets no plaintext of 32 bytes gets an error from KMS.\<close>

lemma decrypt_agree:
  assumes "same_kms E E'" and "opens E k bs" and "no_plaintext E' k n"
  shows "\<exists>e. Decrypt (se_kms E') n (se_protector E') (rk_KeyReference k) (rk_Ciphertext k) = Inl e"
proof (cases "Decrypt (se_kms E') n (se_protector E') (rk_KeyReference k) (rk_Ciphertext k)")
  case (Inr bs')
  with assms(1,2) have "bs' = bs"
    unfolding opens_def same_kms_def by (fastforce simp: Decrypt_Inr)
  with assms Inr show ?thesis
    by (simp add: opens_def no_plaintext_def)
qed simp

text \<open>What a scan check answers about a displayed payload.\<close>

lemma scan_shown:
  assumes "rely (se_sql E')" and "sq_ts (se_sql E') = sq_ts (se_sql E)" and env: "uuid_text (se_uuid E)"
      "se_uuid E' = se_uuid E" "same_kms E E'"
    and inv: "sys_inv (cn_shared c)" "svc_inv E' A s"
    and shown: "shows_payload E (cn_shared c) g payload at" "SlotStart (slot_at at) = at" "Unix at < 2 ^ 63"
    and later: "moves (se_sql E) c (sv_conn s)"
    and run: "scan_check E' g payload s = (r, t)" and answered: "sq_outcome (se_sql E') (cn_calls (sv_conn s)) = Done"
    and clock: "\<And>n. sv_tick s \<le> n \<Longrightarrow> n < sv_tick t \<Longrightarrow> at \<le> se_clock E' n \<and> se_clock E' n < at + 2 * QRSlotDuration"
  shows "\<exists>q key bs. ParseSignedQR (se_uuid E') payload = Inr q \<and> qr_GymID q = g
    \<and> FindKey (se_sql E') g (qr_KeyVersion q) (sv_conn s) = (Inr (Some key), arrive (se_sql E') (sv_conn s))
    \<and> opens E key bs
    \<and> (IsAcceptableAt key (se_clock E' (sv_tick s)) \<longrightarrow> r = Inr q \<or> r = Inl kms_unavailable
        \<and> (\<exists>n e. sv_tick s \<le> n \<and> n < sv_tick t
            \<and> Decrypt (se_kms E') n (se_protector E') (rk_KeyReference key) (rk_Ciphertext key) = Inl e))"
proof -
  let ?a = "arrive (se_sql E') (sv_conn s)"
  obtain k bs where k: "stored_key (cn_shared c) k" "rk_GymID k = g" "opens E k bs"
    and sign: "SignQR (se_uuid E) g (rk_Version k) at bs = Inr payload"
    using shown(1) by (auto simp: shows_payload_def)
  let ?q = "signed g (rk_Version k) at bs"
  have q: "ParseSignedQR (se_uuid E') payload = Inr ?q" "qr_GymID ?q = g" "qr_KeyVersion ?q = rk_Version k"
    using signed_parse [OF env(1) sign shown(3)] env(2) by (simp_all add: signed_def)
  have mv: "moves (se_sql E) c ?a"
    using later arrive_moves [OF assms(1)] unfolding moves_ts [OF assms(2)] by (rule moves_trans)
  have st: "stored_key (cn_shared ?a) k"
    by (rule stored_key_run [OF mv inv(1) k(1)])
  then obtain row where row: "find (is_version g (uint (rk_Version k))) (tb_keys (cn_tables ?a)) = Some row"
    "kr_key_ciphertext row = rk_Ciphertext k" "kr_key_reference row = rk_KeyReference k"
    using k(2) by (auto simp: stored_key_def key_entry_def split: option.splits)
  have "uint (rk_Version k) < 2 ^ 63"
    using find_SomeD [OF row(1)] version_range [OF sys_inv_keys [OF moves_inv [OF mv inv(1)]], of row] by (auto simp: is_version_def)
  then have fk: "FindKey (se_sql E') g (rk_Version k) (sv_conn s) = (Inr (Some (root_key_of row)), ?a)"
    using row(1) answered by (simp add: FindKey_def bigint_arg_def find_key_Inr del: arrive_simps)
  have verify: "scan_verify E' (root_key_of row) ?q (s\<lparr>sv_conn := ?a\<rparr>) = (r, t)"
    using run by (cases rule: scan_check_run) (use q fk run in \<open>auto simp: scan_check_def tryE_def storeE_def zoomE_def\<close>)
  have "svc_inv E' A (s\<lparr>sv_conn := ?a\<rparr>)" "stored_key (sv_shared (s\<lparr>sv_conn := ?a\<rparr>)) (root_key_of row)"
    using arrive_inv [OF assms(1) inv(2)] FindKey_stored [OF assms(1) _ fk] inv(2) by (simp_all add: svc_inv_def)
  note verified = scan_verify_inv(2) [OF this verify]
  have same: "opens E (root_key_of row) bs"
    using k(3) row(2,3) by (simp add: opens_def root_key_of_def)
  have "r = Inr ?q \<or> r = Inl kms_unavailable \<and> (\<exists>n e. sv_tick s \<le> n \<and> n < sv_tick t
      \<and> Decrypt (se_kms E') n (se_protector E') (rk_KeyReference (root_key_of row)) (rk_Ciphertext (root_key_of row)) = Inl e)"
    if "IsAcceptableAt (root_key_of row) (se_clock E' (sv_tick s))"
  proof -
    have "VerifyQR ?q bs (se_clock E' n)" if "sv_tick s \<le> n" "n < sv_tick t" for n
      using clock [OF that] signed_verify [OF sign shown(3)] shown(2) by simp
    then show ?thesis
      using verified that opens_agree [OF env(3) same, of "root_key_of row"] decrypt_agree [OF env(3) same]
      by (auto split: if_splits)
  qed
  with q fk same show ?thesis
    by metis
qed

section \<open>A request nobody disturbs\<close>

lemma key_of_answers:
  assumes "\<And>n. Decrypt (se_kms E) n (se_protector E) (rk_KeyReference key) (rk_Ciphertext key) = Inr bs" and "length bs = 32"
  shows "fst (key_of E key s) \<noteq> Inl e"
  using assms by (simp add: key_of_def decrypt_key_def svc_op_defs split: prod.splits sum.splits option.splits)

lemma scan_verify_answers:
  assumes "\<And>s e. fst (key_of E key s) \<noteq> Inl e"
  shows "fst (scan_verify E key q s) \<noteq> Inl kms_unavailable"
proof -
  have "fst (key_of E key u) = Inl e \<Longrightarrow> False" for u e
    using assms by blast
  then show ?thesis
    by (auto simp: scan_verify_def svc_op_defs invalid_qr_def kms_unavailable_def split: prod.splits sum.splits) (metis fst_conv)
qed

lemma scan_check_accepts:
  assumes E: "undisturbed (se_sql E)" and inv: "svc_inv E A s"
    and parsed: "ParseSignedQR (se_uuid E) payload = Inr q" "qr_GymID q = g"
    and row: "find (is_version g (uint (qr_KeyVersion q))) (tb_keys (cn_tables (sv_conn s))) = Some row"
    and key: "\<And>n. Decrypt (se_kms E) n (se_protector E) (kr_key_reference row) (kr_key_ciphertext row) = Inr bs" "length bs = 32"
    and clock: "\<And>n. IsAcceptableAt (root_key_of row) (se_clock E n)" "\<And>n. VerifyQR q bs (se_clock E n)"
  shows "\<exists>t. scan_check E g payload s = (Inr q, t) \<and> sv_shared t = sv_shared s"
proof -
  let ?a = "arrive (se_sql E) (sv_conn s)" and ?k = "root_key_of row"
  have sh: "cn_shared ?a = sv_shared s"
    using E by (simp add: undisturbed_def)
  have "uint (qr_KeyVersion q) < 2 ^ 63"
    using find_SomeD [OF row] version_range [OF sys_inv_keys, of "sv_shared s" row] inv by (auto simp: is_version_def svc_inv_def)
  then have fk: "FindKey (se_sql E) g (qr_KeyVersion q) (sv_conn s) = (Inr (Some ?k), ?a)"
    using row E by (simp add: FindKey_def bigint_arg_def find_key_Inr undisturbed_def)
  obtain r t where v: "scan_verify E ?k q (s\<lparr>sv_conn := ?a\<rparr>) = (r, t)"
    by fastforce
  have i: "svc_inv E A (s\<lparr>sv_conn := ?a\<rparr>)" "stored_key (sv_shared (s\<lparr>sv_conn := ?a\<rparr>)) ?k"
    using arrive_inv [OF undisturbed_rely [OF E] inv] FindKey_stored [OF undisturbed_rely [OF E] _ fk] inv
    by (simp_all add: svc_inv_def)
  have t: "sv_conn t = ?a"
    using scan_verify_inv(1) [OF i v] by simp
  have r: "r = Inl kms_unavailable \<or> (\<exists>bs' m. opens E ?k bs'
      \<and> r = (if VerifyQR q bs' (se_clock E m) then Inr q else Inl invalid_qr))"
    using scan_verify_inv(2) [OF i v] unfolding if_P [OF clock(1)] by blast
  have "fst (key_of E ?k u) \<noteq> Inl e" for u e
    by (rule key_of_answers) (use key in \<open>simp_all add: root_key_of_def\<close>)
  then have "r \<noteq> Inl kms_unavailable"
    using scan_verify_answers [of E ?k q "s\<lparr>sv_conn := ?a\<rparr>"] v by simp
  moreover have "bs' = bs" if "opens E ?k bs'" for bs'
    using that key(1) by (simp add: opens_def root_key_of_def)
  ultimately have "r = Inr q"
    using r clock(2) by auto
  then show ?thesis
    using v t sh parsed fk by (auto simp: scan_check_def tryE_def storeE_def zoomE_def)
qed

lemma CreateCheckIn_succeeds:
  assumes "undisturbed E" and "request_entry (cn_shared c) (ci_UserID record, idem) = None"
    and "ci_ID record \<notin> set (map cr_checkin_id (tb_check_ins (cn_tables c)))"
    and "ev_ID event \<notin> set (map or_event_id (tb_outbox (cn_tables c)))"
  shows "\<exists>d. CreateCheckIn E record fp idem event c = (Inr record, d)
    \<and> cn_shared d = recorded (sq_ts E) record fp idem event (cn_shared c)"
  using assms
  by (simp add: CreateCheckIn_def bindE_def BeginTx_def tx_exec_def driver_read_def Commit_def undisturbed_def Let_def
      insert_check_in_def insert_outbox_def request_entry_def recorded_def)

lemma scan_record_succeeds:
  assumes "undisturbed (se_sql E)" and "request_entry (sv_shared s) (userID, idem) = None"
    and "\<And>n. \<exists>m. ValidateMembership (se_member E) n userID (qr_GymID q) = Inr m \<and> mb_Valid m \<and> mb_Status m = ''ACTIVE''"
    and "\<And>m t. \<exists>b. se_marshal E m (qr_GymID q) t = Inr b"
    and "\<And>n. se_ids E n \<notin> set (map cr_checkin_id (tb_check_ins (cn_tables (sv_conn s))))"
    and "\<And>n. se_ids E n \<notin> set (map or_event_id (tb_outbox (cn_tables (sv_conn s))))"
  shows "\<exists>rec event t. scan_record E userID q fp idem s = (Inr rec, t)
    \<and> sv_shared t = recorded (sq_ts (se_sql E)) rec fp idem event (sv_shared s)
    \<and> event_for rec event \<and> ci_UserID rec = userID \<and> ci_GymID rec = qr_GymID q \<and> (\<exists>k. ci_CheckedInAt rec = se_clock E k)"
proof -
  obtain m where m: "ValidateMembership (se_member E) (sv_tick s) userID (qr_GymID q) = Inr m" "mb_Valid m" "mb_Status m = ''ACTIVE''"
    using assms(3) by blast
  let ?n = "sv_tick s + 1"
  define rec where "rec = \<lparr>ci_ID = se_ids E (?n + 1), ci_UserID = userID, ci_MemberID = mb_MemberID m,
      ci_GymID = qr_GymID q, ci_CheckedInAt = se_clock E ?n\<rparr>"
  obtain b where b: "se_marshal E (mb_MemberID m) (qr_GymID q) (se_clock E ?n) = Inr b"
    using assms(4) by blast
  define event where "event = \<lparr>ev_ID = se_ids E (?n + 2), ev_Topic = checkInTopic, ev_Key = mb_MemberID m, ev_Payload = b,
      ev_PreparedValue = None, ev_PreparedHeaders = None, ev_Attempts = 0, ev_CreatedAt = se_clock E ?n\<rparr>"
  have "\<exists>d. CreateCheckIn (se_sql E) rec fp idem event (sv_conn s) = (Inr rec, d)
      \<and> cn_shared d = recorded (sq_ts (se_sql E)) rec fp idem event (sv_shared s)"
    by (rule CreateCheckIn_succeeds) (use assms(1,2,5,6) in \<open>simp_all add: rec_def event_def\<close>)
  then obtain d where d: "CreateCheckIn (se_sql E) rec fp idem event (sv_conn s) = (Inr rec, d)"
    "cn_shared d = recorded (sq_ts (se_sql E)) rec fp idem event (sv_shared s)"
    by blast
  have "\<exists>t. scan_record E userID q fp idem s = (Inr rec, t) \<and> sv_conn t = d"
    using m b d(1) by (simp add: scan_record_def svc_op_defs storeE_def zoomE_def Let_def rec_def event_def)
  with d(2) show ?thesis
    by (fastforce simp: rec_def event_def event_for_def)
qed

lemma Scan_unknown:
  assumes E: "undisturbed (se_sql E)" and inv: "svc_inv E A s"
    and new: "request_entry (sv_shared s) (userID, idem) = None"
    and parsed: "ParseSignedQR (se_uuid E) payload = Inr q" "qr_GymID q = gymID"
    and row: "find (is_version gymID (uint (qr_KeyVersion q))) (tb_keys (cn_tables (sv_conn s))) = Some row"
    and key: "\<And>n. Decrypt (se_kms E) n (se_protector E) (kr_key_reference row) (kr_key_ciphertext row) = Inr bs" "length bs = 32"
    and clock: "\<And>n. IsAcceptableAt (root_key_of row) (se_clock E n)" "\<And>n. VerifyQR q bs (se_clock E n)"
  obtains t where "sv_shared t = sv_shared s"
    "Scan E userID gymID payload idem s = scan_record E userID q (fingerprint gymID payload) idem t"
proof -
  let ?a = "s\<lparr>sv_conn := arrive (se_sql E) (sv_conn s)\<rparr>"
  have sh: "sv_shared ?a = sv_shared s"
    using E by (simp add: undisturbed_def)
  obtain t where t: "scan_check E gymID payload ?a = (Inr q, t)" "sv_shared t = sv_shared s"
    using scan_check_accepts [OF E arrive_inv [OF undisturbed_rely [OF E] inv] parsed _ key clock] row sh by auto
  have "FindIdempotency (se_sql E) userID idem (sv_conn s) = (Inr None, arrive (se_sql E) (sv_conn s))"
    using E new by (simp add: FindIdempotency_def bindE_def autocommit_def select_idempotency_def undisturbed_def
        request_entry_def put_tables_def Let_def arrive_def next_call_def)
  then have "Scan E userID gymID payload idem s = scan_record E userID q (fingerprint gymID payload) idem t"
    using t(1) by (simp add: Scan_def Let_def bindE_def storeE_def zoomE_def)
  with t(2) show thesis
    by (rule that)
qed

text \<open>C14: A scan that nobody disturbs goes through: when the database answers, the request is new, the payload verifies
  under the stored key that KMS decrypts, the membership is active and the identifiers are fresh, Scan returns a
  check-in of that user at that gym at an instant the clock has read, and has appended exactly that check-in and its event.\<close>

theorem scan_succeeds:
  assumes E: "undisturbed (se_sql E)" and inv: "svc_inv E A s"
    and new: "request_entry (sv_shared s) (userID, idem) = None"
    and parsed: "ParseSignedQR (se_uuid E) payload = Inr q" "qr_GymID q = gymID"
    and row: "find (is_version gymID (uint (qr_KeyVersion q))) (tb_keys (cn_tables (sv_conn s))) = Some row"
    and key: "\<And>n. Decrypt (se_kms E) n (se_protector E) (kr_key_reference row) (kr_key_ciphertext row) = Inr bs" "length bs = 32"
    and clock: "\<And>n. IsAcceptableAt (root_key_of row) (se_clock E n)" "\<And>n. VerifyQR q bs (se_clock E n)"
    and member: "\<And>n. \<exists>m. ValidateMembership (se_member E) n userID gymID = Inr m \<and> mb_Valid m \<and> mb_Status m = ''ACTIVE''"
    and marshal: "\<And>m t. \<exists>b. se_marshal E m gymID t = Inr b"
    and ids: "\<And>n. se_ids E n \<notin> set (map cr_checkin_id (tb_check_ins (cn_tables (sv_conn s))))"
      "\<And>n. se_ids E n \<notin> set (map or_event_id (tb_outbox (cn_tables (sv_conn s))))"
  shows "\<exists>rec event t. Scan E userID gymID payload idem s = (Inr rec, t)
    \<and> sv_shared t = recorded (sq_ts (se_sql E)) rec (fingerprint gymID payload) idem event (sv_shared s)
    \<and> event_for rec event \<and> ci_UserID rec = userID \<and> ci_GymID rec = gymID \<and> (\<exists>k. ci_CheckedInAt rec = se_clock E k)"
proof -
  obtain t where t: "sv_shared t = sv_shared s"
    "Scan E userID gymID payload idem s = scan_record E userID q (fingerprint gymID payload) idem t"
    using E inv new parsed row key clock by (rule Scan_unknown)
  have "\<exists>rec event u. scan_record E userID q (fingerprint gymID payload) idem t = (Inr rec, u)
    \<and> sv_shared u = recorded (sq_ts (se_sql E)) rec (fingerprint gymID payload) idem event (sv_shared t)
    \<and> event_for rec event \<and> ci_UserID rec = userID \<and> ci_GymID rec = qr_GymID q \<and> (\<exists>k. ci_CheckedInAt rec = se_clock E k)"
    by (rule scan_record_succeeds [OF E]) (use new member marshal ids parsed(2) t(1) in simp_all)
  then show ?thesis
    using t parsed(2) by simp
qed

text \<open>C7: A code on display can be scanned: whichever instance displayed it and whichever checks it, and whatever the
  instances did in between, a displayed payload, the current one or the next one, names a stored key, one that KMS
  decrypted to 32 bytes for the display; and while that key is acceptable and the clock reads between the start of the
  payload's slot and two slot durations later, the check accepts it, or answers that KMS is unavailable after KMS, asked
  during the check to decrypt that key, has answered with an error.\<close>

theorem displayed_accepted:
  assumes "rely (se_sql E)" and "rely (se_sql E')" and "sq_ts (se_sql E') = sq_ts (se_sql E)"
    and env: "uuid_text (se_uuid E)" "se_uuid E' = se_uuid E" "same_kms E E'" "clock_ok E"
    and inv: "svc_inv E A s" "svc_inv E' A' s'"
    and shown: "Display E gymID s = (Inr dp, t)"
      "(payload, at) = (dp_Current dp, dp_CurrentActiveAt dp) \<or> (payload, at) = (dp_Next dp, dp_NextActiveAt dp)"
    and later: "moves (se_sql E) (sv_conn t) (sv_conn s')"
    and run: "scan_check E' (dp_GymID dp) payload s' = (r, t')"
    and answered: "sq_outcome (se_sql E') (cn_calls (sv_conn s')) = Done"
    and clock: "\<forall>n. sv_tick s' \<le> n \<and> n < sv_tick t' \<longrightarrow> at \<le> se_clock E' n \<and> se_clock E' n < at + 2 * QRSlotDuration"
  shows "\<exists>q key bs. ParseSignedQR (se_uuid E') payload = Inr q \<and> qr_GymID q = dp_GymID dp
    \<and> FindKey (se_sql E') (dp_GymID dp) (qr_KeyVersion q) (sv_conn s') = (Inr (Some key), arrive (se_sql E') (sv_conn s'))
    \<and> opens E key bs
    \<and> (IsAcceptableAt key (se_clock E' (sv_tick s')) \<longrightarrow> r = Inr q \<or> r = Inl kms_unavailable
        \<and> (\<exists>n e. sv_tick s' \<le> n \<and> n < sv_tick t'
            \<and> Decrypt (se_kms E') n (se_protector E') (rk_KeyReference key) (rk_Ciphertext key) = Inl e))"
proof -
  note display = Display_inv [OF assms(1) inv(1) shown(1)]
  obtain n where n: "dp_CurrentActiveAt dp = SlotStart (slot_at (se_clock E n))"
      "dp_NextActiveAt dp = dp_CurrentActiveAt dp + QRSlotDuration"
    and p: "shows_payload E (sv_shared t) (dp_GymID dp) payload at"
    using display(2) [OF refl] shown(2) by auto
  have at: "SlotStart (slot_at at) = at" "Unix at < 2 ^ 63"
    using slot_instant [of "se_clock E n" at] env(4) shown(2) n by (auto simp: clock_ok_def)
  have "sys_inv (sv_shared t)"
    using display(1) by (simp add: svc_inv_def)
  then show ?thesis
    using scan_shown [OF assms(2,3) env(1-3) _ inv(2) p at later run answered] clock by blast
qed

lemma methods_inv:
  assumes "rely (se_sql E)" and "svc_inv E {} s"
  shows "svc_inv E {} (snd (Display E gymID s))" "svc_inv E {} (snd (Rotate E gymID emergency s))"
    "svc_inv E {} (snd (Scan E userID gymID payload idem s))" "svc_inv E {} (snd (MyHistory E userID page limit s))"
    "svc_inv E {} (snd (MemberHistory E memberID page limit s))" "svc_inv E {} (snd (service_DailyCount E gymID date s))"
  using Display_inv(1) [OF assms surjective_pairing] Rotate_inv [OF assms surjective_pairing]
      Scan_inv [OF assms surjective_pairing] reads_inv [OF assms] by auto

text \<open>C38: A database that fails while Scan looks for the key is not reported as unavailable: the caller is told that
  the QR payload is invalid.\<close>

theorem find_failure_hidden:
  assumes "request_entry (cn_shared (arrive (se_sql E) (sv_conn s))) (userID, idem) = None"
    and "ParseSignedQR (se_uuid E) payload = Inr q" and "qr_GymID q = gymID" and "uint (qr_KeyVersion q) < 2 ^ 63"
    and "sq_outcome (se_sql E) (cn_calls (sv_conn s)) = Done"
    and "sq_outcome (se_sql E) (Suc (cn_calls (sv_conn s))) = Failed e"
  shows "fst (Scan E userID gymID payload idem s) = Inl invalid_qr"
  using assms
  by (simp add: Scan_def scan_check_def svc_op_defs storeE_def zoomE_def FindIdempotency_def autocommit_def Let_def
      select_idempotency_def request_entry_def FindKey_def bigint_arg_def find_key_def)

text \<open>C37: The daily count of a gym counts exactly the check-ins stored for it whose instant lies in the 24 hours from the
  day's midnight in UTC; a date that does not parse is refused without a query.\<close>

theorem daily_count_day:
  assumes "\<And>t. 1000 dvd t \<Longrightarrow> sq_ts (se_sql E) t = t"
  shows "case parse_date date of
      None \<Rightarrow> service_DailyCount E gymID date s = (Inl invalid_date, s)
    | Some (y, m, d) \<Rightarrow> fst (service_DailyCount E gymID date s) = Inr n \<longrightarrow>
        n = int (length (filter (\<lambda>r. cr_gym_id r = gymID \<and> Date y m d \<le> cr_checked_in_at r
              \<and> cr_checked_in_at r < Date y m d + 24 * Hour)
            (tb_check_ins (sh_tables (sv_shared (snd (service_DailyCount E gymID date s)))))))"
proof (cases "parse_date date")
  case None
  then show ?thesis
    by (simp add: service_DailyCount_def)
next
  case (Some ymd)
  obtain y m d where ymd: "ymd = (y, m, d)"
    by (cases ymd) auto
  have "sq_ts (se_sql E) (Date y m d) = Date y m d" "sq_ts (se_sql E) (Date y m d + 24 * Hour) = Date y m d + 24 * Hour"
    by (rule assms, simp add: Date_def durations)+
  then show ?thesis
    by (auto simp: Some ymd service_DailyCount_def storeE_def zoomE_def DailyCount_def AddDays_def Date_add_day
        autocommit_def Let_def select_count_def affected_def split: sql_outcome.splits)
qed

text \<open>A probe leaves the instance as it was, but for the questions it asked.\<close>

lemma ready_keeps: "Service_Ready E s = Some (r, t) \<Longrightarrow> sv_conn t = sv_conn s \<and> sv_mem t = sv_mem s"
  by (auto simp: Service_Ready_def bindW_def waitE_def callE_def bindE_def askE_def liftE_def
      split: option.splits sum.splits prod.splits)

text \<open>If the contexts of the two waits end, Ready returns, and it succeeds exactly when the database and KMS answer and
  both connections get ready in time.\<close>

lemma ready_returns:
  assumes "\<And>n. \<exists>k. \<not> snd (se_member_conn E n) k" and "\<And>n. \<exists>k. \<not> snd (se_plans_conn E n) k"
  shows "\<exists>r t. Service_Ready E s = Some (r, t) \<and> (r = Inr () \<longleftrightarrow>
    se_store_ping E (sv_tick s) = Inr () \<and> kms_Ping (se_kms E) (sv_tick s + 1) (se_protector E) = Inr ()
    \<and> gets_ready (se_member_conn E (sv_tick s + 2)) \<and> gets_ready (se_plans_conn E (sv_tick s + 3)))"
proof -
  note member = ping_ends [OF assms(1), of "''member connection is closed''"]
  note plans = ping_ends [OF assms(2), of "''plans connection is closed''"]
  obtain r where r: "member_Ping (fst (se_member_conn E (sv_tick s + 2))) (snd (se_member_conn E (sv_tick s + 2))) = Some r"
      "r = Inr () \<longleftrightarrow> gets_ready (se_member_conn E (sv_tick s + 2))"
    using member unfolding member_Ping_def by blast
  obtain q where q: "plans_Ping (fst (se_plans_conn E (sv_tick s + 3))) (snd (se_plans_conn E (sv_tick s + 3))) = Some q"
      "q = Inr () \<longleftrightarrow> gets_ready (se_plans_conn E (sv_tick s + 3))"
    using plans unfolding plans_Ping_def by blast
  show ?thesis
    using r q by (auto simp: Service_Ready_def bindW_def waitE_def callE_def bindE_def askE_def liftE_def split_def
        eval_nat_numeral split: sum.splits)
qed

section \<open>A concrete instance\<close>

text \<open>A database that answers every call, a KMS and clients that answer, a clock that stands at 00:02:30, and a gym
  with one current key.\<close>

definition sample_secret :: bytes where
  "sample_secret = replicate 32 7"

definition sample_env :: svc_env where
  "sample_env = \<lparr>se_sql = quiet_env, se_uuid = sample_uuid,
     se_member = \<lambda>_ _ _. Inr \<lparr>vm_MemberId = ''m1'', vm_Valid = True, vm_Status = STATUS_ACTIVE\<rparr>,
     se_plans = \<lambda>_ g. Inr \<lparr>vg_GymId = g, vg_Status = LOCATION_ACTIVE\<rparr>,
     se_kms = sample_kms, se_protector = sample_protector, se_clock = \<lambda>_. 150 * Second,
     se_ids = \<lambda>n. replicate n (CHR ''i''), se_rand = \<lambda>_. Inr of_nat, se_pick = \<lambda>_. 0,
     se_marshal = \<lambda>_ _ _. Inr [1], se_store_ping = \<lambda>_. Inr (),
     se_member_conn = \<lambda>_. (\<lambda>n. if n = 0 then Connecting else Ready, \<lambda>n. n < 3), se_plans_conn = \<lambda>_. (\<lambda>_. Ready, \<lambda>n. n < 3)\<rparr>"

definition sample_row :: key_row where
  "sample_row = \<lparr>kr_gym_id = sample_gym, kr_key_version = 1, kr_key_ciphertext = Std_encode (bytes_of ''arn'' @ sample_secret),
     kr_key_reference = ''arn'', kr_status = RootKeyCurrent, kr_activated_at = 0, kr_acceptance_deadline = None,
     kr_retired_at = None\<rparr>"

definition sample_svc :: svc where
  "sample_svc = NewService \<lparr>cn_shared = \<lparr>sh_tables = \<lparr>tb_keys = [sample_row], tb_check_ins = [], tb_outbox = []\<rparr>,
       sh_broker = []\<rparr>, cn_calls = 0\<rparr>"

lemma sample_fields:
  "se_sql sample_env = quiet_env" "se_uuid sample_env = sample_uuid" "se_kms sample_env = sample_kms"
  "se_protector sample_env = sample_protector" "se_clock sample_env n = 150 * Second"
  by (simp_all add: sample_env_def)

lemma sample_rely [simp]: "rely (se_sql sample_env)"
  by (simp add: sample_env_def)

lemma sample_sys_inv: "sys_inv (sv_shared sample_svc)"
  by (simp add: sample_svc_def NewService_def sample_row_def sys_inv_def keys_inv_def key_row_ok_def is_current_def
      checkins_inv_def outbox_inv_def)

lemma sample_inv: "svc_inv sample_env {} sample_svc"
  unfolding sample_svc_def by (rule NewService_inv) (use sample_sys_inv in \<open>simp add: sample_svc_def NewService_def\<close>)

lemma sample_decrypt:
  "Decrypt sample_kms n sample_protector ''arn'' (Std_encode (bytes_of ''arn'' @ sample_secret)) = Inr sample_secret"
  by (simp add: Decrypt_Inr sample_protector_def sample_kms_def std_b64.decode_encode sample_secret_def)

abbreviation sample_q :: SignedQR where
  "sample_q \<equiv> signed sample_gym 1 (150 * Second) sample_secret"

lemma sample_parsed: "ParseSignedQR sample_uuid (sample_payload sample_secret) = Inr sample_q"
  by (rule signed_parse [OF sample_uuid_text sample_signed]) (simp_all add: sample_secret_def sample_slot)

lemma sample_verified: "VerifyQR sample_q sample_secret (150 * Second)"
proof -
  have "VerifyQR sample_q sample_secret now \<longleftrightarrow> 120 * Second \<le> now \<and> now < 120 * Second + 2 * QRSlotDuration" for now
    using signed_verify [OF sample_signed [of sample_secret], of now] unfolding sample_slot by (simp add: sample_secret_def)
  then show ?thesis
    by (simp add: QRSlotDuration_def durations)
qed


lemma sample_undisturbed: "undisturbed (se_sql sample_env)"
  by (simp add: sample_env_def undisturbed_def quiet_env_def)

lemma sample_same_kms: "same_kms sample_env sample_env"
  by (simp add: same_kms_def sample_env_def sample_kms_def)

lemma sample_clock_ok: "clock_ok sample_env"
  by (simp add: clock_ok_def sample_env_def sample_slot) (simp add: Second_def)

lemma sample_membership:
  "\<exists>m. ValidateMembership (se_member sample_env) n u g = Inr m \<and> mb_Valid m \<and> mb_Status m = ''ACTIVE''"
  by (simp add: sample_env_def ValidateMembership_def)

text \<open>A new request for the gym's payload of version 1, in any state that still accepts that key.\<close>

lemma sample_scan_record:
  assumes "svc_inv sample_env A s" and "tb_check_ins (cn_tables (sv_conn s)) = []" and "tb_outbox (cn_tables (sv_conn s)) = []"
    and "find (is_version sample_gym 1) (tb_keys (cn_tables (sv_conn s))) = Some row"
    and "kr_key_reference row = ''arn''" and "kr_key_ciphertext row = Std_encode (bytes_of ''arn'' @ sample_secret)"
    and "IsAcceptableAt (root_key_of row) (150 * Second)"
  shows "\<exists>rec event t. Scan sample_env ''u1'' sample_gym (sample_payload sample_secret) ''i1'' s = (Inr rec, t)
    \<and> sv_shared t = recorded (sq_ts quiet_env) rec (fingerprint sample_gym (sample_payload sample_secret)) ''i1'' event (sv_shared s)
    \<and> event_for rec event \<and> ci_CheckedInAt rec = 150 * Second"
proof -
  obtain t where t: "sv_shared t = sv_shared s" "Scan sample_env ''u1'' sample_gym (sample_payload sample_secret) ''i1'' s
      = scan_record sample_env ''u1'' sample_q (fingerprint sample_gym (sample_payload sample_secret)) ''i1'' t"
    by (rule Scan_unknown [OF sample_undisturbed assms(1), of "''u1''" "''i1''" "sample_payload sample_secret" sample_q
          sample_gym row sample_secret])
      (use assms sample_parsed sample_decrypt sample_verified in
        \<open>simp_all add: request_entry_def sample_env_def signed_def sample_secret_def\<close>)
  have "\<exists>rec event u. scan_record sample_env ''u1'' sample_q (fingerprint sample_gym (sample_payload sample_secret)) ''i1'' t = (Inr rec, u)
    \<and> sv_shared u = recorded (sq_ts (se_sql sample_env)) rec (fingerprint sample_gym (sample_payload sample_secret)) ''i1'' event (sv_shared t)
    \<and> event_for rec event \<and> ci_UserID rec = ''u1'' \<and> ci_GymID rec = qr_GymID sample_q \<and> (\<exists>k. ci_CheckedInAt rec = se_clock sample_env k)"
    by (rule scan_record_succeeds [OF sample_undisturbed])
      (use assms t(1) sample_membership in \<open>simp_all add: request_entry_def\<close>, simp add: sample_env_def)
  with t show ?thesis
    by (auto simp: sample_env_def)
qed

lemma sample_rows:
  "tb_check_ins (cn_tables (sv_conn sample_svc)) = []" "tb_outbox (cn_tables (sv_conn sample_svc)) = []"
  "find (is_version sample_gym 1) (tb_keys (cn_tables (sv_conn sample_svc))) = Some sample_row"
  "kr_key_reference sample_row = ''arn''" "kr_key_ciphertext sample_row = Std_encode (bytes_of ''arn'' @ sample_secret)"
  "IsAcceptableAt (root_key_of sample_row) (150 * Second)"
  by (simp_all add: sample_svc_def NewService_def sample_row_def is_version_def root_key_of_simps)

lemma sample_scan: "\<exists>rec t. Scan sample_env ''u1'' sample_gym (sample_payload sample_secret) ''i1'' sample_svc = (Inr rec, t)"
  using sample_scan_record [OF sample_inv sample_rows] by blast

lemma sample_signs: "at \<in> {120 * Second, 120 * Second + QRSlotDuration} \<Longrightarrow> \<exists>p. SignQR sample_uuid sample_gym 1 at sample_secret = Inr p"
  by (auto simp: SignQR_Inr sample_gym_canonical slot_at_pos sample_secret_def QRSlotDuration_def durations)

lemma sample_display:
  "\<exists>dp t. Display sample_env sample_gym sample_svc = (Inr dp, t) \<and> sv_conn t = arrive quiet_env (sv_conn sample_svc)"
proof -
  let ?u = "sample_svc\<lparr>sv_tick := 1, sv_conn := arrive quiet_env (sv_conn sample_svc)\<rparr>" and ?k = "root_key_of sample_row"
  have cur: "CurrentKey quiet_env sample_gym (sv_conn sample_svc) = (Inr (Some ?k), arrive quiet_env (sv_conn sample_svc))"
    by (simp add: CurrentKey_def find_key_Inr quiet_env_def sample_svc_def NewService_def sample_row_def is_current_def)
  have "fst (key_of sample_env ?k ?u) \<noteq> Inl e" for e
    by (rule key_of_answers [where bs = sample_secret]) (use sample_decrypt in \<open>simp_all add: sample_env_def sample_row_def root_key_of_def sample_secret_def\<close>)
  then obtain a w where w: "key_of sample_env ?k ?u = (Inr a, w)"
    by (metis prod.collapse sum.exhaust)
  have "svc_inv sample_env {} ?u" "stored_key (sv_shared ?u) ?k"
    using arrive_inv [OF sample_rely sample_inv] CurrentKey_stored [OF rely_quiet sample_sys_inv cur]
    by (simp_all add: sample_env_def svc_inv_def)
  then have "opens sample_env ?k (deref (sv_mem w) a)" and conn: "sv_conn w = arrive quiet_env (sv_conn sample_svc)"
    using key_of_inv(3) [OF _ _ w refl] key_of_inv(1) [OF _ _ w] by simp_all
  then have "deref (sv_mem w) a = sample_secret"
    using sample_decrypt by (simp add: opens_def sample_env_def root_key_of_def sample_row_def)
  moreover obtain p1 p2 where "SignQR sample_uuid sample_gym 1 (120 * Second) sample_secret = Inr p1"
    "SignQR sample_uuid sample_gym 1 (120 * Second + QRSlotDuration) sample_secret = Inr p2"
    using sample_signs by blast
  moreover have "callE (\<lambda>n. ValidateCheckInGym (se_plans sample_env) n sample_gym) sample_svc
      = (Inr \<lparr>gy_ID = sample_gym, gy_Status = ''ACTIVE''\<rparr>, sample_svc\<lparr>sv_tick := 1\<rparr>)"
    by (simp add: ask_run sample_env_def ValidateCheckInGym_def sample_svc_def NewService_def)
  moreover have "currentKey sample_env sample_gym (sample_svc\<lparr>sv_tick := 1\<rparr>) = (Inr ?k, ?u)"
    using cur by (simp add: currentKey_def bindE_def storeE_def zoomE_def sample_env_def)
  moreover have "rk_Version ?k = 1" "gdiv (Unix (se_clock sample_env n)) 60 = 2" "se_uuid sample_env = sample_uuid" for n
    using sample_slot by (simp_all add: root_key_of_def sample_row_def sample_env_def slot_at_def)
  ultimately show ?thesis
    using w conn sample_slot(3)
    by (simp add: Display_def bindE_def deferE_def Now_def askE_def memE_def Let_def)
qed

theorem scan_sound_witness:
  "\<exists>rec t. Scan sample_env ''u1'' sample_gym (sample_payload sample_secret) ''i1'' sample_svc = (Inr rec, t)
    \<and> (\<exists>q row bs m k membership. ParseSignedQR sample_uuid (sample_payload sample_secret) = Inr q
       \<and> find (is_version sample_gym (uint (qr_KeyVersion q))) [sample_row] = Some row \<and> kr_status row = RootKeyCurrent
       \<and> opens sample_env (root_key_of row) bs \<and> VerifyQR q bs (se_clock sample_env m)
       \<and> ValidateMembership (se_member sample_env) k ''u1'' sample_gym = Inr membership)"
proof -
  obtain rec t where run: "Scan sample_env ''u1'' sample_gym (sample_payload sample_secret) ''i1'' sample_svc = (Inr rec, t)"
    using sample_scan by blast
  have new: "request_entry (cn_shared (arrive (se_sql sample_env) (sv_conn sample_svc))) (''u1'', ''i1'') = None"
    "se_uuid sample_env = sample_uuid"
    "tb_keys (cn_tables (arrive (se_sql sample_env) (arrive (se_sql sample_env) (sv_conn sample_svc)))) = [sample_row]"
    by (simp_all add: sample_env_def quiet_env_def sample_svc_def NewService_def request_entry_def)
  have "kr_status row = RootKeyCurrent" if "find p [sample_row] = Some row" for p row
    using that by (auto simp: sample_row_def split: if_splits)
  with scan_sound [OF sample_rely sample_inv run] show ?thesis
    unfolding new run by blast
qed

theorem scan_exactly_once_witness:
  "\<exists>rec t rec' t'. Scan sample_env ''u1'' sample_gym (sample_payload sample_secret) ''i1'' sample_svc = (Inr rec, t)
    \<and> Scan sample_env ''u1'' sample_gym (sample_payload sample_secret) ''i1'' t = (Inr rec', t')
    \<and> rec' = rec\<lparr>ci_CheckedInAt := ci_CheckedInAt rec'\<rparr>"
proof -
  obtain rec t where run: "Scan sample_env ''u1'' sample_gym (sample_payload sample_secret) ''i1'' sample_svc = (Inr rec, t)"
    using sample_scan by blast
  obtain r t' where again: "Scan sample_env ''u1'' sample_gym (sample_payload sample_secret) ''i1'' t = (r, t')"
    by fastforce
  have "sq_outcome (se_sql sample_env) n = Done" for n
    using sample_undisturbed by (simp add: undisturbed_def)
  from scan_exactly_once [OF sample_rely sample_rely refl sample_inv run moves_refl again this] show ?thesis
    using run again by auto
qed

theorem scan_succeeds_witness:
  "\<exists>rec event t. Scan sample_env ''u1'' sample_gym (sample_payload sample_secret) ''i1'' sample_svc = (Inr rec, t)
    \<and> sv_shared t = recorded (sq_ts quiet_env) rec (fingerprint sample_gym (sample_payload sample_secret)) ''i1'' event
        (sv_shared sample_svc)"
proof -
  have "\<exists>rec event t. Scan sample_env ''u1'' sample_gym (sample_payload sample_secret) ''i1'' sample_svc = (Inr rec, t)
    \<and> sv_shared t = recorded (sq_ts (se_sql sample_env)) rec (fingerprint sample_gym (sample_payload sample_secret)) ''i1'' event
        (sv_shared sample_svc) \<and> event_for rec event \<and> ci_UserID rec = ''u1'' \<and> ci_GymID rec = sample_gym \<and> (\<exists>k. ci_CheckedInAt rec = se_clock sample_env k)"
    by (rule scan_succeeds [OF sample_undisturbed sample_inv, where q = sample_q and row = sample_row and bs = sample_secret])
      (use sample_rows sample_membership sample_parsed sample_decrypt sample_verified in
        \<open>simp_all add: sample_env_def request_entry_def signed_def sample_secret_def\<close>)
  then show ?thesis
    by (auto simp: sample_env_def)
qed

theorem displayed_accepted_witness:
  "\<exists>dp t q t'. Display sample_env sample_gym sample_svc = (Inr dp, t) \<and> ParseSignedQR sample_uuid (dp_Current dp) = Inr q
     \<and> scan_check sample_env (dp_GymID dp) (dp_Current dp) t = (Inr q, t')"
proof -
  obtain dp t where dp: "Display sample_env sample_gym sample_svc = (Inr dp, t)"
    and t: "sv_conn t = arrive quiet_env (sv_conn sample_svc)"
    using sample_display by blast
  obtain r t' where run: "scan_check sample_env (dp_GymID dp) (dp_Current dp) t = (r, t')"
    by fastforce
  note display = Display_inv [OF sample_rely sample_inv dp]
  have "dp_CurrentActiveAt dp = 120 * Second"
    using display(2) [OF refl] sample_slot by (auto simp: sample_env_def)
  then have "\<exists>q key bs. ParseSignedQR (se_uuid sample_env) (dp_Current dp) = Inr q \<and> qr_GymID q = dp_GymID dp
    \<and> FindKey (se_sql sample_env) (dp_GymID dp) (qr_KeyVersion q) (sv_conn t) = (Inr (Some key), arrive (se_sql sample_env) (sv_conn t))
    \<and> opens sample_env key bs
    \<and> (IsAcceptableAt key (se_clock sample_env (sv_tick t)) \<longrightarrow> r = Inr q \<or> r = Inl kms_unavailable
        \<and> (\<exists>n e. sv_tick t \<le> n \<and> n < sv_tick t' \<and> Decrypt (se_kms sample_env) n (se_protector sample_env)
            (rk_KeyReference key) (rk_Ciphertext key) = Inl e))"
    by (intro displayed_accepted [OF sample_rely sample_rely refl _ refl sample_same_kms sample_clock_ok sample_inv display(1) dp
          _ moves_refl run, where at = "120 * Second"])
      (use sample_uuid_text in \<open>simp_all add: sample_env_def quiet_env_def QRSlotDuration_def durations\<close>)
  then obtain q key bs where q: "ParseSignedQR sample_uuid (dp_Current dp) = Inr q"
    and fk: "FindKey quiet_env (dp_GymID dp) (qr_KeyVersion q) (sv_conn t) = (Inr (Some key), arrive quiet_env (sv_conn t))"
    and key: "opens sample_env key bs" and r: "IsAcceptableAt key (150 * Second) \<longrightarrow> r = Inr q \<or> r = Inl kms_unavailable
        \<and> (\<exists>n e. Decrypt sample_kms n sample_protector (rk_KeyReference key) (rk_Ciphertext key) = Inl e)"
    unfolding sample_fields by blast
  have "tb_keys (cn_tables (arrive quiet_env (sv_conn t))) = [sample_row]"
    unfolding t by (simp add: quiet_env_def sample_svc_def NewService_def)
  then have "key = root_key_of sample_row"
    using FindKey_Inr [OF fk] by (auto split: if_splits)
  with r sample_decrypt have "r = Inr q"
    by (simp add: sample_row_def root_key_of_def IsAcceptableAt_def)
  with dp q run show ?thesis
    by blast
qed

definition failing_env :: svc_env where
  "failing_env = sample_env\<lparr>se_sql := quiet_env\<lparr>sq_outcome := \<lambda>n. if n = 1 then Failed (Foreign ''connection reset'') else Done\<rparr>\<rparr>"

theorem find_failure_hidden_witness:
  "fst (Scan failing_env ''u1'' sample_gym (sample_payload sample_secret) ''i1'' sample_svc) = Inl invalid_qr"
  by (rule find_failure_hidden [where q = sample_q and e = "Foreign ''connection reset''"])
    (use sample_parsed in \<open>simp_all add: failing_env_def sample_env_def quiet_env_def sample_svc_def NewService_def request_entry_def signed_def\<close>)

theorem daily_count_day_witness:
  "fst (service_DailyCount sample_env ''g'' ''2024-02-29'' sample_svc) = Inr 0 \<and>
     service_DailyCount sample_env ''g'' ''2023-02-29'' sample_svc = (Inl invalid_date, sample_svc)"
proof -
  have ts: "sq_ts (se_sql sample_env) t = t" if "1000 dvd t" for t
    using that by (simp add: sample_env_def quiet_env_def)
  have "parse_date ''2023-02-29'' = None"
    by code_simp
  with daily_count_day [OF ts, of "''g''" "''2023-02-29''" sample_svc 0]
  have "service_DailyCount sample_env ''g'' ''2023-02-29'' sample_svc = (Inl invalid_date, sample_svc)"
    by (simp del: parse_date.simps)
  moreover have "fst (service_DailyCount sample_env ''g'' ''2024-02-29'' sample_svc) = Inr 0"
    by code_simp
  ultimately show ?thesis
    by blast
qed

end
