(* ===== verification/Handler.thy ===== *)
theory Handler
  imports Requests
begin

text \<open>
  \<open>internal/adapter/grpc\<close>: the gRPC handler, the registry of methods and the check of the peer's certificate.
  The generated request and response types are records of the fields the handler uses; what
  \<open>auth.FromContext\<close> finds in a request's context is the context, \<open>timestamppb.New\<close> is the parameter \<open>T\<close>, and
  \<open>x509.ParseCertificate\<close> is a parameter of the certificate check.  \<open>page\<close> and \<open>limit\<close> arrive as \<open>int32\<close>, totals
  leave as \<open>int32\<close>.
\<close>

section \<open>Messages\<close>

type_synonym timestamp = "int \<times> int"

record Claims =
  cl_UserID :: string

type_synonym request_context = "Claims option"

record CheckInRecordMessage =
  cm_Id :: string
  cm_MemberId :: string
  cm_GymId :: string
  cm_CheckedInAt :: timestamp

record ProcessScanRequest =
  ps_GymId :: string
  ps_QrPayload :: string
  ps_IdempotencyKey :: string

record ProcessScanResponse =
  pr_Success :: bool
  pr_Message :: string
  pr_Record :: CheckInRecordMessage

record HistoryResponse =
  hr_Records :: "CheckInRecordMessage list"
  hr_Total :: int

record GetDailyCountResponse =
  dc_GymId :: string
  dc_Date :: string
  dc_Count :: int

record SignedQrPayload =
  sp_QrPayload :: string
  sp_ActiveAt :: timestamp
  sp_ExpiresAt :: timestamp

record GetDisplayQrPayloadResponse =
  gd_GymId :: string
  gd_Current :: SignedQrPayload
  gd_Next :: SignedQrPayload
  gd_SlotDurationSeconds :: int

record RotateGymQrRootKeyResponse =
  rr_GymId :: string
  rr_KeyVersion :: u64
  rr_ActivatedAt :: timestamp

section \<open>The handler\<close>

definition authentication_required :: err where
  "authentication_required = Categorized CategoryUnauthorized ''AUTHENTICATION_REQUIRED'' ''authentication is required''"

definition claims_of :: "request_context \<Rightarrow> err + Claims" where
  "claims_of ctx = (case ctx of None \<Rightarrow> Inl authentication_required | Some c \<Rightarrow> Inr c)"

definition recordResponse :: "(time \<Rightarrow> timestamp) \<Rightarrow> CheckInRecord \<Rightarrow> CheckInRecordMessage" where
  "recordResponse T r = \<lparr>cm_Id = ci_ID r, cm_MemberId = ci_MemberID r, cm_GymId = ci_GymID r, cm_CheckedInAt = T (ci_CheckedInAt r)\<rparr>"

definition ProcessScan ::
  "(time \<Rightarrow> timestamp) \<Rightarrow> svc_env \<Rightarrow> request_context \<Rightarrow> ProcessScanRequest \<Rightarrow> (svc, ProcessScanResponse) op" where
  "ProcessScan T E ctx request =
     bindE (liftE (claims_of ctx)) (\<lambda>c.
     bindE (Scan E (cl_UserID c) (ps_GymId request) (ps_QrPayload request) (ps_IdempotencyKey request)) (\<lambda>r.
       returnE \<lparr>pr_Success = True, pr_Message = ''Check-in recorded'', pr_Record = recordResponse T r\<rparr>))"

definition GetMyCheckInHistory ::
  "(time \<Rightarrow> timestamp) \<Rightarrow> svc_env \<Rightarrow> request_context \<Rightarrow> int \<Rightarrow> int \<Rightarrow> (svc, HistoryResponse) op" where
  "GetMyCheckInHistory T E ctx page limit =
     bindE (liftE (claims_of ctx)) (\<lambda>c.
     bindE (MyHistory E (cl_UserID c) page limit) (\<lambda>(records, n).
       returnE \<lparr>hr_Records = map (recordResponse T) records, hr_Total = int32 n\<rparr>))"

definition GetMemberCheckInHistory ::
  "(time \<Rightarrow> timestamp) \<Rightarrow> svc_env \<Rightarrow> string \<Rightarrow> int \<Rightarrow> int \<Rightarrow> (svc, HistoryResponse) op" where
  "GetMemberCheckInHistory T E memberId page limit =
     bindE (MemberHistory E memberId page limit) (\<lambda>(records, n).
       returnE \<lparr>hr_Records = map (recordResponse T) records, hr_Total = int32 n\<rparr>)"

definition GetDailyCount :: "svc_env \<Rightarrow> string \<Rightarrow> string \<Rightarrow> (svc, GetDailyCountResponse) op" where
  "GetDailyCount E gymId date =
     bindE (service_DailyCount E gymId date) (\<lambda>n.
       returnE \<lparr>dc_GymId = gymId, dc_Date = date, dc_Count = int32 n\<rparr>)"

definition GetDisplayQrPayload ::
  "(time \<Rightarrow> timestamp) \<Rightarrow> svc_env \<Rightarrow> string \<Rightarrow> (svc, GetDisplayQrPayloadResponse) op" where
  "GetDisplayQrPayload T E gymId =
     bindE (Display E gymId) (\<lambda>p.
       returnE \<lparr>gd_GymId = dp_GymID p,
         gd_Current = \<lparr>sp_QrPayload = dp_Current p, sp_ActiveAt = T (dp_CurrentActiveAt p), sp_ExpiresAt = T (dp_CurrentExpiresAt p)\<rparr>,
         gd_Next = \<lparr>sp_QrPayload = dp_Next p, sp_ActiveAt = T (dp_NextActiveAt p), sp_ExpiresAt = T (dp_NextExpiresAt p)\<rparr>,
         gd_SlotDurationSeconds = dp_SlotDurationSeconds p\<rparr>)"

definition RotateGymQrRootKey ::
  "(time \<Rightarrow> timestamp) \<Rightarrow> svc_env \<Rightarrow> string \<Rightarrow> bool \<Rightarrow> (svc, RotateGymQrRootKeyResponse) op" where
  "RotateGymQrRootKey T E gymId emergency =
     bindE (Rotate E gymId emergency) (\<lambda>r.
       returnE \<lparr>rr_GymId = ro_GymID r, rr_KeyVersion = ro_KeyVersion r, rr_ActivatedAt = T (ro_ActivatedAt r)\<rparr>)"

section \<open>The registry\<close>

datatype full_method = CheckInService_ProcessScan | CheckInService_GetMyCheckInHistory | CheckInService_GetMemberCheckInHistory
  | CheckInService_GetDailyCount | CheckInService_GetDisplayQrPayload | CheckInService_RotateGymQrRootKey

datatype role = RoleCustomer | RoleSuperAdmin

datatype method_kind = MethodRoleRestricted

record MethodRule =
  mr_Method :: full_method
  mr_Kind :: method_kind
  mr_Roles :: "role list"

definition MethodRules :: "MethodRule list" where
  "MethodRules =
     [\<lparr>mr_Method = CheckInService_ProcessScan, mr_Kind = MethodRoleRestricted, mr_Roles = [RoleCustomer]\<rparr>,
      \<lparr>mr_Method = CheckInService_GetMyCheckInHistory, mr_Kind = MethodRoleRestricted, mr_Roles = [RoleCustomer]\<rparr>,
      \<lparr>mr_Method = CheckInService_GetMemberCheckInHistory, mr_Kind = MethodRoleRestricted, mr_Roles = [RoleSuperAdmin]\<rparr>,
      \<lparr>mr_Method = CheckInService_GetDailyCount, mr_Kind = MethodRoleRestricted, mr_Roles = [RoleSuperAdmin]\<rparr>,
      \<lparr>mr_Method = CheckInService_GetDisplayQrPayload, mr_Kind = MethodRoleRestricted, mr_Roles = [RoleSuperAdmin]\<rparr>,
      \<lparr>mr_Method = CheckInService_RotateGymQrRootKey, mr_Kind = MethodRoleRestricted, mr_Roles = [RoleSuperAdmin]\<rparr>]"

definition PublicMethods :: "full_method list" where
  "PublicMethods = []"

section \<open>The peer's certificate\<close>

record certificate =
  ce_DNSNames :: "string list"
  ce_URIs :: "string list"

definition generatedGatewaySANs :: "string list" where
  "generatedGatewaySANs = [''ms-gym-api-gateway'', ''spiffe://gym.cluster.local/ns/default/sa/ms-gym-api-gateway'',
     ''spiffe://gym.cluster.local/ns/gym-system/sa/ms-gym-api-gateway'']"

definition VerifyGeneratedGateway :: "(bytes \<Rightarrow> err + certificate) \<Rightarrow> bytes list \<Rightarrow> err + unit" where
  "VerifyGeneratedGateway parse rawCerts =
     (case rawCerts of
        [] \<Rightarrow> Inl (Errorf ''missing client certificate'')
      | raw # _ \<Rightarrow>
          (case parse raw of
             Inl e \<Rightarrow> Inl e
           | Inr certificate \<Rightarrow>
               if find (\<lambda>name. ToLower name \<in> set generatedGatewaySANs) (ce_DNSNames certificate) \<noteq> None then Inr ()
               else if find (\<lambda>uri. uri \<in> set generatedGatewaySANs) (ce_URIs certificate) \<noteq> None then Inr ()
               else Inl (Errorf ''client certificate is not generated gateway'')))"

section \<open>Properties\<close>

text \<open>C22: A caller's history is the caller's: for the \<open>int32\<close> page and limit of a request, GetMyCheckInHistory answers an
  unauthenticated request and a negative page with their errors and otherwise returns exactly the page of the
  caller's check-ins, newest first, that page and limit name, 50 to a page if no limit is given; the offset never
  wraps, and the total is the number of the caller's check-ins while that fits in 31 bits.\<close>

theorem my_history:
  assumes page: "page \<in> {- (2 ^ 31)..<2 ^ 31}" and limit: "limit \<in> {- (2 ^ 31)..<2 ^ 31}"
    and run: "GetMyCheckInHistory T E ctx page limit s = (r, t)"
  shows "case (ctx, r) of
      (None, _) \<Rightarrow> r = Inl authentication_required \<and> t = s
    | (Some c, Inl e) \<Rightarrow> page < 0 \<longrightarrow> e = invalid_page \<and> t = s
    | (Some c, Inr response) \<Rightarrow> 0 \<le> page \<and>
        (let n = (if limit \<le> 0 then 50 else nat limit);
             before = history (se_sql E) cr_user_id (cl_UserID c) (tb_check_ins (sh_tables (sv_shared t)));
             counted = history (se_sql E) cr_user_id (cl_UserID c) (tb_check_ins (cn_tables (arrive (se_sql E) (sv_conn s))))
         in hr_Records response = map (recordResponse T) (take n (drop (nat page * n) before))
            \<and> (length counted < 2 ^ 31 \<longrightarrow> hr_Total response = int (length counted)))"
proof (cases ctx)
  case None
  then show ?thesis
    using run by (auto simp: GetMyCheckInHistory_def claims_of_def bindE_def)
next
  case (Some c)
  show ?thesis
  proof (cases "page < 0")
    case True
    then show ?thesis
      using run Some by (auto simp: GetMyCheckInHistory_def claims_of_def bindE_def MyHistory_def)
  next
    case False
    let ?l = "paginationLimit limit"
    have l: "0 \<le> ?l" "?l < 2 ^ 31" "nat ?l = (if limit \<le> 0 then 50 else nat limit)"
      using limit by (simp_all add: paginationLimit_def)
    have "page * ?l \<le> page * 2 ^ 31"
      using False l(2) by (intro mult_left_mono) simp_all
    also have "\<dots> \<le> 2 ^ 31 * 2 ^ 31"
      using page by (intro mult_right_mono) simp_all
    finally have small: "page * ?l < 2 ^ 63"
      by simp
    show ?thesis
    proof (cases r)
      case (Inl e)
      with Some False show ?thesis
        by simp
    next
      case (Inr response)
      obtain records n d where list: "list_where (se_sql E) cr_user_id (cl_UserID c) page ?l (sv_conn s) = (Inr (records, n), d)"
        and t: "sv_conn t = d" and resp: "response = \<lparr>hr_Records = map (recordResponse T) records, hr_Total = int32 n\<rparr>"
        using run Some False Inr
        by (auto simp: GetMyCheckInHistory_def claims_of_def MyHistory_def bindE_Inr storeE_run ListByUser_def)
      note page = list_where_Inr [OF list _ l(1) small]
      show ?thesis
        using Some Inr False page resp t l(3) by (simp add: Let_def int32_id)
    qed
  qed
qed

text \<open>A scan that is answered with success was made by an authenticated caller, and the response describes the check-in
  that is stored for that caller under the request's idempotency key, recorded for the same gym and payload.\<close>

lemma process_scan_recorded:
  assumes "ProcessScan T E ctx request s = (Inr response, t)"
  shows "\<exists>c row. ctx = Some c \<and> request_entry (sv_shared t) (cl_UserID c, ps_IdempotencyKey request) = Some row
    \<and> cr_request_fingerprint row = fingerprint (ps_GymId request) (ps_QrPayload request)
    \<and> pr_Success response \<and> cm_Id (pr_Record response) = cr_checkin_id row
    \<and> cm_MemberId (pr_Record response) = cr_member_id row \<and> cm_GymId (pr_Record response) = cr_gym_id row"
proof -
  obtain c r where c: "ctx = Some c" "response = \<lparr>pr_Success = True, pr_Message = ''Check-in recorded'', pr_Record = recordResponse T r\<rparr>"
    and run: "Scan E (cl_UserID c) (ps_GymId request) (ps_QrPayload request) (ps_IdempotencyKey request) s = (Inr r, t)"
    using assms by (cases ctx) (auto simp: ProcessScan_def claims_of_def bindE_Inr)
  from run obtain row where row: "request_entry (sv_shared t) (cl_UserID c, ps_IdempotencyKey request) = Some row"
    "cr_request_fingerprint row = fingerprint (ps_GymId request) (ps_QrPayload request)"
    "record_of (cl_UserID c) row = r\<lparr>ci_CheckedInAt := cr_checked_in_at row\<rparr>"
    by (rule Scan_recorded)
  have "ci_ID r = cr_checkin_id row" "ci_MemberID r = cr_member_id row" "ci_GymID r = cr_gym_id row"
    using arg_cong [OF row(3), of ci_ID] arg_cong [OF row(3), of ci_MemberID] arg_cong [OF row(3), of ci_GymID]
    by (simp_all add: record_of_def)
  with c row show ?thesis
    by (auto simp: recordResponse_def)
qed

text \<open>No method is public and every method has exactly one rule; customers may call the two methods that act for the
  caller alone, and only administrators may read others' histories and counts, display payloads and rotate keys.\<close>

lemma methods_restricted:
  "PublicMethods = [] \<and> length (filter (\<lambda>r. mr_Method r = m) MethodRules) = 1
   \<and> (case find (\<lambda>r. mr_Method r = m) MethodRules of
        None \<Rightarrow> False
      | Some r \<Rightarrow> mr_Kind r = MethodRoleRestricted
          \<and> mr_Roles r = (if m = CheckInService_ProcessScan \<or> m = CheckInService_GetMyCheckInHistory then [RoleCustomer] else [RoleSuperAdmin]))"
  by (cases m) (simp_all add: PublicMethods_def MethodRules_def)

text \<open>Only the peer's own certificate, the first of the chain, counts; its DNS names are compared in lower case, its URIs as
  they are.\<close>

lemma VerifyGeneratedGateway_Inr:
  "VerifyGeneratedGateway parse rawCerts = Inr () \<longleftrightarrow> (\<exists>raw chain c. rawCerts = raw # chain \<and> parse raw = Inr c
     \<and> (\<exists>name \<in> ToLower ` set (ce_DNSNames c) \<union> set (ce_URIs c). name \<in> set generatedGatewaySANs))"
  by (cases rawCerts) (auto simp: VerifyGeneratedGateway_def find_None_iff split: sum.splits)

section \<open>Concrete requests\<close>

theorem my_history_witness:
  "\<exists>response. fst (GetMyCheckInHistory (\<lambda>t. (t, 0)) sample_env (Some \<lparr>cl_UserID = ''u1''\<rparr>) 0 0 sample_svc) = Inr response
     \<and> hr_Total response = 0"
proof -
  let ?run = "GetMyCheckInHistory (\<lambda>t. (t, 0)) sample_env (Some \<lparr>cl_UserID = ''u1''\<rparr>) 0 0 sample_svc"
  have "fst ?run = Inr \<lparr>hr_Records = [], hr_Total = 0\<rparr>"
    by code_simp
  then show ?thesis
    using my_history [of 0 0, OF _ _ surjective_pairing, of "\<lambda>t. (t, 0)" sample_env "Some \<lparr>cl_UserID = ''u1''\<rparr>" sample_svc]
    by simp
qed

end
