(* ===== verification/GoDuration.thy ===== *)
theory GoDuration
  imports GoStrings GoTime
begin

text \<open>
  \<open>time.ParseDuration\<close> of Go's standard library, as \<open>internal/config/config.go\<close> uses it: an optional sign and
  then groups of a decimal number, possibly with a fraction, and a unit.  The fraction is computed in
  \<open>float64\<close>: \<open>fl\<close> rounds a fraction of positive integers to 53 significant bits, ties to even.  The sum is a \<open>uint64\<close>.
\<close>

section \<open>Rounding\<close>

text \<open>The exponent of the leading bit of a positive integer.\<close>

function log2 :: "int \<Rightarrow> int" where
  "log2 n = (if n < 2 then 0 else 1 + log2 (n div 2))"
  by pat_completeness auto

termination
  by (relation "measure nat") auto

declare log2.simps [simp del]

definition round_even :: "int \<Rightarrow> int \<Rightarrow> int" where
  "round_even n d = (if 2 * (n mod d) < d \<or> 2 * (n mod d) = d \<and> even (n div d) then n div d else n div d + 1)"

definition scaled :: "int \<Rightarrow> int \<times> int \<Rightarrow> int \<times> int" where
  "scaled k pq = (if 0 \<le> k then (fst pq * 2 ^ nat k, snd pq) else (fst pq, snd pq * 2 ^ nat (- k)))"

definition fl :: "int \<times> int \<Rightarrow> int \<times> int" where
  "fl pq =
     (if fst pq = 0 then (0, 1)
      else let k = 52 - (log2 (fst pq) - log2 (snd pq));
               k = (if fst (scaled k pq) div snd (scaled k pq) < 2 ^ 52 then k + 1 else k);
               m = round_even (fst (scaled k pq)) (snd (scaled k pq))
           in if 0 \<le> k then (m, 2 ^ nat k) else (m * 2 ^ nat (- k), 1))"

text \<open>\<open>uint64(float64(f) * (float64(unit) / scale))\<close>.\<close>

definition fraction_of :: "int \<Rightarrow> int \<Rightarrow> int \<Rightarrow> int" where
  "fraction_of f unit scale =
     (let a = fl (f, 1); b = fl (unit, scale); c = fl (fst a * fst b, snd a * snd b) in fst c div snd c)"

section \<open>Parsing\<close>

fun leadingInt :: "int \<Rightarrow> string \<Rightarrow> (int \<times> string) option" where
  "leadingInt x [] = Some (x, [])"
| "leadingInt x (c # s) =
     (case digit_val c of
        None \<Rightarrow> Some (x, c # s)
      | Some d \<Rightarrow>
          if 2 ^ 63 div 10 < x then None
          else if 2 ^ 63 < x * 10 + int d then None
          else leadingInt (x * 10 + int d) s)"

text \<open>The digits after the point; once they overflow they are only skipped.\<close>

fun leadingFraction :: "int \<Rightarrow> int \<Rightarrow> bool \<Rightarrow> string \<Rightarrow> int \<times> int \<times> string" where
  "leadingFraction x scale overflow [] = (x, scale, [])"
| "leadingFraction x scale overflow (c # s) =
     (case digit_val c of
        None \<Rightarrow> (x, scale, c # s)
      | Some d \<Rightarrow>
          if overflow \<or> (2 ^ 63 - 1) div 10 < x \<or> 2 ^ 63 < x * 10 + int d then leadingFraction x scale True s
          else leadingFraction (x * 10 + int d) (scale * 10) False s)"

definition number_char :: "char \<Rightarrow> bool" where
  "number_char c \<longleftrightarrow> c = CHR ''.'' \<or> digit_val c \<noteq> None"

definition unit_of :: "string \<Rightarrow> int option" where
  "unit_of u = map_of
     [(''ns'', 1), (''us'', 1000), ([CHR 0xC2, CHR 0xB5, CHR ''s''], 1000), ([CHR 0xCE, CHR 0xBC, CHR ''s''], 1000),
      (''ms'', 1000000), (''s'', 1000000000), (''m'', 60000000000), (''h'', 3600000000000)] u"

text \<open>One number with its unit.\<close>

definition parse_group :: "string \<Rightarrow> (int \<times> string) option" where
  "parse_group s =
     (if s = [] \<or> \<not> number_char (hd s) then None
      else Option.bind (leadingInt 0 s) (\<lambda>(v, r).
        let pre = (length r \<noteq> length s);
            (f, scale, t) = (if r \<noteq> [] \<and> hd r = CHR ''.'' then leadingFraction 0 1 False (tl r) else (0, 1, r));
            post = (r \<noteq> [] \<and> hd r = CHR ''.'' \<and> length t \<noteq> length (tl r));
            u = takeWhile (\<lambda>c. \<not> number_char c) t
        in if \<not> pre \<and> \<not> post then None
           else if u = [] then None
           else Option.bind (unit_of u) (\<lambda>unit.
             if 2 ^ 63 div unit < v then None
             else let w = (if 0 < f then v * unit + fraction_of f unit scale else v * unit)
                  in if 2 ^ 63 < w then None else Some (w, dropWhile (\<lambda>c. \<not> number_char c) t))))"

lemma leadingInt_shorter: "leadingInt x s = Some (v, r) \<Longrightarrow> length r \<le> length s"
  by (induction x s rule: leadingInt.induct) (auto split: option.splits if_splits)

lemma leadingFraction_shorter: "leadingFraction x scale ov s = (f, scale', r) \<Longrightarrow> length r \<le> length s"
  by (induction x scale ov s rule: leadingFraction.induct) (auto split: option.splits if_splits)

lemma parse_group_shorter: "parse_group s = Some (w, r) \<Longrightarrow> length r < length s"
proof -
  have unit: "length (dropWhile P t) < length t" if "takeWhile P t \<noteq> []" for P and t :: string
    using that by (cases t) (auto simp: less_Suc_eq_le length_dropWhile_le split: if_splits)
  have drop: "length (dropWhile (\<lambda>c. \<not> number_char c) t) < length s"
    if "takeWhile (\<lambda>c. \<not> number_char c) t \<noteq> []" "length t \<le> length s" for t
    using unit [OF that(1)] that(2) by simp
  assume "parse_group s = Some (w, r)"
  then show ?thesis
    by (auto simp: parse_group_def Let_def bind_eq_Some_conv split: if_splits prod.splits
        dest!: leadingInt_shorter leadingFraction_shorter intro!: drop)
qed

function parse_groups :: "int \<Rightarrow> string \<Rightarrow> int option" where
  "parse_groups d s =
     (if s = [] then Some d
      else case parse_group s of
             None \<Rightarrow> None
           | Some (w, r) \<Rightarrow>
               let d' = (d + w) mod 2 ^ 64 in if 2 ^ 63 < d' then None else parse_groups d' r)"
  by pat_completeness auto

termination
  by (relation "measure (\<lambda>(d, s). length s)") (auto dest: parse_group_shorter)

declare parse_groups.simps [simp del]

definition ParseDuration :: "string \<Rightarrow> duration option" where
  "ParseDuration s =
     (let neg = (s \<noteq> [] \<and> hd s = CHR ''-'');
          t = (if s \<noteq> [] \<and> (hd s = CHR ''-'' \<or> hd s = CHR ''+'') then tl s else s)
      in if t = ''0'' then Some 0
         else if t = [] then None
         else case parse_groups 0 t of
                None \<Rightarrow> None
              | Some d \<Rightarrow> if neg then Some (- d) else if 2 ^ 63 - 1 < d then None else Some d)"

section \<open>Properties\<close>

lemma ParseDuration_positive: "ParseDuration s = Some d \<Longrightarrow> 0 < d \<Longrightarrow> d < 2 ^ 63 \<or> s = [] \<or> hd s = CHR ''-''"
  by (auto simp: ParseDuration_def Let_def split: if_splits option.splits)

text \<open>A whole number with a unit.\<close>

lemma parse_digits_ge: "parse_digits x ds = Some n \<Longrightarrow> x \<le> n"
proof (induction ds arbitrary: x)
  case (Cons c ds)
  then obtain d where "parse_digits (x * 10 + d) ds = Some n"
    by (auto split: option.splits if_splits)
  from Cons.IH [OF this] show ?case
    by simp
qed simp

lemma leadingInt_digits:
  assumes "parse_digits x ds = Some n" and "s \<noteq> []" and "digit_val (hd s) = None" and "int x \<le> 2 ^ 63"
  shows "leadingInt (int x) (ds @ s) = (if int n \<le> 2 ^ 63 then Some (int n, s) else None)"
  using assms(1,4)
proof (induction ds arbitrary: x)
  case Nil
  then show ?case
    using assms(2,3) by (cases s) auto
next
  case (Cons c ds)
  then obtain d where d: "digit_val c = Some d" "parse_digits (x * 10 + d) ds = Some n"
    by (auto split: option.splits if_splits)
  have eq: "int x * 10 + int d = int (x * 10 + d)"
    by simp
  have "int (x * 10 + d) \<le> int n"
    using parse_digits_ge [OF d(2)] by linarith
  with Cons.IH [OF d(2)] d(1) show ?case
    by (auto simp del: of_nat_add of_nat_mult simp: eq)
qed

definition plain_units :: "(string \<times> int) list" where
  "plain_units = [(''ns'', 1), (''us'', 1000), (''ms'', 1000000), (''s'', 1000000000), (''m'', 60000000000), (''h'', 3600000000000)]"

lemma plain_unit:
  assumes "(u, unit) \<in> set plain_units"
  shows "u \<noteq> []" "digit_val (hd u) = None" "hd u \<noteq> CHR ''.''" "\<forall>c \<in> set u. \<not> number_char c" "unit_of u = Some unit" "0 < unit"
  using assms by (auto simp: plain_units_def unit_of_def number_char_def digit_val_def)

lemma nat_dec_digit: "digit_val (hd (nat_dec n)) \<noteq> None"
  using subsetD [OF set_nat_dec hd_in_set [OF nat_dec_nonempty [of n]]] by (simp add: digits_def)

lemma div_less_mult:
  fixes a n u :: int
  assumes "0 < u"
  shows "a div u < n \<longleftrightarrow> a < n * u"
proof -
  have a: "a = (a div u) * u + a mod u" "0 \<le> a mod u" "a mod u < u"
    using assms by simp_all
  show ?thesis
  proof (cases "a div u < n")
    case True
    then have "(a div u + 1) * u \<le> n * u"
      using assms by (intro mult_right_mono) simp_all
    then have "a < n * u"
      using a unfolding distrib_right by linarith
    with True show ?thesis
      by simp
  next
    case False
    then have "n * u \<le> (a div u) * u"
      using assms by (intro mult_right_mono) simp_all
    with False a show ?thesis
      by linarith
  qed
qed

lemma parse_group_plain:
  assumes "(u, unit) \<in> set plain_units" and "n < 2 ^ 64"
  shows "parse_group (nat_dec n @ u) = (if int n * unit \<le> 2 ^ 63 then Some (int n * unit, []) else None)"
proof -
  note u = plain_unit [OF assms(1)]
  have while: "takeWhile (\<lambda>c. \<not> number_char c) u = u" "dropWhile (\<lambda>c. \<not> number_char c) u = []"
    using u(4) by (simp_all add: takeWhile_eq_all_conv dropWhile_eq_Nil_conv)
  have num: "number_char (hd (nat_dec n @ u))"
    using nat_dec_digit [of n] by (simp add: number_char_def)
  have int: "leadingInt 0 (nat_dec n @ u) = (if int n \<le> 2 ^ 63 then Some (int n, u) else None)"
    using leadingInt_digits [OF parse_nat_dec [OF assms(2)] u(1,2)] by simp
  have big: "9223372036854775808 div unit < int n \<longleftrightarrow> 9223372036854775808 < int n * unit"
    by (rule div_less_mult [OF u(6)])
  have "int n \<le> int n * unit"
    using mult_left_mono [of 1 unit "int n"] u(6) by simp
  then show ?thesis
    using int u(1,3,5) num by (auto simp: parse_group_def Let_def big while)
qed

text \<open>A whole number of nanoseconds, microseconds, milliseconds, seconds, minutes or hours, written in decimal with
  its unit, is read as that duration whenever it fits in 64 bits, and refused when it does not.\<close>

lemma ParseDuration_plain:
  assumes "(u, unit) \<in> set plain_units" and "n < 2 ^ 64"
  shows "ParseDuration (nat_dec n @ u) = (if int n * unit < 2 ^ 63 then Some (int n * unit) else None)"
proof -
  let ?s = "nat_dec n @ u"
  note u = plain_unit [OF assms(1)]
  have sign: "hd ?s \<noteq> CHR ''-''" "hd ?s \<noteq> CHR ''+''"
    using nat_dec_digit [of n] by (auto simp: digit_val_def)
  have len: "?s \<noteq> ''0''" "?s \<noteq> []"
    using u(1) by (auto simp: append_eq_Cons_conv)
  have "0 \<le> int n * unit"
    using u(6) by simp
  then have "parse_groups 0 ?s = (if int n * unit \<le> 2 ^ 63 then Some (int n * unit) else None)"
    using len by (subst parse_groups.simps) (simp add: parse_group_plain [OF assms] parse_groups.simps Let_def)
  with sign len show ?thesis
    by (auto simp: ParseDuration_def Let_def)
qed

lemma ParseDuration_samples:
  "ParseDuration ''1.5h'' = Some (90 * Minute)" "ParseDuration ''-1s'' = Some (- Second)" "ParseDuration ''5'' = None"
  "ParseDuration ''1h0.1s'' = Some (Hour + Second div 10)"
  by code_simp+

end
