(* ===== verification/Config.thy ===== *)
theory Config
  imports GoDuration Clients
begin

text \<open>
  \<open>internal/config/config.go\<close>: the configuration and how it is read.  The environment is a function from names
  to values; a name that is not set has the empty value, as \<open>os.Getenv\<close> reports it.
\<close>

type_synonym environment = "string \<Rightarrow> string"

record Config =
  cf_GRPCAddr :: string
  cf_HTTPAddr :: string
  cf_DatabaseURL :: string
  cf_Member :: MTLSClient
  cf_Plans :: MTLSClient
  cf_AWSRegion :: string
  cf_KMSKeyID :: string
  cf_KMSEndpointURL :: string
  cf_KafkaBrokers :: string
  cf_SchemaRegistryURL :: string
  cf_ServiceName :: string
  cf_RelayInterval :: duration
  cf_OutboxRetryDelay :: duration
  cf_ShutdownTimeout :: duration
  cf_ReadinessTimeout :: duration
  cf_GRPCServerCert :: string
  cf_GRPCServerKey :: string
  cf_GRPCClientCA :: string
  cf_GRPCReflection :: bool

section \<open>Operations\<close>

definition env :: "environment \<Rightarrow> string \<Rightarrow> string \<Rightarrow> string" where
  "env getenv key fallback = (if getenv key \<noteq> [] then getenv key else fallback)"

definition positiveDuration :: "environment \<Rightarrow> string \<Rightarrow> duration \<Rightarrow> err + duration" where
  "positiveDuration getenv key fallback =
     (if getenv key = [] then Inr fallback
      else case ParseDuration (getenv key) of
             None \<Rightarrow> Inl (Errorf (key @ '' must be a positive duration''))
           | Some parsed \<Rightarrow>
               if parsed \<le> 0 then Inl (Errorf (key @ '' must be a positive duration'')) else Inr parsed)"

definition boolean :: "environment \<Rightarrow> string \<Rightarrow> bool \<Rightarrow> err + bool" where
  "boolean getenv key fallback =
     (if getenv key = [] then Inr fallback
      else if ToLower (getenv key) = ''true'' then Inr True
      else if ToLower (getenv key) = ''false'' then Inr False
      else Inl (Errorf (key @ '' must be true or false'')))"

definition client :: "environment \<Rightarrow> string \<Rightarrow> string \<Rightarrow> err + MTLSClient" where
  "client getenv prefix defaultName =
     (case positiveDuration getenv (prefix @ ''_GRPC_DEADLINE'') (3 * Second) of
        Inl e \<Rightarrow> Inl e
      | Inr deadline \<Rightarrow>
          Inr \<lparr>mc_Address = getenv (prefix @ ''_GRPC_ADDR''), mc_CertFile = getenv (prefix @ ''_GRPC_CERT''),
               mc_KeyFile = getenv (prefix @ ''_GRPC_KEY''), mc_CAFile = getenv (prefix @ ''_GRPC_CA''),
               mc_ServerName = env getenv (prefix @ ''_GRPC_SERVER_NAME'') defaultName, mc_Deadline = deadline\<rparr>)"

definition validateClient :: "string \<Rightarrow> MTLSClient \<Rightarrow> err + unit" where
  "validateClient name c =
     (if mc_Address c = [] \<or> mc_CertFile c = [] \<or> mc_KeyFile c = [] \<or> mc_CAFile c = []
      then Inl (Errorf (name @ ''_GRPC_ADDR, '' @ name @ ''_GRPC_CERT, '' @ name @ ''_GRPC_KEY, and '' @ name @ ''_GRPC_CA are required''))
      else Inr ())"

text \<open>The checks \<open>Load\<close> makes of the values it has read, in their order.\<close>

definition validate_config :: "Config \<Rightarrow> err + Config" where
  "validate_config cfg =
     (if cf_DatabaseURL cfg = [] then Inl (Errorf ''DATABASE_URL is required'')
      else if cf_AWSRegion cfg = [] \<or> cf_KMSKeyID cfg = [] then Inl (Errorf ''AWS_REGION and KMS_KEY_ID are required'')
      else case validateClient ''MEMBER'' (cf_Member cfg) of
             Inl e \<Rightarrow> Inl e
           | Inr _ \<Rightarrow>
               (case validateClient ''PLANS'' (cf_Plans cfg) of
                  Inl e \<Rightarrow> Inl e
                | Inr _ \<Rightarrow>
                    if cf_GRPCServerCert cfg = [] \<or> cf_GRPCServerKey cfg = [] \<or> cf_GRPCClientCA cfg = []
                    then Inl (Errorf ''CHECKIN_GRPC_SERVER_CERT, CHECKIN_GRPC_SERVER_KEY, and CHECKIN_GRPC_CLIENT_CA are required'')
                    else if TrimSpace (cf_KafkaBrokers cfg) = [] \<or> TrimSpace (cf_SchemaRegistryURL cfg) = []
                    then Inl (Errorf ''KAFKA_BROKERS and SCHEMA_REGISTRY_URL are required'')
                    else Inr cfg))"

definition read_config ::
  "environment \<Rightarrow> MTLSClient \<Rightarrow> MTLSClient \<Rightarrow> duration \<Rightarrow> duration \<Rightarrow> duration \<Rightarrow> duration \<Rightarrow> bool \<Rightarrow> Config" where
  "read_config getenv member plans relayInterval outboxRetryDelay shutdownTimeout readinessTimeout reflection =
     \<lparr>cf_GRPCAddr = env getenv ''GRPC_ADDR'' '':50051'', cf_HTTPAddr = env getenv ''HTTP_ADDR'' '':8080'',
      cf_DatabaseURL = getenv ''DATABASE_URL'', cf_Member = member, cf_Plans = plans,
      cf_AWSRegion = getenv ''AWS_REGION'', cf_KMSKeyID = getenv ''KMS_KEY_ID'',
      cf_KMSEndpointURL = getenv ''KMS_ENDPOINT_URL'', cf_KafkaBrokers = getenv ''KAFKA_BROKERS'',
      cf_SchemaRegistryURL = getenv ''SCHEMA_REGISTRY_URL'', cf_ServiceName = env getenv ''SERVICE_NAME'' ''ms-gym-checkin'',
      cf_RelayInterval = relayInterval, cf_OutboxRetryDelay = outboxRetryDelay, cf_ShutdownTimeout = shutdownTimeout,
      cf_ReadinessTimeout = readinessTimeout, cf_GRPCServerCert = getenv ''CHECKIN_GRPC_SERVER_CERT'',
      cf_GRPCServerKey = getenv ''CHECKIN_GRPC_SERVER_KEY'', cf_GRPCClientCA = getenv ''CHECKIN_GRPC_CLIENT_CA'',
      cf_GRPCReflection = reflection\<rparr>"

definition Load :: "environment \<Rightarrow> err + Config" where
  "Load getenv =
     (case client getenv ''MEMBER'' ''ms-gym-member'' of Inl e \<Rightarrow> Inl e | Inr member \<Rightarrow>
      case client getenv ''PLANS'' ''ms-gym-plans'' of Inl e \<Rightarrow> Inl e | Inr plans \<Rightarrow>
      case positiveDuration getenv ''OUTBOX_RELAY_INTERVAL'' (2 * Second) of Inl e \<Rightarrow> Inl e | Inr relayInterval \<Rightarrow>
      case positiveDuration getenv ''OUTBOX_RETRY_DELAY'' (2 * Second) of Inl e \<Rightarrow> Inl e | Inr outboxRetryDelay \<Rightarrow>
      case positiveDuration getenv ''SHUTDOWN_TIMEOUT'' (15 * Second) of Inl e \<Rightarrow> Inl e | Inr shutdownTimeout \<Rightarrow>
      case positiveDuration getenv ''READINESS_TIMEOUT'' (2 * Second) of Inl e \<Rightarrow> Inl e | Inr readinessTimeout \<Rightarrow>
      case boolean getenv ''GRPC_REFLECTION'' False of Inl e \<Rightarrow> Inl e | Inr reflection \<Rightarrow>
        validate_config (read_config getenv member plans relayInterval outboxRetryDelay shutdownTimeout readinessTimeout reflection))"

section \<open>What an accepted configuration holds\<close>

definition valid_duration :: "environment \<Rightarrow> string \<Rightarrow> bool" where
  "valid_duration getenv key \<longleftrightarrow> getenv key = [] \<or> (\<exists>d > 0. ParseDuration (getenv key) = Some d)"

lemma positiveDuration_Inr:
  "0 < fallback \<Longrightarrow> positiveDuration getenv key fallback = Inr d \<Longrightarrow> 0 < d \<and> valid_duration getenv key"
  by (auto simp: positiveDuration_def valid_duration_def split: if_splits option.splits)

lemma positiveDuration_ok: "(\<exists>d. positiveDuration getenv key fallback = Inr d) \<longleftrightarrow> valid_duration getenv key"
  by (auto simp: positiveDuration_def valid_duration_def split: if_splits option.splits)

definition client_set :: "environment \<Rightarrow> string \<Rightarrow> bool" where
  "client_set getenv prefix \<longleftrightarrow> (\<forall>part \<in> set [''_GRPC_ADDR'', ''_GRPC_CERT'', ''_GRPC_KEY'', ''_GRPC_CA'']. getenv (prefix @ part) \<noteq> [])"

lemma client_Inr:
  "client getenv prefix name = Inr c \<longleftrightarrow> (\<exists>d. positiveDuration getenv (prefix @ ''_GRPC_DEADLINE'') (3 * Second) = Inr d
     \<and> c = \<lparr>mc_Address = getenv (prefix @ ''_GRPC_ADDR''), mc_CertFile = getenv (prefix @ ''_GRPC_CERT''),
         mc_KeyFile = getenv (prefix @ ''_GRPC_KEY''), mc_CAFile = getenv (prefix @ ''_GRPC_CA''),
         mc_ServerName = env getenv (prefix @ ''_GRPC_SERVER_NAME'') name, mc_Deadline = d\<rparr>)"
  by (auto simp: client_def split: sum.splits)

lemma validate_config_Inr:
  "validate_config cfg = Inr c \<longleftrightarrow> c = cfg \<and> cf_DatabaseURL cfg \<noteq> [] \<and> cf_AWSRegion cfg \<noteq> [] \<and> cf_KMSKeyID cfg \<noteq> []
     \<and> validateClient ''MEMBER'' (cf_Member cfg) = Inr () \<and> validateClient ''PLANS'' (cf_Plans cfg) = Inr ()
     \<and> cf_GRPCServerCert cfg \<noteq> [] \<and> cf_GRPCServerKey cfg \<noteq> [] \<and> cf_GRPCClientCA cfg \<noteq> []
     \<and> TrimSpace (cf_KafkaBrokers cfg) \<noteq> [] \<and> TrimSpace (cf_SchemaRegistryURL cfg) \<noteq> []"
  by (auto simp: validate_config_def split: sum.splits)

definition durations_set :: "string list" where
  "durations_set = [''MEMBER_GRPC_DEADLINE'', ''PLANS_GRPC_DEADLINE'', ''OUTBOX_RELAY_INTERVAL'', ''OUTBOX_RETRY_DELAY'',
     ''SHUTDOWN_TIMEOUT'', ''READINESS_TIMEOUT'']"

definition required_set :: "string list" where
  "required_set = [''DATABASE_URL'', ''AWS_REGION'', ''KMS_KEY_ID'', ''CHECKIN_GRPC_SERVER_CERT'',
     ''CHECKIN_GRPC_SERVER_KEY'', ''CHECKIN_GRPC_CLIENT_CA'']"

lemma Load_Inr:
  "Load getenv = Inr cfg \<longleftrightarrow> (\<exists>member plans relayInterval retryDelay shutdown readiness reflection.
      client getenv ''MEMBER'' ''ms-gym-member'' = Inr member \<and> client getenv ''PLANS'' ''ms-gym-plans'' = Inr plans
      \<and> positiveDuration getenv ''OUTBOX_RELAY_INTERVAL'' (2 * Second) = Inr relayInterval
      \<and> positiveDuration getenv ''OUTBOX_RETRY_DELAY'' (2 * Second) = Inr retryDelay
      \<and> positiveDuration getenv ''SHUTDOWN_TIMEOUT'' (15 * Second) = Inr shutdown
      \<and> positiveDuration getenv ''READINESS_TIMEOUT'' (2 * Second) = Inr readiness
      \<and> boolean getenv ''GRPC_REFLECTION'' False = Inr reflection
      \<and> validate_config (read_config getenv member plans relayInterval retryDelay shutdown readiness reflection) = Inr cfg)"
  by (auto simp: Load_def split: sum.splits)

definition required_ok :: "environment \<Rightarrow> bool" where
  "required_ok getenv \<longleftrightarrow> (\<forall>key \<in> set required_set. getenv key \<noteq> [])
     \<and> TrimSpace (getenv ''KAFKA_BROKERS'') \<noteq> [] \<and> TrimSpace (getenv ''SCHEMA_REGISTRY_URL'') \<noteq> []"

lemma validate_read_config:
  "validate_config (read_config getenv member plans a b c d e) = Inr cfg \<longleftrightarrow>
     cfg = read_config getenv member plans a b c d e \<and> required_ok getenv
     \<and> validateClient ''MEMBER'' member = Inr () \<and> validateClient ''PLANS'' plans = Inr ()"
  by (auto simp: validate_config_Inr required_ok_def required_set_def read_config_def)

lemma client_valid:
  "(\<exists>c. client getenv prefix name = Inr c \<and> validateClient prefix c = Inr ()) \<longleftrightarrow>
     valid_duration getenv (prefix @ ''_GRPC_DEADLINE'') \<and> client_set getenv prefix"
proof -
  have valid: "validateClient prefix c = Inr () \<longleftrightarrow> mc_Address c \<noteq> [] \<and> mc_CertFile c \<noteq> [] \<and> mc_KeyFile c \<noteq> [] \<and> mc_CAFile c \<noteq> []" for c
    by (simp add: validateClient_def)
  have "(\<exists>c. client getenv prefix name = Inr c \<and> validateClient prefix c = Inr ()) \<longleftrightarrow>
      (\<exists>d. positiveDuration getenv (prefix @ ''_GRPC_DEADLINE'') (3 * Second) = Inr d) \<and> client_set getenv prefix"
    unfolding client_Inr valid client_set_def by fastforce
  then show ?thesis
    unfolding positiveDuration_ok .
qed

lemma boolean_ok: "(\<exists>b. boolean getenv key False = Inr b) \<longleftrightarrow> getenv key = [] \<or> ToLower (getenv key) \<in> {''true'', ''false''}"
  by (auto simp: boolean_def)

lemma Load_accepts:
  "(\<exists>cfg. Load getenv = Inr cfg) \<longleftrightarrow>
     (\<exists>c. client getenv ''MEMBER'' ''ms-gym-member'' = Inr c \<and> validateClient ''MEMBER'' c = Inr ())
     \<and> (\<exists>c. client getenv ''PLANS'' ''ms-gym-plans'' = Inr c \<and> validateClient ''PLANS'' c = Inr ())
     \<and> (\<exists>d. positiveDuration getenv ''OUTBOX_RELAY_INTERVAL'' (2 * Second) = Inr d)
     \<and> (\<exists>d. positiveDuration getenv ''OUTBOX_RETRY_DELAY'' (2 * Second) = Inr d)
     \<and> (\<exists>d. positiveDuration getenv ''SHUTDOWN_TIMEOUT'' (15 * Second) = Inr d)
     \<and> (\<exists>d. positiveDuration getenv ''READINESS_TIMEOUT'' (2 * Second) = Inr d)
     \<and> (\<exists>b. boolean getenv ''GRPC_REFLECTION'' False = Inr b) \<and> required_ok getenv"
  unfolding Load_Inr validate_read_config by blast

text \<open>C31: Configuration is validated as a whole: Load succeeds exactly when every duration that is set parses to a
  positive one, the reflection flag is unset, true or false in any case, every required variable and both clients'
  files are set and the brokers and the registry are not blank; what it returns has only positive durations.\<close>

theorem Load_validates:
  "((\<exists>cfg. Load getenv = Inr cfg) \<longleftrightarrow>
      (\<forall>key \<in> set durations_set. valid_duration getenv key)
      \<and> (getenv ''GRPC_REFLECTION'' = [] \<or> ToLower (getenv ''GRPC_REFLECTION'') \<in> {''true'', ''false''})
      \<and> (\<forall>key \<in> set required_set. getenv key \<noteq> []) \<and> client_set getenv ''MEMBER'' \<and> client_set getenv ''PLANS''
      \<and> TrimSpace (getenv ''KAFKA_BROKERS'') \<noteq> [] \<and> TrimSpace (getenv ''SCHEMA_REGISTRY_URL'') \<noteq> [])
   \<and> (\<forall>cfg. Load getenv = Inr cfg \<longrightarrow> 0 < cf_RelayInterval cfg \<and> 0 < cf_OutboxRetryDelay cfg \<and> 0 < cf_ShutdownTimeout cfg
        \<and> 0 < cf_ReadinessTimeout cfg \<and> 0 < mc_Deadline (cf_Member cfg) \<and> 0 < mc_Deadline (cf_Plans cfg)
        \<and> cf_GRPCReflection cfg = (ToLower (getenv ''GRPC_REFLECTION'') = ''true''))"
proof
  show "(\<exists>cfg. Load getenv = Inr cfg) \<longleftrightarrow>
      (\<forall>key \<in> set durations_set. valid_duration getenv key)
      \<and> (getenv ''GRPC_REFLECTION'' = [] \<or> ToLower (getenv ''GRPC_REFLECTION'') \<in> {''true'', ''false''})
      \<and> (\<forall>key \<in> set required_set. getenv key \<noteq> []) \<and> client_set getenv ''MEMBER'' \<and> client_set getenv ''PLANS''
      \<and> TrimSpace (getenv ''KAFKA_BROKERS'') \<noteq> [] \<and> TrimSpace (getenv ''SCHEMA_REGISTRY_URL'') \<noteq> []"
    unfolding Load_accepts client_valid positiveDuration_ok boolean_ok required_ok_def
    by (simp add: durations_set_def) blast
  have "0 < cf_RelayInterval cfg \<and> 0 < cf_OutboxRetryDelay cfg \<and> 0 < cf_ShutdownTimeout cfg
        \<and> 0 < cf_ReadinessTimeout cfg \<and> 0 < mc_Deadline (cf_Member cfg) \<and> 0 < mc_Deadline (cf_Plans cfg)
        \<and> cf_GRPCReflection cfg = (ToLower (getenv ''GRPC_REFLECTION'') = ''true'')" if "Load getenv = Inr cfg" for cfg
  proof -
    have bool: "boolean getenv key False = Inr b \<Longrightarrow> b = (ToLower (getenv key) = ''true'')" for key b
      by (auto simp: boolean_def ToLower_def split: if_splits)
    have pos: "positiveDuration getenv key (n * Second) = Inr d \<Longrightarrow> 0 < n \<Longrightarrow> 0 < d" for key n d
      using positiveDuration_Inr [of "n * Second" getenv key d] by (simp add: Second_def)
    show ?thesis
      using that unfolding Load_Inr validate_read_config client_Inr
      by (elim exE conjE) (simp add: read_config_def pos bool)
  qed
  then show "\<forall>cfg. Load getenv = Inr cfg \<longrightarrow> 0 < cf_RelayInterval cfg \<and> 0 < cf_OutboxRetryDelay cfg \<and> 0 < cf_ShutdownTimeout cfg
        \<and> 0 < cf_ReadinessTimeout cfg \<and> 0 < mc_Deadline (cf_Member cfg) \<and> 0 < mc_Deadline (cf_Plans cfg)
        \<and> cf_GRPCReflection cfg = (ToLower (getenv ''GRPC_REFLECTION'') = ''true'')"
    by blast
qed

text \<open>Only what is required is set, and one duration.\<close>

definition sample_getenv :: environment where
  "sample_getenv key = (case map_of ([(''READINESS_TIMEOUT'', ''5s''), (''KAFKA_BROKERS'', ''k:9092''),
       (''SCHEMA_REGISTRY_URL'', ''http://r''), (''GRPC_REFLECTION'', ''TRUE'')] @ map (\<lambda>k. (k, ''x'')) required_set
     @ map (\<lambda>k. (k, ''y'')) [''MEMBER_GRPC_ADDR'', ''MEMBER_GRPC_CERT'', ''MEMBER_GRPC_KEY'', ''MEMBER_GRPC_CA'',
       ''PLANS_GRPC_ADDR'', ''PLANS_GRPC_CERT'', ''PLANS_GRPC_KEY'', ''PLANS_GRPC_CA'']) key of None \<Rightarrow> [] | Some v \<Rightarrow> v)"

theorem Load_validates_witness: "\<exists>cfg. Load sample_getenv = Inr cfg \<and> 0 < cf_ReadinessTimeout cfg \<and> cf_GRPCReflection cfg"
proof -
  have parse: "ParseDuration ''5s'' = Some 5000000000" "sample_getenv ''READINESS_TIMEOUT'' = ''5s''"
    by code_simp+
  have "valid_duration sample_getenv ''READINESS_TIMEOUT''"
    using parse by (simp add: valid_duration_def)
  moreover have "list_all (\<lambda>k. k = ''READINESS_TIMEOUT'' \<or> sample_getenv k = []) durations_set"
    "list_all (\<lambda>k. sample_getenv k \<noteq> []) required_set" "client_set sample_getenv ''MEMBER''" "client_set sample_getenv ''PLANS''"
    "ToLower (sample_getenv ''GRPC_REFLECTION'') = ''true''" "TrimSpace (sample_getenv ''KAFKA_BROKERS'') \<noteq> []"
    "TrimSpace (sample_getenv ''SCHEMA_REGISTRY_URL'') \<noteq> []"
    by code_simp+
  ultimately show ?thesis
    using Load_validates [of sample_getenv] by (auto simp: list_all_iff valid_duration_def)
qed

text \<open>C32: Durations survive the environment: a variable that holds a whole number of nanoseconds, microseconds,
  milliseconds, seconds, minutes or hours, in decimal with its unit, is read as exactly that duration if it is positive
  and fits in 64 bits, and is refused otherwise.\<close>

theorem duration_roundtrip:
  assumes "(u, unit) \<in> set plain_units" and "n < 2 ^ 64" and "getenv key = nat_dec n @ u"
  shows "positiveDuration getenv key fallback =
    (if 0 < n \<and> int n * unit < 2 ^ 63 then Inr (int n * unit) else Inl (Errorf (key @ '' must be a positive duration'')))"
proof -
  have "0 < unit" "u \<noteq> []"
    using plain_unit [OF assms(1)] by auto
  then have "0 < int n * unit \<longleftrightarrow> 0 < n" "getenv key \<noteq> []"
    using assms(3) by (simp_all add: zero_less_mult_iff)
  then show ?thesis
    using ParseDuration_plain [OF assms(1,2)] assms(3) by (auto simp: positiveDuration_def)
qed

theorem duration_roundtrip_witness: "positiveDuration (\<lambda>_. ''90m'') ''SHUTDOWN_TIMEOUT'' Second = Inr (90 * Minute)"
proof -
  have "nat_dec 90 = ''90''"
    by code_simp
  then show ?thesis
    using duration_roundtrip [of "''m''" 60000000000 90 "\<lambda>_. ''90m''"] by (simp add: plain_units_def durations)
qed

end
