(* ===== verification/Relay.thy ===== *)
theory Relay
  imports Store
begin

text \<open>
  \<open>internal/adapter/kafka/relay.go\<close>: the outbox relay.  Its state is the connection (with the state all
  instances share, the broker's records among it) and a counter that numbers its questions to the
  surroundings.  The Kafka library, the JSON and protobuf codecs, the schema registry's encoder and the
  publisher are parameters; a publication ends in one of three ways, because a record may reach the
  broker although its acknowledgement is lost.

  The lemmas show that the relay moves the shared state along the protocol only, so that no event is
  marked published or failed before its frame is at the broker, and what becomes of an event on each
  branch.
\<close>

section \<open>State and environment\<close>

text \<open>\<open>eventsv1.CheckInRecordedEvent\<close>: member, gym and instant.\<close>

type_synonym message = "string \<times> string \<times> time"

record kafka_lib =
  kl_ValidateCanonicalHeaders :: "header list \<Rightarrow> err + unit"
  kl_ValidateEvent :: "string \<Rightarrow> bytes \<Rightarrow> message \<Rightarrow> string \<Rightarrow> string \<Rightarrow> err + unit"
  kl_CanonicalHeaders :: "nat \<Rightarrow> message \<Rightarrow> string \<Rightarrow> string \<Rightarrow> time \<Rightarrow> err + header list"
  kl_DLQRecord :: "RawRecord \<Rightarrow> string \<Rightarrow> int \<Rightarrow> time \<Rightarrow> RawRecord"
  kl_json_Marshal :: "header list \<Rightarrow> err + bytes"
  kl_json_Unmarshal :: "bytes \<Rightarrow> err + header list"
  kl_proto_Unmarshal :: "bytes \<Rightarrow> err + message"

datatype publication = Acked | Refused err | Unacked err

record relay_env =
  re_sql :: sql_env
  re_lib :: kafka_lib
  re_source :: string
  re_retryDelay :: duration
  re_Encode :: "nat \<Rightarrow> string \<Rightarrow> message \<Rightarrow> err + bytes"
  re_PublishRaw :: "nat \<Rightarrow> RawRecord \<Rightarrow> publication"
  re_clock :: "nat \<Rightarrow> time"
  re_ctx_Err :: "nat \<Rightarrow> err option"
  re_stop :: "duration \<Rightarrow> nat \<Rightarrow> bool"

record relay =
  rs_conn :: conn
  rs_tick :: nat

definition askR :: "(nat \<Rightarrow> 'a) \<Rightarrow> (relay, 'a) op" where
  "askR f s = (Inr (f (rs_tick s)), s\<lparr>rs_tick := Suc (rs_tick s)\<rparr>)"

definition callR :: "(nat \<Rightarrow> err + 'a) \<Rightarrow> (relay, 'a) op" where
  "callR f = bindE (askR f) liftE"

definition storeR :: "(conn, 'a) op \<Rightarrow> (relay, 'a) op" where
  "storeR = zoomE rs_conn (\<lambda>c s. s\<lparr>rs_conn := c\<rparr>)"

abbreviation rs_shared :: "relay \<Rightarrow> shared" where
  "rs_shared s \<equiv> cn_shared (rs_conn s)"

definition at_broker :: "RawRecord \<Rightarrow> relay \<Rightarrow> relay" where
  "at_broker r s = s\<lparr>rs_conn := (rs_conn s)\<lparr>cn_shared := (rs_shared s)\<lparr>sh_broker := sh_broker (rs_shared s) @ [r]\<rparr>\<rparr>\<rparr>"

definition PublishRaw :: "relay_env \<Rightarrow> RawRecord \<Rightarrow> (relay, unit) op" where
  "PublishRaw E r s =
     (let t = s\<lparr>rs_tick := Suc (rs_tick s)\<rparr>
      in case re_PublishRaw E (rs_tick s) r of
           Acked \<Rightarrow> (Inr (), at_broker r t)
         | Refused e \<Rightarrow> (Inl e, t)
         | Unacked e \<Rightarrow> (Inl e, at_broker r t))"

section \<open>Operations\<close>

text \<open>\<open>record\<close>: the part for an event whose frame is stored, the part that makes the frame, and the whole.  Of a
  prepared value and headers that are not both nil, one that is nil or empty makes the record incomplete.\<close>

definition prepared_record :: "relay_env \<Rightarrow> OutboxEvent \<Rightarrow> bytes \<Rightarrow> bytes \<Rightarrow> err + RawRecord" where
  "prepared_record E event value preparedHeaders =
     (if length value = 0 \<or> length preparedHeaders = 0 then Inl (Errorf ''incomplete prepared outbox record'')
      else case kl_json_Unmarshal (re_lib E) preparedHeaders of
             Inl e \<Rightarrow> Inl (Wrap ''decode prepared outbox headers'' e)
           | Inr headers \<Rightarrow>
               (case kl_ValidateCanonicalHeaders (re_lib E) headers of
                  Inl e \<Rightarrow> Inl e
                | Inr _ \<Rightarrow> Inr \<lparr>rr_Topic = ev_Topic event, rr_Key = bytes_of (ev_Key event), rr_Value = value,
                    rr_Headers = headers\<rparr>))"

definition fresh_record :: "relay_env \<Rightarrow> OutboxEvent \<Rightarrow> time \<Rightarrow> (relay, RawRecord) op" where
  "fresh_record E event now =
     bindE (liftE (kl_proto_Unmarshal (re_lib E) (ev_Payload event))) (\<lambda>message.
     bindE (liftE (kl_ValidateEvent (re_lib E) (ev_Topic event) (bytes_of (ev_Key event)) message (ev_ID event) (re_source E))) (\<lambda>_.
     bindE (callR (\<lambda>n. kl_CanonicalHeaders (re_lib E) n message (re_source E) (ev_ID event) now)) (\<lambda>headers.
     bindE (callR (\<lambda>n. re_Encode E n (ev_Topic event) message)) (\<lambda>frame.
       returnE \<lparr>rr_Topic = ev_Topic event, rr_Key = bytes_of (ev_Key event), rr_Value = frame, rr_Headers = headers\<rparr>))))"

definition relay_record :: "relay_env \<Rightarrow> OutboxEvent \<Rightarrow> time \<Rightarrow> (relay, RawRecord) op" where
  "relay_record E event now =
     (if ev_Topic event \<noteq> checkInTopic then throwE (Errorf ''unsupported outbox topic'')
      else case (ev_PreparedValue event, ev_PreparedHeaders event) of
             (None, None) \<Rightarrow> fresh_record E event now
           | (Some value, Some headers) \<Rightarrow> liftE (prepared_record E event value headers)
           | _ \<Rightarrow> throwE (Errorf ''incomplete prepared outbox record''))"

definition publishDLQ :: "relay_env \<Rightarrow> OutboxEvent \<Rightarrow> RawRecord \<Rightarrow> int \<Rightarrow> time \<Rightarrow> (relay, unit) op" where
  "publishDLQ E event record attempts now =
     tryE (PublishRaw E (kl_DLQRecord (re_lib E) record ''Kafka message publication failed'' attempts now)) (\<lambda>published.
       case published of
         Inl e \<Rightarrow>
           bindE (storeR (MarkRetry (re_sql E) (ev_ID event) attempts (now + re_retryDelay E))) (\<lambda>_. throwE e)
       | Inr _ \<Rightarrow> storeR (MarkFailed (re_sql E) (ev_ID event) attempts))"

text \<open>The body of the loop of \<open>Flush\<close>: what is done with the record, and the whole; \<open>continue\<close> is \<open>Inr\<close>.\<close>

definition relay_publish :: "relay_env \<Rightarrow> time \<Rightarrow> OutboxEvent \<Rightarrow> RawRecord \<Rightarrow> (relay, unit) op" where
  "relay_publish E now event record =
     (if maxPublishFailures \<le> ev_Attempts event then publishDLQ E event record (ev_Attempts event) now
      else tryE (PublishRaw E record) (\<lambda>published.
        case published of
          Inr _ \<Rightarrow> storeR (MarkPublished (re_sql E) (ev_ID event) now)
        | Inl _ \<Rightarrow>
            let attempts = ev_Attempts event + 1
            in if attempts < maxPublishFailures
               then storeR (MarkRetry (re_sql E) (ev_ID event) attempts (now + re_retryDelay E))
               else publishDLQ E event record attempts now))"

definition relay_prepare :: "relay_env \<Rightarrow> OutboxEvent \<Rightarrow> RawRecord \<Rightarrow> (relay, unit) op" where
  "relay_prepare E event record =
     (if ev_PreparedValue event = None
      then bindE (liftE (kl_json_Marshal (re_lib E) (rr_Headers record))) (\<lambda>encodedHeaders.
             storeR (SavePreparedOutbox (re_sql E) (ev_ID event) (rr_Value record) encodedHeaders))
      else returnE ())"

definition relay_event :: "relay_env \<Rightarrow> time \<Rightarrow> OutboxEvent \<Rightarrow> (relay, unit) op" where
  "relay_event E now event =
     bindE (askR (re_ctx_Err E)) (\<lambda>ctx.
       case ctx of
         Some e \<Rightarrow> throwE e
       | None \<Rightarrow>
           tryE (relay_record E event now) (\<lambda>record.
             case record of
               Inl _ \<Rightarrow>
                 let attempts = ev_Attempts event + 1
                 in if maxPublishFailures \<le> attempts then storeR (MarkInvalid (re_sql E) (ev_ID event) attempts)
                    else storeR (MarkRetry (re_sql E) (ev_ID event) attempts (now + re_retryDelay E))
             | Inr r \<Rightarrow>
                 bindE (relay_prepare E event r) (\<lambda>_. relay_publish E now event r)))"

fun relay_events :: "relay_env \<Rightarrow> time \<Rightarrow> OutboxEvent list \<Rightarrow> (relay, unit) op" where
  "relay_events E now [] = returnE ()"
| "relay_events E now (event # events) = bindE (relay_event E now event) (\<lambda>_. relay_events E now events)"

definition Flush :: "relay_env \<Rightarrow> (relay, unit) op" where
  "Flush E =
     bindE (askR (re_clock E)) (\<lambda>now.
     bindE (storeR (ClaimOutbox (re_sql E) 50 now)) (\<lambda>events.
       relay_events E now events))"

text \<open>\<open>Run\<close>: flush, then wait for the ticker or for the end of the context; \<open>re_stop d n\<close> is whether the n-th
  \<open>select\<close> sees the end of the context, with a ticker of interval d.  It may run for ever.\<close>

partial_function (option) run_loop :: "relay_env \<Rightarrow> duration \<Rightarrow> nat \<Rightarrow> relay \<Rightarrow> relay option" where
  "run_loop E d n s = (let t = snd (Flush E s) in if re_stop E d n then Some t else run_loop E d (Suc n) t)"

declare run_loop.simps [code]

definition relay_interval :: "duration \<Rightarrow> duration" where
  "relay_interval interval = (if interval \<le> 0 then 2 * Second else interval)"

definition Run :: "relay_env \<Rightarrow> duration \<Rightarrow> relay \<Rightarrow> relay option" where
  "Run E interval s = run_loop E (relay_interval interval) 0 s"

text \<open>\<open>NewRelay\<close> fills in the relay's source and delay.\<close>

definition NewRelay :: "relay_env \<Rightarrow> string \<Rightarrow> duration \<Rightarrow> relay_env" where
  "NewRelay E source retryDelay = E\<lparr>re_source := source, re_retryDelay := retryDelay\<rparr>"

section \<open>The relay follows the protocol\<close>

text \<open>What is relied on of the library: the dead-letter record keeps key and value and goes to the topic's
  dead-letter topic.\<close>

definition dlq_law :: "kafka_lib \<Rightarrow> bool" where
  "dlq_law lib \<longleftrightarrow> (\<forall>r reason n t. rr_Topic (kl_DLQRecord lib r reason n t) = rr_Topic r @ ''.DLQ''
     \<and> rr_Key (kl_DLQRecord lib r reason n t) = rr_Key r \<and> rr_Value (kl_DLQRecord lib r reason n t) = rr_Value r)"

definition rmoves :: "relay_env \<Rightarrow> relay \<Rightarrow> relay \<Rightarrow> bool" where
  "rmoves E s t \<longleftrightarrow> moves (re_sql E) (rs_conn s) (rs_conn t)"

lemma rmoves_refl [simp]: "rmoves E s s"
  by (simp add: rmoves_def)

lemma rmoves_trans: "rmoves E s t \<Longrightarrow> rmoves E t u \<Longrightarrow> rmoves E s u"
  unfolding rmoves_def by (rule moves_trans)

lemma rmoves_tick: "rs_conn t = rs_conn s \<Longrightarrow> rmoves E s t"
  by (simp add: rmoves_def)

lemma storeR_run: "storeR m s = (r, t) \<longleftrightarrow> (\<exists>c. m (rs_conn s) = (r, c) \<and> t = s\<lparr>rs_conn := c\<rparr>)"
  by (auto simp: storeR_def zoomE_def split: prod.splits)

lemma storeR_moves: "guar (moves (re_sql E)) m \<Longrightarrow> storeR m s = (r, t) \<Longrightarrow> rmoves E s t"
  by (auto simp: storeR_run rmoves_def dest: guarD)

lemma ask_runR:
  "askR f s = (r, t) \<longleftrightarrow> r = Inr (f (rs_tick s)) \<and> t = s\<lparr>rs_tick := Suc (rs_tick s)\<rparr>"
  "callR g s = (r', t) \<longleftrightarrow> r' = g (rs_tick s) \<and> t = s\<lparr>rs_tick := Suc (rs_tick s)\<rparr>"
  by (auto simp: askR_def callR_def bindE_def)

text \<open>An event as it was read: its row is still there, and what was stored for it still is.\<close>

definition read_event :: "OutboxEvent \<Rightarrow> shared \<Rightarrow> bool" where
  "read_event event s \<longleftrightarrow> (\<exists>r. event_row s (ev_ID event) = Some r \<and> or_topic r = ev_Topic event
     \<and> or_message_key r = ev_Key event
     \<and> (\<forall>v. ev_PreparedValue event = Some v \<longrightarrow> or_prepared_value r = Some v))"

text \<open>The record is the event's stored frame.\<close>

definition framed :: "OutboxEvent \<Rightarrow> RawRecord \<Rightarrow> shared \<Rightarrow> bool" where
  "framed event rec s \<longleftrightarrow> (\<exists>r. event_row s (ev_ID event) = Some r \<and> frames r rec)"

lemma read_event_grows: "grows s t \<Longrightarrow> sys_inv t \<Longrightarrow> read_event event s \<Longrightarrow> read_event event t"
  unfolding read_event_def by (auto simp: outbox_le_def elim!: event_row_grows)

lemma framed_grows: "grows s t \<Longrightarrow> sys_inv t \<Longrightarrow> framed event rec s \<Longrightarrow> framed event rec t"
  unfolding framed_def by (auto elim!: event_row_grows dest: outbox_le_frames)

interpretation reading: stable "\<lambda>s. s = empty_shared" "sys_step ts" sys_inv "read_event event"
  for ts event
  by unfold_locales (use sys_step_inv_grows read_event_grows in blast)

interpretation framing: stable "\<lambda>s. s = empty_shared" "sys_step ts" sys_inv "framed event rec"
  for ts event rec
  by unfold_locales (use sys_step_inv_grows framed_grows in blast)

lemma relay_record_run:
  assumes "relay_record E event now s = (r, t)"
  shows "rs_conn t = rs_conn s"
    and "r = Inr rec \<Longrightarrow> rr_Topic rec = ev_Topic event \<and> rr_Key rec = bytes_of (ev_Key event)
      \<and> (ev_PreparedValue event = Some (rr_Value rec) \<or> ev_PreparedValue event = None \<and> ev_PreparedHeaders event = None)"
  using assms
  by (auto simp: relay_record_def fresh_record_def prepared_record_def ask_runR
      split: if_splits option.splits sum.splits elim!: bindE_cases)

lemma PublishRaw_run:
  assumes "PublishRaw E rec s = (r, t)"
  shows "rs_conn t = rs_conn s \<and> r \<noteq> Inr ()
    \<or> rs_conn t = (rs_conn s)\<lparr>cn_shared := (rs_shared s)\<lparr>sh_broker := sh_broker (rs_shared s) @ [rec]\<rparr>\<rparr>"
  using assms by (auto simp: PublishRaw_def at_broker_def Let_def split: publication.splits)

lemma PublishRaw_moves:
  assumes "PublishRaw E rec s = (r, t)"
    and "sys_inv (rs_shared s) \<Longrightarrow> \<exists>e. event_row (rs_shared s) eid = Some e \<and> (frames e rec \<or> dlq_frames e rec)"
  shows "rmoves E s t"
  using PublishRaw_run [OF assms(1)]
proof
  assume t: "rs_conn t = (rs_conn s)\<lparr>cn_shared := (rs_shared s)\<lparr>sh_broker := sh_broker (rs_shared s) @ [rec]\<rparr>\<rparr>"
  have "sys_step (sq_ts (re_sql E)) (rs_shared s) (rs_shared t)" if inv: "sys_inv (rs_shared s)"
    using assms(2) [OF inv] event_rowD unfolding t by (auto intro: sys_step.publish)
  then show ?thesis
    unfolding rmoves_def moves_def by blast
qed (simp add: rmoves_tick)

lemma relay_prepare_moves:
  assumes "rely (re_sql E)" and "relay_prepare E event rec s = (r, t)"
  shows "rmoves E s t"
  using assms(2) unfolding relay_prepare_def
  by (auto split: if_splits elim!: bindE_cases intro: storeR_moves [OF SavePreparedOutbox_moves [OF assms(1)]])

lemma relay_prepare_framed:
  assumes "rely (re_sql E)" and inv: "sys_inv (rs_shared s)" and read: "read_event event (rs_shared s)"
    and rec: "rr_Topic rec = ev_Topic event" "rr_Key rec = bytes_of (ev_Key event)"
      "ev_PreparedValue event = Some (rr_Value rec) \<or> ev_PreparedValue event = None"
    and run: "relay_prepare E event rec s = (Inr (), t)"
  shows "framed event rec (rs_shared t)"
proof (cases "ev_PreparedValue event")
  case (Some v)
  then have "t = s"
    using run by (simp add: relay_prepare_def)
  then show ?thesis
    using read Some rec by (auto simp: read_event_def framed_def frames_def)
next
  case None
  obtain h c where c: "SavePreparedOutbox (re_sql E) (ev_ID event) (rr_Value rec) h (rs_conn s) = (Inr (), c)" "rs_conn t = c"
    using run None by (auto simp: relay_prepare_def storeR_run elim!: bindE_cases)
  have "sys_inv (cn_shared (arrive (re_sql E) (rs_conn s)))"
    by (rule moves_inv [OF arrive_moves [OF assms(1)] inv])
  with c(1) [unfolded SavePreparedOutbox_def] obtain r' where "event_row (cn_shared c) (ev_ID event) = Some r'"
    "or_prepared_value r' = Some (rr_Value rec)"
    by (rule prepared.success) simp
  moreover have "read_event event (cn_shared c)"
    using guarD [OF SavePreparedOutbox_moves [OF assms(1)] c(1)] inv read reading.fact_run by (auto simp: moves_def)
  ultimately show ?thesis
    using rec c(2) by (auto simp: read_event_def framed_def frames_def)
qed

lemma tryE_cases:
  assumes "tryE m f s = (r, t)"
  obtains x u where "m s = (x, u)" "f x u = (r, t)"
  using assms by (auto simp: tryE_def split: prod.splits)

lemma PublishRaw_acked:
  assumes "PublishRaw E rec s = (Inr (), t)" and "event_row (rs_shared s) eid = Some e"
  shows "frames e rec \<Longrightarrow> delivered (rs_shared t) eid" "dlq_frames e rec \<Longrightarrow> dead_lettered (rs_shared t) eid"
  using PublishRaw_run [OF assms(1)] event_rowD [OF assms(2)] by (auto simp: delivered_def dead_lettered_def)

lemma dlq_framed:
  "dlq_law lib \<Longrightarrow> frames e rec \<Longrightarrow> dlq_frames e (kl_DLQRecord lib rec reason n now)"
  by (simp add: dlq_law_def frames_def dlq_frames_def)

lemma publishDLQ_moves:
  assumes "rely (re_sql E)" and "dlq_law (re_lib E)" and "n \<le> maxPublishFailures"
    and framed: "sys_inv (rs_shared s) \<Longrightarrow> framed event rec (rs_shared s)" and run: "publishDLQ E event rec n now s = (r, t)"
  shows "rmoves E s t"
  using run unfolding publishDLQ_def
proof (rule tryE_cases)
  let ?d = "kl_DLQRecord (re_lib E) rec ''Kafka message publication failed'' n now"
  fix p u
  assume p: "PublishRaw E ?d s = (p, u)" and rest: "(case p of
      Inl e \<Rightarrow> bindE (storeR (MarkRetry (re_sql E) (ev_ID event) n (now + re_retryDelay E))) (\<lambda>_. throwE e)
    | Inr _ \<Rightarrow> storeR (MarkFailed (re_sql E) (ev_ID event) n)) u = (r, t)"
  have row: "\<exists>e. event_row (rs_shared s) (ev_ID event) = Some e \<and> dlq_frames e ?d" if "sys_inv (rs_shared s)"
    using framed [OF that] dlq_framed [OF assms(2)] by (auto simp: framed_def)
  have u: "rmoves E s u"
    by (rule PublishRaw_moves [OF p, of "ev_ID event"]) (use row in blast)
  have "rmoves E u t" if inv: "sys_inv (rs_shared s)"
  proof (cases p)
    case (Inl e)
    then show ?thesis
      using rest storeR_moves [OF MarkRetry_moves [OF assms(1,3)]] by (auto elim!: bindE_cases)
  next
    case (Inr x)
    then have "dead_lettered (rs_shared u) (ev_ID event)"
      using row [OF inv] PublishRaw_acked(2) p by auto
    then show ?thesis
      using rest Inr MarkFailed_moves [OF assms(1) _ assms(3)] by (auto simp: storeR_run rmoves_def)
  qed
  then show ?thesis
    using u rmoves_trans by (auto simp: rmoves_def moves_def)
qed

lemma relay_publish_moves:
  assumes "rely (re_sql E)" and "dlq_law (re_lib E)" and "ev_Attempts event \<le> maxPublishFailures"
    and framed: "sys_inv (rs_shared s) \<Longrightarrow> framed event rec (rs_shared s)" and run: "relay_publish E now event rec s = (r, t)"
  shows "rmoves E s t"
proof (cases "maxPublishFailures \<le> ev_Attempts event")
  case True
  then show ?thesis
    using publishDLQ_moves [OF assms(1-3) framed] run by (simp add: relay_publish_def)
next
  case False
  then obtain p u where p: "PublishRaw E rec s = (p, u)" and rest: "(case p of
        Inr _ \<Rightarrow> storeR (MarkPublished (re_sql E) (ev_ID event) now)
      | Inl _ \<Rightarrow> if ev_Attempts event + 1 < maxPublishFailures
          then storeR (MarkRetry (re_sql E) (ev_ID event) (ev_Attempts event + 1) (now + re_retryDelay E))
          else publishDLQ E event rec (ev_Attempts event + 1) now) u = (r, t)"
    using run by (auto simp: relay_publish_def Let_def elim!: tryE_cases)
  have u: "rmoves E s u"
    by (rule PublishRaw_moves [OF p, of "ev_ID event"]) (use framed in \<open>auto simp: framed_def\<close>)
  have le: "ev_Attempts event + 1 \<le> maxPublishFailures"
    using False by simp
  have "rmoves E u t" if inv: "sys_inv (rs_shared s)"
  proof (cases p)
    case (Inl e)
    have "framed event rec (rs_shared u)"
      using u inv framed [OF inv] framing.fact_run by (auto simp: rmoves_def moves_def)
    then show ?thesis
      using rest Inl publishDLQ_moves [OF assms(1,2) le] storeR_moves [OF MarkRetry_moves [OF assms(1) le]]
      by (auto split: if_splits)
  next
    case (Inr x)
    then have "delivered (rs_shared u) (ev_ID event)"
      using framed [OF inv] PublishRaw_acked(1) p by (auto simp: framed_def)
    then show ?thesis
      using rest Inr MarkPublished_moves [OF assms(1)] by (auto simp: storeR_run rmoves_def)
  qed
  then show ?thesis
    using u rmoves_trans by (auto simp: rmoves_def moves_def)
qed

lemma relay_event_moves:
  assumes "rely (re_sql E)" and "dlq_law (re_lib E)" and att: "ev_Attempts event \<le> maxPublishFailures"
    and read: "sys_inv (rs_shared s) \<Longrightarrow> read_event event (rs_shared s)" and run: "relay_event E now event s = (r, t)"
  shows "rmoves E s t"
proof -
  let ?u = "s\<lparr>rs_tick := Suc (rs_tick s)\<rparr>"
  obtain x w where x: "relay_record E event now ?u = (x, w)"
    by fastforce
  have w: "rs_conn w = rs_conn s"
    using relay_record_run(1) [OF x] by simp
  have "rmoves E w t" if "re_ctx_Err E (rs_tick s) = None"
  proof (cases x)
    case (Inl e)
    then have "storeR (if maxPublishFailures \<le> ev_Attempts event + 1 then MarkInvalid (re_sql E) (ev_ID event) (ev_Attempts event + 1)
        else MarkRetry (re_sql E) (ev_ID event) (ev_Attempts event + 1) (now + re_retryDelay E)) w = (r, t)"
      using run that x by (auto simp: relay_event_def bindE_def askR_def tryE_def Let_def)
    then show ?thesis
      by (rule storeR_moves [rotated]) (use att in \<open>auto intro!: guar_if MarkInvalid_moves MarkRetry_moves assms(1)\<close>)
  next
    case (Inr rec)
    then have "bindE (relay_prepare E event rec) (\<lambda>_. relay_publish E now event rec) w = (r, t)"
      using run that x by (simp add: relay_event_def bindE_def askR_def tryE_def)
    then show ?thesis
    proof (cases rule: bindE_cases)
      case (fail e)
      then show ?thesis
        using relay_prepare_moves [OF assms(1)] by blast
    next
      case (bind y v)
      have mv: "rmoves E w v"
        by (rule relay_prepare_moves [OF assms(1) bind(1)])
      have "framed event rec (rs_shared v)" if "sys_inv (rs_shared w)"
        using relay_prepare_framed [OF assms(1) that _ _ _ _ bind(1) [simplified]] relay_record_run(2) [OF x Inr] read w that by auto
      then have "rmoves E v t" if "sys_inv (rs_shared w)"
        using relay_publish_moves [OF assms(1,2) att _ bind(2)] that by blast
      then show ?thesis
        using mv rmoves_trans by (auto simp: rmoves_def moves_def)
    qed
  qed
  moreover have "rs_conn t = rs_conn s" if "re_ctx_Err E (rs_tick s) \<noteq> None"
    using run that by (auto simp: relay_event_def bindE_def askR_def)
  ultimately show ?thesis
    using w by (cases "re_ctx_Err E (rs_tick s)") (auto simp: rmoves_def)
qed

lemma relay_events_moves:
  assumes "rely (re_sql E)" and "dlq_law (re_lib E)" and "sys_inv (rs_shared s)"
    and "\<And>e. e \<in> set events \<Longrightarrow> ev_Attempts e \<le> maxPublishFailures \<and> read_event e (rs_shared s)"
    and "relay_events E now events s = (r, t)"
  shows "rmoves E s t"
  using assms(3-5)
proof (induction events arbitrary: s)
  case (Cons event events)
  from Cons.prems(3) obtain x u where u: "relay_event E now event s = (x, u)"
    by fastforce
  have mv: "rmoves E s u"
    using Cons.prems(2) by (intro relay_event_moves [OF assms(1,2) _ _ u]) auto
  then have run: "(sys_step (sq_ts (re_sql E)))\<^sup>*\<^sup>* (rs_shared s) (rs_shared u)"
    using Cons.prems(1) by (simp add: rmoves_def moves_def)
  have "rmoves E u t" if "x = Inr ()"
  proof (rule Cons.IH)
    show "sys_inv (rs_shared u)"
      using sys.run_inv [OF run Cons.prems(1)] .
    show "ev_Attempts e \<le> maxPublishFailures \<and> read_event e (rs_shared u)" if "e \<in> set events" for e
      using Cons.prems(2) [of e] that reading.fact_run [OF run Cons.prems(1)] by simp
    show "relay_events E now events u = (r, t)"
      using Cons.prems(3) u that by (simp add: bindE_def)
  qed
  moreover have "t = u" if "x \<noteq> Inr ()"
    using Cons.prems(3) u that by (cases x) (auto simp: bindE_def)
  ultimately show ?case
    using mv rmoves_trans by blast
qed simp

text \<open>The events a claim hands over: their rows are there, and none has used up more than its attempts.\<close>

lemma claimed_events:
  assumes "rely E" and "returning_law E" and "sys_inv (cn_shared c)" and "ClaimOutbox E limit now c = (Inr events, d)"
    and "e \<in> set events"
  shows "\<exists>r. event_row (cn_shared d) (ev_ID e) = Some (claimed (sq_ts E) now r) \<and> e = outbox_event_of r"
    and "ev_Attempts e \<le> maxPublishFailures \<and> read_event e (cn_shared d)"
proof -
  let ?s = "cn_shared (arrive E c)"
  obtain ids where ids: "claims E limit now ?s (cn_shared d) events ids"
    using assms(4) by (rule ClaimOutbox_claims) (use assms(2) in \<open>simp add: returning_law_def\<close>)
  have inv: "sys_inv ?s"
    using moves_inv [OF arrive_moves [OF assms(1)] assms(3)] .
  obtain r where r: "r \<in> set (tb_outbox (sh_tables ?s))" "or_event_id r \<in> ids" "e = outbox_event_of r"
    using assms(5) claims_set [OF ids] by auto
  have "or_status r \<noteq> INVALID"
    using claims_due [OF ids inv r(1,2)] by (auto simp: claimable_def)
  then have "or_attempts r \<le> maxPublishFailures"
    using inv r(1) by (auto simp: sys_inv_def outbox_inv_def outbox_row_ok_def)
  moreover show row: "\<exists>r. event_row (cn_shared d) (ev_ID e) = Some (claimed (sq_ts E) now r) \<and> e = outbox_event_of r"
    using claims_row [OF ids, of "or_event_id r"] event_row_mem [OF inv r(1)] r by (auto simp: outbox_event_of_def)
  ultimately show "ev_Attempts e \<le> maxPublishFailures \<and> read_event e (cn_shared d)"
    using r(3) by (auto simp: read_event_def outbox_event_of_def claimed_def)
qed

lemma Flush_moves:
  assumes "rely (re_sql E)" and "dlq_law (re_lib E)" and "returning_law (re_sql E)" and "Flush E s = (r, t)"
  shows "rmoves E s t"
proof (cases "sys_inv (rs_shared s)")
  case inv: True
  let ?u = "s\<lparr>rs_tick := Suc (rs_tick s)\<rparr>" and ?now = "re_clock E (rs_tick s)"
  obtain x c where c: "ClaimOutbox (re_sql E) 50 ?now (rs_conn s) = (x, c)"
    by fastforce
  have mv: "moves (re_sql E) (rs_conn s) c"
    by (rule guarD [OF claim_moves [OF assms(1)] c])
  show ?thesis
  proof (cases x)
    case (Inl e)
    then show ?thesis
      using assms(4) c mv by (auto simp: Flush_def bindE_def askR_def storeR_def zoomE_def rmoves_def)
  next
    case (Inr events)
    then have "relay_events E ?now events (?u\<lparr>rs_conn := c\<rparr>) = (r, t)"
      using assms(4) c by (simp add: Flush_def bindE_def askR_def storeR_def zoomE_def)
    then have "rmoves E (?u\<lparr>rs_conn := c\<rparr>) t"
      using claimed_events(2) [OF assms(1,3) inv c [unfolded Inr]] moves_inv [OF mv inv]
      by (intro relay_events_moves [OF assms(1,2)]) simp_all
    with mv show ?thesis
      by (auto simp: rmoves_def intro: moves_trans)
  qed
qed (simp add: rmoves_def moves_def)

section \<open>What becomes of an event\<close>

text \<open>The abstract view: the fate of an event that has failed \<open>attempts\<close> times, given whether its record could be
  made and whether the publications that were needed were acknowledged.\<close>

datatype fate = Published | Retried int | DeadLettered int | Invalid int

definition fate_of :: "int \<Rightarrow> bool \<Rightarrow> bool \<Rightarrow> bool \<Rightarrow> fate" where
  "fate_of attempts valid primary dlq =
     (if \<not> valid then (if attempts < 2 then Retried (attempts + 1) else Invalid (attempts + 1))
      else if attempts < 3 \<and> primary then Published
      else let n = (if attempts < 3 then attempts + 1 else attempts)
           in if n < 3 then Retried n else if dlq then DeadLettered n else Retried n)"

fun row_after :: "(time \<Rightarrow> time) \<Rightarrow> time \<Rightarrow> time \<Rightarrow> fate \<Rightarrow> outbox_row \<Rightarrow> outbox_row" where
  "row_after ts now later Published r = r\<lparr>or_status := PUBLISHED, or_published_at := Some (ts now)\<rparr>"
| "row_after ts now later (Retried n) r =
     r\<lparr>or_status := PENDING, or_attempts := n, or_available_at := ts later, or_claimed_at := None\<rparr>"
| "row_after ts now later (DeadLettered n) r = r\<lparr>or_status := FAILED, or_attempts := n, or_claimed_at := None\<rparr>"
| "row_after ts now later (Invalid n) r = r\<lparr>or_status := INVALID, or_attempts := n, or_claimed_at := None\<rparr>"

text \<open>\<open>changes eid f s t\<close>: between the two states only the row of \<open>eid\<close> has changed, by \<open>f\<close>.\<close>

definition changes :: "string \<Rightarrow> (outbox_row \<Rightarrow> outbox_row) \<Rightarrow> relay \<Rightarrow> relay \<Rightarrow> bool" where
  "changes eid f s t \<longleftrightarrow> event_row (rs_shared t) eid = map_option f (event_row (rs_shared s) eid)
     \<and> (\<forall>other. other \<noteq> eid \<longrightarrow> event_row (rs_shared t) other = event_row (rs_shared s) other)"

lemma changes_trans: "changes eid f s t \<Longrightarrow> changes eid g t u \<Longrightarrow> changes eid (g \<circ> f) s u"
  by (simp add: changes_def option.map_comp)

lemma changes_same: "rs_shared t = (rs_shared s)\<lparr>sh_broker := b\<rparr> \<Longrightarrow> changes eid id s t"
  by (simp add: changes_def event_row_def option.map_id)

lemma mark_applies:
  assumes E: "undisturbed (re_sql E)" and inv: "sys_inv (rs_shared s)"
    and row: "event_row (rs_shared s) eid = Some r" "is_claimed eid r" and n: "0 \<le> n" "n \<le> 4"
  shows "\<exists>t. storeR (MarkPublished (re_sql E) eid now) s = (Inr (), t)
      \<and> changes eid (row_after (sq_ts (re_sql E)) now later Published) s t"
    and "\<exists>t. storeR (MarkRetry (re_sql E) eid n later) s = (Inr (), t)
      \<and> changes eid (row_after (sq_ts (re_sql E)) now later (Retried n)) s t"
    and "\<exists>t. storeR (MarkFailed (re_sql E) eid n) s = (Inr (), t)
      \<and> changes eid (row_after (sq_ts (re_sql E)) now later (DeadLettered n)) s t"
    and "\<exists>t. storeR (MarkInvalid (re_sql E) eid n) s = (Inr (), t)
      \<and> changes eid (row_after (sq_ts (re_sql E)) now later (Invalid n)) s t"
proof -
  have int: "is_integer n"
    using n by (simp add: is_integer_def)
  note defs = storeR_def zoomE_def changes_def row
  show "\<exists>t. storeR (MarkPublished (re_sql E) eid now) s = (Inr (), t)
      \<and> changes eid (row_after (sq_ts (re_sql E)) now later Published) s t"
    by (rule published.applies [OF E inv row(1), of "sq_ts (re_sql E)" now _ "''outbox event is not claimed''"])
      (use row(2) in \<open>auto simp: claimed_update_defs MarkPublished_def defs\<close>)
  show "\<exists>t. storeR (MarkRetry (re_sql E) eid n later) s = (Inr (), t)
      \<and> changes eid (row_after (sq_ts (re_sql E)) now later (Retried n)) s t"
    by (rule retried.applies [OF E inv row(1), of "sq_ts (re_sql E)" n later _ "''outbox event is not claimed''"])
      (use row(2) int n in \<open>auto simp: claimed_update_defs MarkRetry_def defs\<close>)
  show "\<exists>t. storeR (MarkFailed (re_sql E) eid n) s = (Inr (), t)
      \<and> changes eid (row_after (sq_ts (re_sql E)) now later (DeadLettered n)) s t"
    by (rule ended.applies [OF E inv row(1), of n FAILED _ "''outbox event is not claimed''"])
      (use row(2) int n in \<open>auto simp: claimed_update_defs MarkFailed_def markTerminal_def defs\<close>)
  show "\<exists>t. storeR (MarkInvalid (re_sql E) eid n) s = (Inr (), t)
      \<and> changes eid (row_after (sq_ts (re_sql E)) now later (Invalid n)) s t"
    by (rule ended.applies [OF E inv row(1), of n INVALID _ "''outbox event is not claimed''"])
      (use row(2) int n in \<open>auto simp: claimed_update_defs MarkInvalid_def markTerminal_def defs\<close>)
qed

lemma PublishRaw_answer:
  "PublishRaw E rec s = (p, u) \<Longrightarrow> (p = Inr () \<longleftrightarrow> re_PublishRaw E (rs_tick s) rec = Acked)
     \<and> rs_tick u = Suc (rs_tick s) \<and> (\<exists>b. rs_shared u = (rs_shared s)\<lparr>sh_broker := b\<rparr>)"
  by (auto simp: PublishRaw_def at_broker_def Let_def split: publication.splits)
    (metis shared.surjective shared.update_convs(2))+

lemma event_row_broker [simp]: "event_row (sh\<lparr>sh_broker := b\<rparr>) eid = event_row sh eid"
  by (simp add: event_row_def)

abbreviation dlq_of :: "relay_env \<Rightarrow> RawRecord \<Rightarrow> int \<Rightarrow> time \<Rightarrow> RawRecord" where
  "dlq_of E rec n now \<equiv> kl_DLQRecord (re_lib E) rec ''Kafka message publication failed'' n now"

lemma publishDLQ_fate:
  assumes E: "undisturbed (re_sql E)" "dlq_law (re_lib E)" and inv: "sys_inv (rs_shared s)"
    and framed: "framed event rec (rs_shared s)"
    and row: "event_row (rs_shared s) (ev_ID event) = Some r" "is_claimed (ev_ID event) r" and n: "0 \<le> n" "n \<le> 3"
    and run: "publishDLQ E event rec n now s = (x, t)"
  shows "changes (ev_ID event) (row_after (sq_ts (re_sql E)) now (now + re_retryDelay E)
      (if re_PublishRaw E (rs_tick s) (dlq_of E rec n now) = Acked then DeadLettered n else Retried n)) s t"
    and "x = Inr () \<longleftrightarrow> re_PublishRaw E (rs_tick s) (dlq_of E rec n now) = Acked"
proof -
  obtain p u where p: "PublishRaw E (dlq_of E rec n now) s = (p, u)"
    by fastforce
  note ans = PublishRaw_answer [OF p]
  have "rmoves E s u"
    by (rule PublishRaw_moves [OF p, of "ev_ID event"]) (use framed dlq_framed [OF E(2)] in \<open>auto simp: framed_def\<close>)
  then have inv': "sys_inv (rs_shared u)"
    using inv moves_inv by (auto simp: rmoves_def)
  have row': "event_row (rs_shared u) (ev_ID event) = Some r"
    using ans row(1) by auto
  have su: "changes (ev_ID event) f u t \<Longrightarrow> changes (ev_ID event) f s t" for f
    using ans by (auto simp: changes_def)
  note mark = mark_applies [OF E(1) inv' row' row(2) n(1), where now = now and later = "now + re_retryDelay E"]
  have "changes (ev_ID event) (row_after (sq_ts (re_sql E)) now (now + re_retryDelay E)
      (if re_PublishRaw E (rs_tick s) (dlq_of E rec n now) = Acked then DeadLettered n else Retried n)) s t
    \<and> (x = Inr () \<longleftrightarrow> re_PublishRaw E (rs_tick s) (dlq_of E rec n now) = Acked)"
  proof (cases p)
    case (Inl e)
    then show ?thesis
      using run p ans mark(2) n(2) by (auto simp: publishDLQ_def tryE_def bindE_def intro: su)
  next
    case (Inr y)
    then show ?thesis
      using run p ans mark(3) n(2) by (auto simp: publishDLQ_def tryE_def intro: su)
  qed
  then show "changes (ev_ID event) (row_after (sq_ts (re_sql E)) now (now + re_retryDelay E)
      (if re_PublishRaw E (rs_tick s) (dlq_of E rec n now) = Acked then DeadLettered n else Retried n)) s t"
    and "x = Inr () \<longleftrightarrow> re_PublishRaw E (rs_tick s) (dlq_of E rec n now) = Acked"
    by blast+
qed

text \<open>Whether the publications a record needs are acknowledged, from the question numbered \<open>k\<close> on.\<close>

definition primary_acked :: "relay_env \<Rightarrow> nat \<Rightarrow> RawRecord \<Rightarrow> bool" where
  "primary_acked E k rec \<longleftrightarrow> re_PublishRaw E k rec = Acked"

definition dlq_acked :: "relay_env \<Rightarrow> nat \<Rightarrow> int \<Rightarrow> time \<Rightarrow> RawRecord \<Rightarrow> bool" where
  "dlq_acked E k attempts now rec \<longleftrightarrow>
     (if attempts < 3 then re_PublishRaw E (Suc k) (dlq_of E rec (attempts + 1) now) = Acked
      else re_PublishRaw E k (dlq_of E rec attempts now) = Acked)"

lemma relay_publish_fate:
  assumes E: "undisturbed (re_sql E)" "dlq_law (re_lib E)" and inv: "sys_inv (rs_shared s)"
    and framed: "framed event rec (rs_shared s)"
    and row: "event_row (rs_shared s) (ev_ID event) = Some r" "is_claimed (ev_ID event) r"
    and n: "0 \<le> ev_Attempts event" "ev_Attempts event \<le> 3"
    and run: "relay_publish E now event rec s = (x, t)"
  shows "changes (ev_ID event) (row_after (sq_ts (re_sql E)) now (now + re_retryDelay E)
      (fate_of (ev_Attempts event) True (primary_acked E (rs_tick s) rec) (dlq_acked E (rs_tick s) (ev_Attempts event) now rec))) s t"
    (is "changes _ (row_after _ _ _ ?fate) s t")
    and "x = Inr () \<or> fate_of (ev_Attempts event) True (primary_acked E (rs_tick s) rec)
        (dlq_acked E (rs_tick s) (ev_Attempts event) now rec) = Retried 3"
proof -
  have "changes (ev_ID event) (row_after (sq_ts (re_sql E)) now (now + re_retryDelay E) ?fate) s t \<and> (x = Inr () \<or> ?fate = Retried 3)"
  proof (cases "ev_Attempts event = 3")
    case True
    then have "publishDLQ E event rec 3 now s = (x, t)"
      using run by (simp add: relay_publish_def maxPublishFailures_def)
    then show ?thesis
      using publishDLQ_fate [OF E inv framed row, of 3 now x t] True by (auto simp: fate_of_def dlq_acked_def Let_def)
  next
    case False
    then have n': "0 \<le> ev_Attempts event + 1" "ev_Attempts event + 1 \<le> 3" "ev_Attempts event < 3"
      using n by simp_all
    obtain p u where p: "PublishRaw E rec s = (p, u)"
      by fastforce
    note ans = PublishRaw_answer [OF p]
    have mv: "rmoves E s u"
      by (rule PublishRaw_moves [OF p, of "ev_ID event"]) (use framed in \<open>auto simp: framed_def\<close>)
    then have inv': "sys_inv (rs_shared u)" and framed': "framed event rec (rs_shared u)"
      using inv moves_inv framed framing.fact_run [OF _ inv] by (auto simp: rmoves_def moves_def)
    have row': "event_row (rs_shared u) (ev_ID event) = Some r"
      using ans row(1) by auto
    have su: "changes (ev_ID event) f u t \<Longrightarrow> changes (ev_ID event) f s t" for f
      using ans by (auto simp: changes_def)
    note mark = mark_applies [OF E(1) inv' row' row(2) n'(1), where now = now and later = "now + re_retryDelay E"]
    note defs = relay_publish_def tryE_def maxPublishFailures_def fate_of_def primary_acked_def dlq_acked_def Let_def
    show ?thesis
    proof (cases p)
      case (Inl e)
      show ?thesis
      proof (cases "ev_Attempts event + 1 < 3")
        case True
        then show ?thesis
          using run p ans mark(2) n'(3) Inl by (auto simp: defs intro: su)
      next
        case False
        then have two: "ev_Attempts event = 2"
          using n'(2) by simp
        then have "publishDLQ E event rec 3 now u = (x, t)"
          using run p Inl by (simp add: defs)
        with two show ?thesis
          using publishDLQ_fate [OF E inv' framed' row' row(2), of 3 now x t] ans Inl by (auto simp: defs intro: su)
      qed
    next
      case (Inr y)
      then show ?thesis
        using run p ans mark(1) n' by (auto simp: defs intro: su)
    qed
  qed
  then show "changes (ev_ID event) (row_after (sq_ts (re_sql E)) now (now + re_retryDelay E) ?fate) s t"
    and "x = Inr () \<or> ?fate = Retried 3"
    by blast+
qed

text \<open>The frame is stored unless it already is.\<close>

definition keep_frame :: "bytes \<Rightarrow> bytes \<Rightarrow> outbox_row \<Rightarrow> outbox_row" where
  "keep_frame v h r = (if or_prepared_value r = None then r\<lparr>or_prepared_value := Some v, or_prepared_headers := Some h\<rparr> else r)"

lemma relay_prepare_applies:
  assumes E: "undisturbed (re_sql E)" and json: "\<And>hs. \<exists>h. kl_json_Marshal (re_lib E) hs = Inr h"
    and inv: "sys_inv (rs_shared s)" and row: "event_row (rs_shared s) (ev_ID event) = Some r" "is_claimed (ev_ID event) r"
    and event: "event = outbox_event_of r"
  obtains h t where "relay_prepare E event rec s = (Inr (), t)" "rs_tick t = rs_tick s"
    "changes (ev_ID event) (keep_frame (rr_Value rec) h) s t"
proof (cases "or_prepared_value r")
  case (Some v)
  then have "relay_prepare E event rec s = (Inr (), s)" "changes (ev_ID event) (keep_frame (rr_Value rec) []) s s"
    using row event by (simp_all add: relay_prepare_def outbox_event_of_def changes_def keep_frame_def)
  then show thesis
    using that by blast
next
  case None
  obtain h where h: "kl_json_Marshal (re_lib E) (rr_Headers rec) = Inr h"
    using json by blast
  have "r \<in> set (tb_outbox (sh_tables (rs_shared s)))"
    using event_rowD [OF row(1)] by simp
  then have g: "is_claimed (ev_ID event) r \<and> or_prepared_value r = None \<and> or_prepared_headers r = None"
    using inv None row(2) by (auto simp: sys_inv_def outbox_inv_def outbox_row_ok_def)
  obtain d where d: "SavePreparedOutbox (re_sql E) (ev_ID event) (rr_Value rec) h (rs_conn s) = (Inr (), d)"
    "event_row (cn_shared d) (ev_ID event) = Some (r\<lparr>or_prepared_value := Some (rr_Value rec), or_prepared_headers := Some h\<rparr>)"
    "\<And>other. other \<noteq> ev_ID event \<Longrightarrow> event_row (cn_shared d) other = event_row (rs_shared s) other"
    unfolding SavePreparedOutbox_def
    by (rule prepared.applies [OF E inv row(1) g, of "rr_Value rec" h]) (auto simp: claimed_update_defs)
  have "relay_prepare E event rec s = (Inr (), s\<lparr>rs_conn := d\<rparr>)"
    using None event h d(1) by (simp add: relay_prepare_def outbox_event_of_def bindE_def storeR_def zoomE_def)
  moreover have "changes (ev_ID event) (keep_frame (rr_Value rec) h) s (s\<lparr>rs_conn := d\<rparr>)"
    using d(2,3) row(1) None by (simp add: changes_def keep_frame_def)
  ultimately show thesis
    using that by simp
qed

definition outcome_of :: "relay_env \<Rightarrow> time \<Rightarrow> int \<Rightarrow> err + RawRecord \<Rightarrow> nat \<Rightarrow> fate" where
  "outcome_of E now attempts result k =
     (case result of
        Inl _ \<Rightarrow> fate_of attempts False False False
      | Inr rec \<Rightarrow> fate_of attempts True (primary_acked E k rec) (dlq_acked E k attempts now rec))"

lemma relay_event_fate:
  assumes E: "undisturbed (re_sql E)" "dlq_law (re_lib E)" and json: "\<And>hs. \<exists>h. kl_json_Marshal (re_lib E) hs = Inr h"
    and inv: "sys_inv (rs_shared s)" and row: "event_row (rs_shared s) (ev_ID event) = Some r" "is_claimed (ev_ID event) r"
    and event: "event = outbox_event_of r" and ctx: "re_ctx_Err E (rs_tick s) = None"
    and made: "relay_record E event now (s\<lparr>rs_tick := Suc (rs_tick s)\<rparr>) = (y, w)"
    and run: "relay_event E now event s = (x, t)"
  shows "x = Inr () \<or> outcome_of E now (or_attempts r) y (rs_tick w) = Retried 3"
    and "\<exists>f. changes (ev_ID event) (row_after (sq_ts (re_sql E)) now (now + re_retryDelay E)
        (outcome_of E now (or_attempts r) y (rs_tick w)) \<circ> f) s t
      \<and> (case y of Inl _ \<Rightarrow> f = id | Inr rec \<Rightarrow> \<exists>h. f = keep_frame (rr_Value rec) h)"
proof -
  let ?after = "row_after (sq_ts (re_sql E)) now (now + re_retryDelay E) (outcome_of E now (or_attempts r) y (rs_tick w))"
  have w: "rs_conn w = rs_conn s"
    using relay_record_run(1) [OF made] by simp
  have n: "0 \<le> or_attempts r" "or_attempts r \<le> 3" "ev_Attempts event = or_attempts r"
    using inv event_rowD [OF row(1)] row(2) event
    by (auto simp: sys_inv_def outbox_inv_def outbox_row_ok_def is_claimed_def maxPublishFailures_def outbox_event_of_def)
  have inv': "sys_inv (rs_shared w)" and row': "event_row (rs_shared w) (ev_ID event) = Some r"
    using w inv row(1) by simp_all
  have ws: "changes (ev_ID event) f w t \<Longrightarrow> changes (ev_ID event) f s t" for f
    using w by (simp add: changes_def)
  have "(x = Inr () \<or> outcome_of E now (or_attempts r) y (rs_tick w) = Retried 3)
    \<and> (\<exists>f. changes (ev_ID event) (?after \<circ> f) s t \<and> (case y of Inl _ \<Rightarrow> f = id | Inr rec \<Rightarrow> \<exists>h. f = keep_frame (rr_Value rec) h))"
  proof (cases y)
    case (Inl e)
    have "\<exists>t'. relay_event E now event s = (Inr (), t') \<and> changes (ev_ID event) ?after w t'"
      using ctx made Inl n mark_applies(2,4) [OF E(1) inv' row' row(2), of "or_attempts r + 1"]
      by (auto simp: relay_event_def bindE_def askR_def tryE_def Let_def maxPublishFailures_def outcome_of_def fate_of_def)
    then show ?thesis
      using run ws Inl by auto
  next
    case (Inr rec)
    obtain h v where v: "relay_prepare E event rec w = (Inr (), v)" "rs_tick v = rs_tick w"
      "changes (ev_ID event) (keep_frame (rr_Value rec) h) w v"
      by (rule relay_prepare_applies [OF E(1) json inv' row' row(2) event])
    have pub: "relay_publish E now event rec v = (x, t)"
      using run ctx made Inr v(1) by (simp add: relay_event_def bindE_def askR_def tryE_def)
    have inv'': "sys_inv (rs_shared v)"
      using relay_prepare_moves [OF undisturbed_rely [OF E(1)] v(1)] inv' moves_inv by (auto simp: rmoves_def)
    have row'': "event_row (rs_shared v) (ev_ID event) = Some (keep_frame (rr_Value rec) h r)"
      "is_claimed (ev_ID event) (keep_frame (rr_Value rec) h r)"
      using v(3) row' row(2) by (auto simp: changes_def keep_frame_def is_claimed_def)
    have "read_event event (rs_shared w)"
      using row' event by (auto simp: read_event_def outbox_event_of_def)
    then have framed: "framed event rec (rs_shared v)"
      using relay_prepare_framed [OF undisturbed_rely [OF E(1)] inv' _ _ _ _ v(1)] relay_record_run(2) [OF made Inr] by auto
    note fate = relay_publish_fate [OF E inv'' framed row'' _ _ pub]
    then show ?thesis
      using n v(2) changes_trans [OF v(3), of ?after t] ws Inr by (auto simp: outcome_of_def)
  qed
  then show "x = Inr () \<or> outcome_of E now (or_attempts r) y (rs_tick w) = Retried 3"
    and "\<exists>f. changes (ev_ID event) (?after \<circ> f) s t \<and> (case y of Inl _ \<Rightarrow> f = id | Inr rec \<Rightarrow> \<exists>h. f = keep_frame (rr_Value rec) h)"
    by blast+
qed

text \<open>A batch of claimed events whose records can be made and whose publications are acknowledged.\<close>

definition claimed_batch :: "OutboxEvent list \<Rightarrow> shared \<Rightarrow> bool" where
  "claimed_batch events sh \<longleftrightarrow> distinct (map ev_ID events)
     \<and> (\<forall>e \<in> set events. \<exists>r. event_row sh (ev_ID e) = Some r \<and> is_claimed (ev_ID e) r \<and> e = outbox_event_of r)"

definition settled_as :: "OutboxEvent \<Rightarrow> shared \<Rightarrow> bool" where
  "settled_as e sh \<longleftrightarrow> (\<exists>r. event_row sh (ev_ID e) = Some r \<and> or_status r = (if ev_Attempts e < 3 then PUBLISHED else FAILED))"

lemma relay_events_settle:
  assumes E: "undisturbed (re_sql E)" "dlq_law (re_lib E)" and json: "\<And>hs. \<exists>h. kl_json_Marshal (re_lib E) hs = Inr h"
    and ctx: "\<And>n. re_ctx_Err E n = None" and ack: "\<And>n rec. re_PublishRaw E n rec = Acked"
    and inv: "sys_inv (rs_shared s)" and batch: "claimed_batch events (rs_shared s)"
    and made: "\<And>e u. e \<in> set events \<Longrightarrow> \<exists>rec w. relay_record E e now u = (Inr rec, w)"
    and run: "relay_events E now events s = (x, t)"
  shows "x = Inr () \<and> (\<forall>e \<in> set events. settled_as e (rs_shared t))
    \<and> (\<forall>eid. eid \<notin> ev_ID ` set events \<longrightarrow> event_row (rs_shared t) eid = event_row (rs_shared s) eid)"
  using inv batch made run
proof (induction events arbitrary: s)
  case (Cons e events)
  obtain r where r: "event_row (rs_shared s) (ev_ID e) = Some r" "is_claimed (ev_ID e) r" "e = outbox_event_of r"
    using Cons.prems(2) by (auto simp: claimed_batch_def)
  obtain rec w where w: "relay_record E e now (s\<lparr>rs_tick := Suc (rs_tick s)\<rparr>) = (Inr rec, w)"
    using Cons.prems(3) by (meson list.set_intros(1))
  obtain y u where u: "relay_event E now e s = (y, u)"
    by fastforce
  note fate = relay_event_fate [OF E json Cons.prems(1) r ctx w u]
  have attempts: "ev_Attempts e = or_attempts r" "or_attempts r \<le> 3"
    using Cons.prems(1) event_rowD [OF r(1)] r(2,3)
    by (auto simp: sys_inv_def outbox_inv_def outbox_row_ok_def is_claimed_def maxPublishFailures_def outbox_event_of_def)
  then have out: "outcome_of E now (or_attempts r) (Inr rec) (rs_tick w)
      = (if or_attempts r < 3 then Published else DeadLettered (or_attempts r))"
    by (simp add: outcome_of_def fate_of_def primary_acked_def dlq_acked_def ack Let_def)
  have y: "y = Inr ()" and se: "settled_as e (rs_shared u)"
    and rest: "\<And>eid. eid \<noteq> ev_ID e \<Longrightarrow> event_row (rs_shared u) eid = event_row (rs_shared s) eid"
    using fate r(1) attempts(1) unfolding out by (auto simp: changes_def settled_as_def split: if_splits)
  have inv: "sys_inv (rs_shared u)"
    using relay_event_moves [OF undisturbed_rely [OF E(1)] E(2) _ _ u] attempts r Cons.prems(1) moves_inv
    by (auto simp: maxPublishFailures_def read_event_def outbox_event_of_def rmoves_def)
  have fresh: "ev_ID e \<notin> ev_ID ` set events"
    using Cons.prems(2) by (simp add: claimed_batch_def)
  then have "e' \<in> set events \<Longrightarrow> event_row (rs_shared u) (ev_ID e') = event_row (rs_shared s) (ev_ID e')" for e'
    by (metis rest image_eqI)
  then have batch: "claimed_batch events (rs_shared u)"
    using Cons.prems(2) by (simp add: claimed_batch_def)
  have "relay_events E now events u = (x, t)"
    using Cons.prems(4) u y by (simp add: bindE_def)
  then have IH: "x = Inr ()" "\<forall>e \<in> set events. settled_as e (rs_shared t)"
    "\<And>eid. eid \<notin> ev_ID ` set events \<Longrightarrow> event_row (rs_shared t) eid = event_row (rs_shared u) eid"
    using Cons.IH [OF inv batch] Cons.prems(3) by simp_all
  have "settled_as e (rs_shared t)"
    using se IH(3) [OF fresh] by (simp add: settled_as_def)
  then show ?case
    using IH rest by simp
qed simp

section \<open>Properties\<close>

text \<open>C9: Whatever fails and whatever the other instances do, a flush leaves the outbox consistent with the broker: an
  event is PUBLISHED only if its stored frame is at the broker on its topic and FAILED only if it is on the dead-letter
  topic; every record at the broker is the stored frame of an event; a stored frame never changes, and no event that
  had reached a final state is touched.\<close>

theorem flush_consistent:
  assumes "rely (re_sql E)" and "dlq_law (re_lib E)" and "returning_law (re_sql E)"
    and inv: "sys_inv (rs_shared s)" and run: "Flush E s = (x, t)"
  shows "(\<forall>e \<in> set (tb_outbox (sh_tables (rs_shared t))).
        (or_status e = PUBLISHED \<longrightarrow> (\<exists>r \<in> set (sh_broker (rs_shared t)). frames e r))
        \<and> (or_status e = FAILED \<longrightarrow> (\<exists>r \<in> set (sh_broker (rs_shared t)). dlq_frames e r)))
    \<and> (\<forall>r \<in> set (sh_broker (rs_shared t)). \<exists>e \<in> set (tb_outbox (sh_tables (rs_shared t))). frames e r \<or> dlq_frames e r)
    \<and> (\<forall>eid v. frame_entry (rs_shared s) eid = Some v \<longrightarrow> frame_entry (rs_shared t) eid = Some v)
    \<and> (\<forall>eid r. final_entry (rs_shared s) eid = Some r \<longrightarrow> final_entry (rs_shared t) eid = Some r)"
proof -
  have steps: "(sys_step (sq_ts (re_sql E)))\<^sup>*\<^sup>* (rs_shared s) (rs_shared t)"
    using Flush_moves [OF assms(1-3) run] inv by (simp add: rmoves_def moves_def)
  have "outbox_inv (sh_broker (rs_shared t)) (tb_outbox (sh_tables (rs_shared t)))"
    using sys.run_inv [OF steps inv] by (simp add: sys_inv_def)
  moreover have "frame_entry (rs_shared t) eid = Some v" if "frame_entry (rs_shared s) eid = Some v" for eid v
    by (rule stored_frames.entry_run [OF steps inv that])
  moreover have "final_entry (rs_shared t) eid = Some r" if "final_entry (rs_shared s) eid = Some r" for eid r
    by (rule final_events.entry_run [OF steps inv that])
  ultimately show ?thesis
    by (auto simp: outbox_inv_def outbox_row_ok_def)
qed

text \<open>C8: The relay implements the abstract fate of a claimed event: with a database that answers, the event's row ends
  exactly as \<open>fate_of\<close> says for the attempts it had used, whether its record could be made and which publications were
  acknowledged, with its frame stored first; every other row is as it was.  The relay goes on to the next event unless
  the dead-letter publication failed.\<close>

theorem event_fate:
  assumes "undisturbed (re_sql E)" and "dlq_law (re_lib E)" and "\<And>hs. \<exists>h. kl_json_Marshal (re_lib E) hs = Inr h"
    and "sys_inv (rs_shared s)" and row: "event_row (rs_shared s) (ev_ID event) = Some r" and "is_claimed (ev_ID event) r"
    and "event = outbox_event_of r" and "re_ctx_Err E (rs_tick s) = None"
    and "relay_record E event now (s\<lparr>rs_tick := Suc (rs_tick s)\<rparr>) = (y, w)"
    and "relay_event E now event s = (x, t)"
    and fate: "fate = (case y of
        Inl _ \<Rightarrow> fate_of (or_attempts r) False False False
      | Inr rec \<Rightarrow> fate_of (or_attempts r) True (primary_acked E (rs_tick w) rec)
          (dlq_acked E (rs_tick w) (or_attempts r) now rec))"
  shows "(x = Inr () \<or> fate = Retried 3)
    \<and> (\<exists>h. event_row (rs_shared t) (ev_ID event) = Some (row_after (sq_ts (re_sql E)) now (now + re_retryDelay E) fate
          (case y of Inl _ \<Rightarrow> r | Inr rec \<Rightarrow> keep_frame (rr_Value rec) h r)))
    \<and> (\<forall>other. other \<noteq> ev_ID event \<longrightarrow> event_row (rs_shared t) other = event_row (rs_shared s) other)"
proof -
  note result = relay_event_fate [OF assms(1-10)]
  have fate': "fate = outcome_of E now (or_attempts r) y (rs_tick w)"
    by (simp add: fate outcome_of_def)
  obtain f where f: "changes (ev_ID event) (row_after (sq_ts (re_sql E)) now (now + re_retryDelay E) fate \<circ> f) s t"
    "case y of Inl _ \<Rightarrow> f = id | Inr rec \<Rightarrow> \<exists>h. f = keep_frame (rr_Value rec) h"
    using result(2) unfolding fate' by blast
  then have "\<exists>h. f r = (case y of Inl _ \<Rightarrow> r | Inr rec \<Rightarrow> keep_frame (rr_Value rec) h r)"
    by (cases y) auto
  then show ?thesis
    using result(1) f(1) row unfolding fate' [symmetric] by (auto simp: changes_def)
qed

text \<open>A flush delivers: with a database that answers, a context that lasts, records that can be made and a broker
  that acknowledges, Flush succeeds and every event it claimed is PUBLISHED, or FAILED with its frame on the
  dead-letter topic if its attempts were already used up; no other event's row changes after the claim.\<close>

lemma Flush_settles:
  assumes E: "undisturbed (re_sql E)" "dlq_law (re_lib E)" "returning_law (re_sql E)"
    and json: "\<And>hs. \<exists>h. kl_json_Marshal (re_lib E) hs = Inr h"
    and ctx: "\<And>n. re_ctx_Err E n = None" and ack: "\<And>n rec. re_PublishRaw E n rec = Acked"
    and inv: "sys_inv (rs_shared s)" and claim: "ClaimOutbox (re_sql E) 50 (re_clock E (rs_tick s)) (rs_conn s) = (Inr events, c)"
    and made: "\<And>e u. e \<in> set events \<Longrightarrow> \<exists>rec w. relay_record E e (re_clock E (rs_tick s)) u = (Inr rec, w)"
    and run: "Flush E s = (x, t)"
  shows "x = Inr () \<and> (\<forall>e \<in> set events. \<exists>r. event_row (rs_shared t) (ev_ID e) = Some r
        \<and> or_status r = (if ev_Attempts e < 3 then PUBLISHED else FAILED))
    \<and> (\<forall>eid. eid \<notin> ev_ID ` set events \<longrightarrow> event_row (rs_shared t) eid = event_row (cn_shared c) eid)"
proof -
  let ?u = "s\<lparr>rs_tick := Suc (rs_tick s), rs_conn := c\<rparr>"
  note rely = undisturbed_rely [OF E(1)]
  have inv': "sys_inv (rs_shared ?u)"
    using moves_inv [OF guarD [OF claim_moves [OF rely] claim] inv] by simp
  obtain ids where "claims (re_sql E) 50 (re_clock E (rs_tick s)) (cn_shared (arrive (re_sql E) (rs_conn s))) (cn_shared c) events ids"
    using claim by (rule ClaimOutbox_claims) (use E(3) in \<open>simp add: returning_law_def\<close>)
  then have "distinct (map ev_ID events)"
    using claims_count(2) moves_inv [OF arrive_moves [OF rely] inv] by blast
  moreover have "\<exists>r. event_row (rs_shared ?u) (ev_ID e) = Some r \<and> is_claimed (ev_ID e) r \<and> e = outbox_event_of r"
    if "e \<in> set events" for e
    using claimed_events(1) [OF rely E(3) inv claim that] by (force simp: claimed_def is_claimed_def outbox_event_of_def)
  ultimately have batch: "claimed_batch events (rs_shared ?u)"
    by (simp add: claimed_batch_def)
  have "relay_events E (re_clock E (rs_tick s)) events ?u = (x, t)"
    using run claim by (simp add: Flush_def bindE_def askR_def storeR_def zoomE_def)
  from relay_events_settle [OF E(1,2) json ctx ack inv' batch made this] show ?thesis
    by (simp add: settled_as_def)
qed

lemma run_loop_some: "(\<exists>t. run_loop E d k s = Some t) \<longleftrightarrow> (\<exists>n \<ge> k. re_stop E d n)"
proof
  have stops: "\<exists>t. run_loop E d k s = Some t" if "re_stop E d (k + m)" for k m s
    using that
  proof (induction m arbitrary: k s)
    case 0
    then show ?case
      by (subst run_loop.simps) simp
  next
    case (Suc m)
    then have "\<exists>t. run_loop E d (Suc k) (snd (Flush E s)) = Some t"
      by simp
    then show ?case
      by (subst run_loop.simps) (simp add: Let_def)
  qed
  then show "\<exists>t. run_loop E d k s = Some t" if "\<exists>n \<ge> k. re_stop E d n"
    using that le_Suc_ex by blast
  have "\<exists>n \<ge> k. re_stop F d n" if "run_loop F d k s = Some t" for F d k s t
    by (rule run_loop.raw_induct [OF _ that, where P = "\<lambda>F d k s t. \<exists>n \<ge> k. re_stop F d n"])
      (auto simp: Let_def split: if_splits, use Suc_leD in blast)
  then show "\<exists>n \<ge> k. re_stop E d n" if "\<exists>t. run_loop E d k s = Some t"
    using that by blast
qed

lemma Run_some: "(\<exists>t. Run E interval s = Some t) \<longleftrightarrow> (\<exists>n. re_stop E (relay_interval interval) n)"
  unfolding Run_def run_loop_some by simp

lemma Run_moves:
  assumes "rely (re_sql E)" and "dlq_law (re_lib E)" and "returning_law (re_sql E)" and "Run E interval s = Some t"
  shows "rmoves E s t"
proof -
  have flush: "rmoves E s (snd (Flush E s))" for s
    using Flush_moves [OF assms(1-3) surjective_pairing] .
  have "F = E \<longrightarrow> rmoves E s t" if "run_loop F d k s = Some t" for F d k s t
    by (rule run_loop.raw_induct [OF _ that, where P = "\<lambda>F d k s t. F = E \<longrightarrow> rmoves E s t"])
      (use flush rmoves_trans in \<open>auto simp: Let_def split: if_splits, blast+\<close>)
  with assms(4) show ?thesis
    by (simp add: Run_def)
qed

text \<open>The relay's loop returns if and only if one of its waits ever sees the end of the context; when it returns, the
  shared state has only moved along the protocol.\<close>

lemma Run_returns:
  assumes "rely (re_sql E)" and "dlq_law (re_lib E)" and "returning_law (re_sql E)"
  shows "((\<exists>t. Run E interval s = Some t) \<longleftrightarrow> (\<exists>n. re_stop E (relay_interval interval) n))
    \<and> (\<forall>t. Run E interval s = Some t \<longrightarrow> rmoves E s t)"
  using Run_some Run_moves [OF assms] by blast

section \<open>A concrete relay\<close>

definition sample_lib :: kafka_lib where
  "sample_lib = \<lparr>kl_ValidateCanonicalHeaders = \<lambda>_. Inr (), kl_ValidateEvent = \<lambda>_ _ _ _ _. Inr (),
     kl_CanonicalHeaders = \<lambda>_ _ _ eid _. Inr [(''event-id'', bytes_of eid)],
     kl_DLQRecord = \<lambda>r _ _ _. r\<lparr>rr_Topic := rr_Topic r @ ''.DLQ''\<rparr>, kl_json_Marshal = \<lambda>_. Inr [1],
     kl_json_Unmarshal = \<lambda>_. Inr [], kl_proto_Unmarshal = \<lambda>_. Inr (''m1'', ''g1'', 1500)\<rparr>"

definition sample_relay :: relay_env where
  "sample_relay = \<lparr>re_sql = quiet_env, re_lib = sample_lib, re_source = ''ms-gym-checkin'', re_retryDelay = 2 * Second,
     re_Encode = \<lambda>_ _ _. Inr [0, 1, 2], re_PublishRaw = \<lambda>_ _. Acked, re_clock = \<lambda>_. 5000, re_ctx_Err = \<lambda>_. None,
     re_stop = \<lambda>_ n. n = 1\<rparr>"

text \<open>One check-in is recorded, and its event is claimed.\<close>

definition relay_start :: relay where
  "relay_start = \<lparr>rs_conn = snd first_scan, rs_tick = 0\<rparr>"

definition relay_claimed :: relay where
  "relay_claimed = \<lparr>rs_conn = snd (ClaimOutbox quiet_env 50 5000 (snd first_scan)), rs_tick = 1\<rparr>"

definition claimed_row :: outbox_row where
  "claimed_row = claimed (sq_ts quiet_env) 5000 (new_outbox_row (sq_ts quiet_env) sample_event)"

lemma sample_relay_laws:
  "rely (re_sql sample_relay)" "dlq_law (re_lib sample_relay)" "returning_law (re_sql sample_relay)"
  "undisturbed (re_sql sample_relay)" "\<exists>h. kl_json_Marshal (re_lib sample_relay) hs = Inr h"
  "re_ctx_Err sample_relay n = None" "re_PublishRaw sample_relay n rec = Acked"
  by (simp_all add: sample_relay_def sample_lib_def dlq_law_def returning_law_def undisturbed_def)
    (simp_all add: quiet_env_def)

lemma relay_start_inv: "sys_inv (rs_shared relay_start)"
  using first_scan_inv by (simp add: relay_start_def)

lemma relay_claim:
  "ClaimOutbox quiet_env 50 5000 (snd first_scan) = (Inr [outbox_event_of claimed_row], rs_conn relay_claimed)"
  "event_row (rs_shared relay_claimed) ''e1'' = Some claimed_row"
  by code_simp+

lemma relay_claimed_inv: "sys_inv (rs_shared relay_claimed)"
  using moves_inv [OF guarD [OF claim_moves [OF rely_quiet] relay_claim(1)] first_scan_inv] .

lemma sample_made: "\<exists>rec w. relay_record sample_relay (outbox_event_of claimed_row) now u = (Inr rec, w)"
  by (simp add: relay_record_def fresh_record_def claimed_row_def new_outbox_row_def claimed_def outbox_event_of_def
      sample_event_def bindE_def callR_def askR_def sample_relay_def sample_lib_def)

lemma sample_flush: "map or_status (tb_outbox (sh_tables (rs_shared (snd (Flush sample_relay relay_start))))) = [PUBLISHED]"
  by code_simp

theorem flush_consistent_witness:
  "\<exists>e \<in> set (tb_outbox (sh_tables (rs_shared (snd (Flush sample_relay relay_start))))).
     \<exists>r \<in> set (sh_broker (rs_shared (snd (Flush sample_relay relay_start)))). frames e r"
proof -
  obtain e where "e \<in> set (tb_outbox (sh_tables (rs_shared (snd (Flush sample_relay relay_start)))))" "or_status e = PUBLISHED"
    using sample_flush by (auto simp: map_eq_Cons_conv)
  then show ?thesis
    using flush_consistent [OF sample_relay_laws(1-3) relay_start_inv surjective_pairing] by blast
qed

theorem event_fate_witness:
  "\<exists>h. event_row (rs_shared (snd (relay_event sample_relay 5000 (outbox_event_of claimed_row) relay_claimed))) ''e1''
     = Some ((keep_frame [0, 1, 2] h claimed_row)\<lparr>or_status := PUBLISHED, or_published_at := Some 5000\<rparr>)"
proof -
  let ?e = "outbox_event_of claimed_row"
  have id: "ev_ID ?e = ''e1''" "is_claimed ''e1'' claimed_row" "or_attempts claimed_row = 0"
    by (simp_all add: claimed_row_def new_outbox_row_def claimed_def outbox_event_of_def sample_event_def is_claimed_def)
  obtain rec w where w: "relay_record sample_relay ?e 5000 (relay_claimed\<lparr>rs_tick := Suc (rs_tick relay_claimed)\<rparr>) = (Inr rec, w)"
    using sample_made by blast
  then have "rr_Value rec = [0, 1, 2]"
    by (auto simp: relay_record_def fresh_record_def claimed_row_def new_outbox_row_def claimed_def outbox_event_of_def
      sample_event_def bindE_def callR_def askR_def sample_relay_def sample_lib_def)
  moreover have "fate_of 0 True (primary_acked sample_relay (rs_tick w) rec) d = Published" for d
    using sample_relay_laws(7) by (simp add: fate_of_def primary_acked_def)
  ultimately show ?thesis
    using event_fate [OF sample_relay_laws(4,2,5) relay_claimed_inv relay_claim(2) [folded id(1)] id(2) [folded id(1)] refl
        sample_relay_laws(6) w surjective_pairing refl] id
    by (auto simp: sample_relay_def quiet_env_def)
qed

end
