(* ===== verification/Server.thy ===== *)
theory Server
  imports Handler Config Relay
begin

text \<open>
  \<open>cmd/server/main.go\<close>: how a process starts, serves and stops, with the constructors of the adapters it calls.
  What the libraries and the operating system answer is in \<open>run_env\<close>; the state is the trace of the resources
  the process has opened and closed, with the variable \<open>relayStopped\<close>.  \<open>deferP\<close> is a deferred call: it runs when
  the rest of the function has returned, whatever it returned.  An error that \<open>errors.Join\<close> builds is the list of
  its parts, and the empty list is nil.
\<close>

section \<open>Constructors of the adapters\<close>

datatype action =
    OpenStore | CloseStore | OpenMember | CloseMember | OpenPlans | ClosePlans | OpenListener | CloseListener
  | StartRelay | RelayDone | Cancel | ShutdownHTTP | StopGraceful | StopForced | OpenRegistry | CloseRegistry
  | OpenProducer | CloseProducer

text \<open>\<open>yugabyte.New\<close>: a database that opens but does not answer is closed again.\<close>

definition store_New :: "(string \<Rightarrow> err + unit) \<Rightarrow> err + unit \<Rightarrow> string \<Rightarrow> (err + unit) \<times> action list" where
  "store_New open_db ping url =
     (case open_db url of
        Inl e \<Rightarrow> (Inl e, [])
      | Inr _ \<Rightarrow> (case ping of Inl e \<Rightarrow> (Inl e, [OpenStore, CloseStore]) | Inr _ \<Rightarrow> (Inr (), [OpenStore])))"

text \<open>\<open>tls.ClientAuthType\<close>.\<close>

datatype client_auth =
    NoClientCert | RequestClientCert | RequireAnyClientCert | VerifyClientCertIfGiven | RequireAndVerifyClientCert

record server_tls =
  sc_Certificate :: bytes
  sc_ClientCAs :: bytes
  sc_ClientAuth :: client_auth
  sc_VerifyPeerCertificate :: "bytes list \<Rightarrow> err + unit"
  sc_MinVersion :: tls_version

definition serverCredentials :: "cert_files \<Rightarrow> (bytes \<Rightarrow> err + certificate) \<Rightarrow> Config \<Rightarrow> err + server_tls" where
  "serverCredentials fs parse cfg =
     (case cf_LoadX509KeyPair fs (cf_GRPCServerCert cfg) (cf_GRPCServerKey cfg) of
        Inl e \<Rightarrow> Inl e
      | Inr cert \<Rightarrow>
          (case cf_ReadFile fs (cf_GRPCClientCA cfg) of
             Inl e \<Rightarrow> Inl e
           | Inr pem \<Rightarrow>
               if \<not> cf_AppendCertsFromPEM fs pem then Inl (Errorf ''invalid Check-in client CA'')
               else Inr \<lparr>sc_Certificate = cert, sc_ClientCAs = pem, sc_ClientAuth = RequireAndVerifyClientCert,
                 sc_VerifyPeerCertificate = VerifyGeneratedGateway parse, sc_MinVersion = VersionTLS12\<rparr>))"

section \<open>Health\<close>

definition healthHandler :: "svc_env \<Rightarrow> string \<Rightarrow> svc \<Rightarrow> (nat \<times> svc) option" where
  "healthHandler E path s =
     (if path = ''/healthz'' then Some (200, s)
      else if path = ''/readyz''
        then (case Service_Ready E s of
                None \<Rightarrow> None
              | Some (r, t) \<Rightarrow> (case r of Inl _ \<Rightarrow> Some (503, t) | Inr _ \<Rightarrow> Some (200, t)))
      else Some (404, s))"

section \<open>The relay's goroutine\<close>

text \<open>\<open>newProducer\<close>, given what the two constructors of the library answer; the function it returns closes the
  producer, then the registry.\<close>

text \<open>C30: The readiness probe always answers: as its context has a time limit, the waits for the two connections end, and the
  answer is 200 exactly when the database and KMS answer and both connections get ready before their waits end, and 503
  otherwise; the instance is left as it was.\<close>

theorem readyz_answers:
  assumes "\<And>n. \<exists>k. \<not> snd (se_member_conn E n) k" and "\<And>n. \<exists>k. \<not> snd (se_plans_conn E n) k"
  shows "\<exists>t. healthHandler E ''/readyz'' s =
      Some (if se_store_ping E (sv_tick s) = Inr () \<and> kms_Ping (se_kms E) (sv_tick s + 1) (se_protector E) = Inr ()
          \<and> gets_ready (se_member_conn E (sv_tick s + 2)) \<and> gets_ready (se_plans_conn E (sv_tick s + 3)) then 200 else 503, t)
    \<and> sv_conn t = sv_conn s \<and> sv_mem t = sv_mem s"
proof -
  obtain r t where run: "Service_Ready E s = Some (r, t)"
    and ok: "r = Inr () \<longleftrightarrow> se_store_ping E (sv_tick s) = Inr () \<and> kms_Ping (se_kms E) (sv_tick s + 1) (se_protector E) = Inr ()
      \<and> gets_ready (se_member_conn E (sv_tick s + 2)) \<and> gets_ready (se_plans_conn E (sv_tick s + 3))"
    using ready_returns [OF assms] by blast
  show ?thesis
    unfolding ok [symmetric] using run ready_keeps [OF run] by (cases r) (auto simp: healthHandler_def)
qed

definition newProducer ::
  "(string \<Rightarrow> err + unit) \<Rightarrow> (string list \<Rightarrow> duration \<Rightarrow> err + unit) \<Rightarrow> Config \<Rightarrow> (err + action list) \<times> action list" where
  "newProducer new_registry new_producer cfg =
     (case new_registry (cf_SchemaRegistryURL cfg) of
        Inl e \<Rightarrow> (Inl e, [])
      | Inr _ \<Rightarrow>
          (case new_producer (Split (CHR '','') (cf_KafkaBrokers cfg)) (5 * Second) of
             Inl e \<Rightarrow> (Inl e, [OpenRegistry, CloseRegistry])
           | Inr _ \<Rightarrow> (Inr [CloseProducer, CloseRegistry], [OpenRegistry, OpenProducer])))"

text \<open>\<open>runOutboxRelay\<close>, round by round: whether the context has ended, what the producer's constructors answer, whether
  the wait of one second sees the end of the context, and the surroundings of the relay.\<close>

record outbox_env =
  oe_ctx_done :: "nat \<Rightarrow> bool"
  oe_registry :: "nat \<Rightarrow> string \<Rightarrow> err + unit"
  oe_producer :: "nat \<Rightarrow> string list \<Rightarrow> duration \<Rightarrow> err + unit"
  oe_wait_done :: "nat \<Rightarrow> bool"
  oe_relay :: "nat \<Rightarrow> relay_env"

partial_function (option) outbox_loop ::
    "outbox_env \<Rightarrow> Config \<Rightarrow> nat \<Rightarrow> relay \<Rightarrow> action list \<Rightarrow> (relay \<times> action list) option" where
  "outbox_loop E cfg n s acts =
     (if oe_ctx_done E n then Some (s, acts)
      else case newProducer (oe_registry E n) (oe_producer E n) cfg of
             (Inl _, tried) \<Rightarrow>
               if oe_wait_done E n then Some (s, acts @ tried) else outbox_loop E cfg (Suc n) s (acts @ tried)
           | (Inr closeProducer, opened) \<Rightarrow>
               (case Run (NewRelay (oe_relay E n) (cf_ServiceName cfg) (cf_OutboxRetryDelay cfg)) (cf_RelayInterval cfg) s of
                  None \<Rightarrow> None
                | Some t \<Rightarrow> outbox_loop E cfg (Suc n) t (acts @ opened @ closeProducer)))"

declare outbox_loop.simps [code]

definition runOutboxRelay :: "outbox_env \<Rightarrow> Config \<Rightarrow> relay \<Rightarrow> (relay \<times> action list) option" where
  "runOutboxRelay E cfg s = outbox_loop E cfg 0 s []"

section \<open>The process\<close>

datatype served = Signalled | ServeGRPC err | ServeHTTP err

record run_env =
  rn_getenv :: environment
  rn_open_db :: "string \<Rightarrow> err + unit"
  rn_ping_db :: "err + unit"
  rn_files :: cert_files
  rn_dial_member :: "string \<Rightarrow> tls_config \<Rightarrow> err + unit"
  rn_dial_plans :: "string \<Rightarrow> tls_config \<Rightarrow> err + unit"
  rn_parse_url :: "string \<Rightarrow> err + URL"
  rn_aws_config :: "string \<Rightarrow> err + unit"
  rn_kms :: kms_api
  rn_NewRegistry :: "MethodRule list \<Rightarrow> err + unit"
  rn_NewMetrics :: "string \<Rightarrow> err + unit"
  rn_NewValidator :: "err + unit"
  rn_parse_cert :: "bytes \<Rightarrow> err + certificate"
  rn_listen :: "string \<Rightarrow> err + unit"
  rn_served :: served
  rn_http_shutdown :: "err option"
  rn_is_canceled :: "err \<Rightarrow> bool"
  rn_stopped_in_time :: bool
  rn_relay_done_in_time :: bool

record proc =
  pc_trace :: "action list"
  pc_relayStopped :: bool

definition tell :: "action list \<Rightarrow> proc \<Rightarrow> proc" where
  "tell acts s = s\<lparr>pc_trace := pc_trace s @ acts\<rparr>"

definition deferP :: "(proc \<Rightarrow> proc) \<Rightarrow> (proc \<Rightarrow> err list \<times> proc) \<Rightarrow> proc \<Rightarrow> err list \<times> proc" where
  "deferP f m s = (case m s of (r, t) \<Rightarrow> (r, f t))"

text \<open>\<open>if err != nil { return fmt.Errorf("name: %w", err) }\<close>.\<close>

definition checkP :: "string \<Rightarrow> err + 'a \<Rightarrow> ('a \<Rightarrow> proc \<Rightarrow> err list \<times> proc) \<Rightarrow> proc \<Rightarrow> err list \<times> proc" where
  "checkP name r k s = (case r of Inl e \<Rightarrow> ([Wrap name e], s) | Inr x \<Rightarrow> k x s)"

definition waitForRelay :: "bool \<Rightarrow> err + unit" where
  "waitForRelay done_first = (if done_first then Inr () else Inl ContextDone)"

text \<open>From the start of the goroutines to the end of \<open>run\<close>.  \<open>rn_served\<close> is what the first \<open>select\<close> receives: the
  signal, or the error of a server that stopped by itself.  \<open>rn_is_canceled\<close> is \<open>errors.Is(err, context.Canceled)\<close>;
  \<open>rn_stopped_in_time\<close> and \<open>rn_relay_done_in_time\<close> are whether the graceful stop and the relay's end come before the
  shutdown's deadline.\<close>

definition serve_failure :: "served \<Rightarrow> err list" where
  "serve_failure r = (case r of
       Signalled \<Rightarrow> [] | ServeGRPC e \<Rightarrow> [Wrap ''serve grpc'' e] | ServeHTTP e \<Rightarrow> [Wrap ''serve HTTP'' e])"

definition serve_and_stop :: "run_env \<Rightarrow> proc \<Rightarrow> err list \<times> proc" where
  "serve_and_stop E s =
     (let s = tell [StartRelay] (s\<lparr>pc_relayStopped := False\<rparr>);
          serveFailure = serve_failure (rn_served E);
          s = (if rn_served E = Signalled then s else tell [Cancel] s);
          s = tell [ShutdownHTTP] s;
          serveFailure = serveFailure @ (case rn_http_shutdown E of
             None \<Rightarrow> [] | Some e \<Rightarrow> if rn_is_canceled E e then [] else [Wrap ''shutdown HTTP'' e]);
          s = tell [if rn_stopped_in_time E then StopGraceful else StopForced] s
      in case waitForRelay (rn_relay_done_in_time E) of
           Inl e \<Rightarrow> (serveFailure @ [Wrap ''shutdown outbox relay'' e], s)
         | Inr _ \<Rightarrow> (serveFailure, tell [RelayDone] (s\<lparr>pc_relayStopped := True\<rparr>)))"

definition close_store :: "proc \<Rightarrow> proc" where
  "close_store s = (if pc_relayStopped s then tell [CloseStore] s else s)"

definition run :: "run_env \<Rightarrow> proc \<Rightarrow> err list \<times> proc" where
  "run E s =
     (case Load (rn_getenv E) of
        Inl e \<Rightarrow> ([Wrap ''config'' e], s)
      | Inr cfg \<Rightarrow>
          (case store_New (rn_open_db E) (rn_ping_db E) (cf_DatabaseURL cfg) of
             (Inl e, acts) \<Rightarrow> ([Wrap ''yugabyte'' e], tell acts s)
           | (Inr _, acts) \<Rightarrow>
               deferP close_store
                 (checkP ''member client'' (member_New (rn_files E) (rn_dial_member E) (cf_Member cfg)) (\<lambda>_ s.
                   deferP (tell [CloseMember])
                     (checkP ''plans client'' (plans_New (rn_files E) (rn_dial_plans E) (cf_Plans cfg)) (\<lambda>_ s.
                       deferP (tell [ClosePlans])
                         (checkP ''KMS'' (kms_New (rn_parse_url E) (rn_aws_config E (cf_AWSRegion cfg)) (rn_kms E) 0
                            (cf_KMSKeyID cfg) (cf_KMSEndpointURL cfg)) (\<lambda>_.
                          checkP ''method registry'' (rn_NewRegistry E MethodRules) (\<lambda>_.
                          checkP ''metrics'' (rn_NewMetrics E (cf_ServiceName cfg)) (\<lambda>_.
                          checkP ''protovalidate'' (rn_NewValidator E) (\<lambda>_ s.
                            case serverCredentials (rn_files E) (rn_parse_cert E) cfg of
                              Inl e \<Rightarrow> ([e], s)
                            | Inr _ \<Rightarrow>
                                checkP ''listen grpc'' (rn_listen E (cf_GRPCAddr cfg)) (\<lambda>_ s.
                                  deferP (tell [CloseListener])
                                    (deferP (tell [Cancel]) (serve_and_stop E)) (tell [OpenListener] s)) s)))))
                         (tell [OpenPlans] s)))
                     (tell [OpenMember] s)))
                 (tell acts (s\<lparr>pc_relayStopped := True\<rparr>))))"

text \<open>\<open>main\<close>: the exit status.\<close>

definition main_exit :: "run_env \<Rightarrow> nat" where
  "main_exit E = (if fst (run E \<lparr>pc_trace = [], pc_relayStopped = True\<rparr>) = [] then 0 else 1)"

section \<open>Resources are released in reverse order\<close>

text \<open>The reference: a stack of open resources, with whether the relay runs.  Only the resource on top may be closed, and
  the store only when no relay uses it.\<close>

fun opens :: "action \<Rightarrow> bool" where
  "opens a \<longleftrightarrow> a \<in> {OpenStore, OpenMember, OpenPlans, OpenListener, OpenRegistry, OpenProducer}"

fun closes :: "action \<Rightarrow> action option" where
  "closes CloseStore = Some OpenStore"
| "closes CloseMember = Some OpenMember"
| "closes ClosePlans = Some OpenPlans"
| "closes CloseListener = Some OpenListener"
| "closes CloseRegistry = Some OpenRegistry"
| "closes CloseProducer = Some OpenProducer"
| "closes _ = None"

fun held_step :: "action \<Rightarrow> action list \<times> bool \<Rightarrow> (action list \<times> bool) option" where
  "held_step a (stack, running) =
     (if opens a then Some (a # stack, running)
      else if a = StartRelay then (if running \<or> OpenStore \<notin> set stack then None else Some (stack, True))
      else if a = RelayDone then (if running then Some (stack, False) else None)
      else case closes a of
             None \<Rightarrow> Some (stack, running)
           | Some r \<Rightarrow> (case stack of
               [] \<Rightarrow> None
             | x # rest \<Rightarrow> if x = r \<and> (a = CloseStore \<longrightarrow> \<not> running) then Some (rest, running) else None))"

fun held :: "action list \<Rightarrow> action list \<times> bool \<Rightarrow> (action list \<times> bool) option" where
  "held [] st = Some st"
| "held (a # acts) st = (case held_step a st of None \<Rightarrow> None | Some st' \<Rightarrow> held acts st')"

lemma held_append: "held (xs @ ys) st = (case held xs st of None \<Rightarrow> None | Some st' \<Rightarrow> held ys st')"
  by (induction xs arbitrary: st) (auto split: option.splits)

text \<open>A part of \<open>run\<close> that starts and ends with the same resources open; if the relay is left running, it reports it.\<close>

definition neat :: "action list \<Rightarrow> (proc \<Rightarrow> err list \<times> proc) \<Rightarrow> bool" where
  "neat stack m \<longleftrightarrow> (\<forall>s r t. pc_relayStopped s \<longrightarrow> m s = (r, t) \<longrightarrow> (\<exists>acts. pc_trace t = pc_trace s @ acts
     \<and> held acts (stack, False) = Some (stack, \<not> pc_relayStopped t) \<and> (pc_relayStopped t \<or> r \<noteq> [])))"

lemma neatE:
  assumes "neat stack m" and "pc_relayStopped s" and "m s = (r, t)"
  obtains acts where "pc_trace t = pc_trace s @ acts" and "held acts (stack, False) = Some (stack, \<not> pc_relayStopped t)"
    and "pc_relayStopped t \<or> r \<noteq> []"
  using assms unfolding neat_def by blast

lemma neat_fail [intro]: "neat stack (\<lambda>s. (r, s))"
  by (auto simp: neat_def)

lemma neat_check [intro]: "(\<And>x. neat stack (k x)) \<Longrightarrow> neat stack (checkP name res k)"
  by (auto simp: neat_def checkP_def split: sum.splits)

text \<open>Opening a resource, deferring its closing.\<close>

lemma neat_defer:
  assumes m: "neat (a # stack) m" and a: "opens a" "closes c = Some a" "c \<noteq> CloseStore"
  shows "neat stack (\<lambda>s. deferP (tell [c]) m (tell [a] s))"
  unfolding neat_def
proof (intro allI impI)
  fix s r t
  assume s: "pc_relayStopped s" and run: "deferP (tell [c]) m (tell [a] s) = (r, t)"
  obtain u where u: "m (tell [a] s) = (r, u)" "t = tell [c] u"
    using run by (auto simp: deferP_def split: prod.splits)
  have "pc_relayStopped (tell [a] s)"
    using s by (simp add: tell_def)
  from neatE [OF m this u(1)] obtain acts where acts: "pc_trace u = pc_trace (tell [a] s) @ acts"
      "held acts (a # stack, False) = Some (a # stack, \<not> pc_relayStopped u)" "pc_relayStopped u \<or> r \<noteq> []" .
  have "\<not> opens c" "c \<noteq> StartRelay" "c \<noteq> RelayDone"
    using a by (cases c; auto)+
  with acts a u show "\<exists>acts. pc_trace t = pc_trace s @ acts \<and> held acts (stack, False) = Some (stack, \<not> pc_relayStopped t)
      \<and> (pc_relayStopped t \<or> r \<noteq> [])"
    by (intro exI [of _ "a # acts @ [c]"]) (simp add: tell_def held_append)
qed

lemma neat_cancel: "neat stack m \<Longrightarrow> neat stack (deferP (tell [Cancel]) m)"
  unfolding neat_def deferP_def
  by (fastforce simp: tell_def held_append split: prod.splits)

lemma neat_serve: "OpenStore \<in> set stack \<Longrightarrow> neat stack (serve_and_stop E)"
  by (auto simp: neat_def serve_and_stop_def tell_def waitForRelay_def Let_def split: if_splits)

lemma neat_body:
  assumes "run E s = (r, t)" and "Load (rn_getenv E) = Inr cfg"
    and "store_New (rn_open_db E) (rn_ping_db E) (cf_DatabaseURL cfg) = (Inr u, acts)"
  obtains m where "neat [OpenStore] m" and "(r, t) = deferP close_store m (tell acts (s\<lparr>pc_relayStopped := True\<rparr>))"
proof
  let ?m = "checkP ''member client'' (member_New (rn_files E) (rn_dial_member E) (cf_Member cfg)) (\<lambda>_ s.
     deferP (tell [CloseMember])
       (checkP ''plans client'' (plans_New (rn_files E) (rn_dial_plans E) (cf_Plans cfg)) (\<lambda>_ s.
         deferP (tell [ClosePlans])
           (checkP ''KMS'' (kms_New (rn_parse_url E) (rn_aws_config E (cf_AWSRegion cfg)) (rn_kms E) 0
              (cf_KMSKeyID cfg) (cf_KMSEndpointURL cfg)) (\<lambda>_.
            checkP ''method registry'' (rn_NewRegistry E MethodRules) (\<lambda>_.
            checkP ''metrics'' (rn_NewMetrics E (cf_ServiceName cfg)) (\<lambda>_.
            checkP ''protovalidate'' (rn_NewValidator E) (\<lambda>_ s.
              case serverCredentials (rn_files E) (rn_parse_cert E) cfg of
                Inl e \<Rightarrow> ([e], s)
              | Inr _ \<Rightarrow>
                  checkP ''listen grpc'' (rn_listen E (cf_GRPCAddr cfg)) (\<lambda>_ s.
                    deferP (tell [CloseListener])
                      (deferP (tell [Cancel]) (serve_and_stop E)) (tell [OpenListener] s)) s)))))
           (tell [OpenPlans] s)))
       (tell [OpenMember] s))"
  show "(r, t) = deferP close_store ?m (tell acts (s\<lparr>pc_relayStopped := True\<rparr>))"
    using assms by (simp add: run_def)
  have listening: "neat [OpenPlans, OpenMember, OpenStore] (\<lambda>s. case serverCredentials (rn_files E) (rn_parse_cert E) cfg of
                Inl e \<Rightarrow> ([e], s)
              | Inr _ \<Rightarrow>
                  checkP ''listen grpc'' (rn_listen E (cf_GRPCAddr cfg)) (\<lambda>_ s.
                    deferP (tell [CloseListener])
                      (deferP (tell [Cancel]) (serve_and_stop E)) (tell [OpenListener] s)) s)"
    by (cases "serverCredentials (rn_files E) (rn_parse_cert E) cfg")
      (auto intro!: neat_fail neat_check neat_defer neat_cancel neat_serve)
  show "neat [OpenStore] ?m"
    by (intro neat_check neat_defer listening) simp_all
qed

text \<open>C24: Whatever fails, \<open>run\<close> closes every resource it has opened, each once and in reverse order, and never closes the
  database under a running relay: at the end nothing is open, except the database when the relay has not stopped within
  the shutdown's deadline, and then the process exits with status 1.\<close>

theorem run_releases:
  "\<exists>left running. held (pc_trace (snd (run E \<lparr>pc_trace = [], pc_relayStopped = True\<rparr>))) ([], False) = Some (left, running)
     \<and> (if running then left = [OpenStore] \<and> main_exit E = 1 else left = [])"
proof -
  let ?s = "\<lparr>pc_trace = [], pc_relayStopped = True\<rparr>"
  obtain r t where run: "run E ?s = (r, t)"
    by fastforce
  show ?thesis
  proof (cases "Load (rn_getenv E)")
    case (Inl e)
    then show ?thesis
      by (intro exI [of _ "[]"] exI [of _ False]) (simp add: run_def)
  next
    case (Inr cfg)
    show ?thesis
    proof (cases "store_New (rn_open_db E) (rn_ping_db E) (cf_DatabaseURL cfg)")
      case (Pair res acts)
      show ?thesis
      proof (cases res)
        case (Inl e)
        with Pair have "acts = [] \<or> acts = [OpenStore, CloseStore]"
          by (auto simp: store_New_def split: sum.splits)
        with Inl Pair Inr run show ?thesis
          by (intro exI [of _ "[]"] exI [of _ False]) (auto simp: run_def tell_def)
      next
        case r: (Inr u)
        with Pair have acts: "acts = [OpenStore]"
          by (auto simp: store_New_def split: sum.splits)
        obtain m where m: "neat [OpenStore] m" "(r, t) = deferP close_store m (tell acts (?s\<lparr>pc_relayStopped := True\<rparr>))"
          using neat_body [OF run Inr] Pair r by blast
        obtain v where v: "m (tell acts ?s) = (r, v)" "t = close_store v"
          using m(2) by (auto simp: deferP_def split: prod.splits)
        then obtain more where "pc_trace v = OpenStore # more" "pc_relayStopped v \<or> r \<noteq> []"
            "held more ([OpenStore], False) = Some ([OpenStore], \<not> pc_relayStopped v)"
          using neatE [OF m(1) _ v(1)] acts by (force simp: tell_def)
        then show ?thesis
          using run v by (intro exI [of _ "if pc_relayStopped v then [] else [OpenStore]"] exI [of _ "\<not> pc_relayStopped v"]) (auto simp: close_store_def tell_def main_exit_def held_append)
      qed
    qed
  qed
qed

text \<open>C26: A process exits with status 0 exactly when its configuration is valid, every resource could be opened, it was
  stopped by a signal rather than by the failure of a server, and both the HTTP shutdown and the relay ended in time.\<close>

theorem exit_zero:
  "main_exit E = 0 \<longleftrightarrow> (\<exists>cfg creds. Load (rn_getenv E) = Inr cfg \<and> rn_open_db E (cf_DatabaseURL cfg) = Inr () \<and> rn_ping_db E = Inr ()
     \<and> (\<exists>d. member_New (rn_files E) (rn_dial_member E) (cf_Member cfg) = Inr d)
     \<and> (\<exists>d. plans_New (rn_files E) (rn_dial_plans E) (cf_Plans cfg) = Inr d)
     \<and> (\<exists>p. kms_New (rn_parse_url E) (rn_aws_config E (cf_AWSRegion cfg)) (rn_kms E) 0 (cf_KMSKeyID cfg) (cf_KMSEndpointURL cfg) = Inr p)
     \<and> rn_NewRegistry E MethodRules = Inr () \<and> rn_NewMetrics E (cf_ServiceName cfg) = Inr () \<and> rn_NewValidator E = Inr ()
     \<and> serverCredentials (rn_files E) (rn_parse_cert E) cfg = Inr creds \<and> rn_listen E (cf_GRPCAddr cfg) = Inr ()
     \<and> rn_served E = Signalled \<and> (case rn_http_shutdown E of None \<Rightarrow> True | Some e \<Rightarrow> rn_is_canceled E e) \<and> rn_relay_done_in_time E)"
proof -
  have served: "fst (serve_and_stop E s) = [] \<longleftrightarrow> rn_served E = Signalled
      \<and> (case rn_http_shutdown E of None \<Rightarrow> True | Some e \<Rightarrow> rn_is_canceled E e) \<and> rn_relay_done_in_time E" for s
    by (auto simp: serve_and_stop_def serve_failure_def waitForRelay_def Let_def split: served.splits option.splits)
  have deferred: "fst (deferP f m s) = fst (m s)" for f m s
    by (simp add: deferP_def split: prod.splits)
  have check: "fst (checkP name res k s) = [] \<longleftrightarrow> (\<exists>x. res = Inr x \<and> fst (k x s) = [])" for name k s and res :: "err + 'a"
    by (auto simp: checkP_def split: sum.splits)
  have opened: "fst (store_New f p u) = Inr () \<longleftrightarrow> f u = Inr () \<and> p = Inr ()" for f p u
    by (auto simp: store_New_def split: sum.splits)
  show ?thesis
  proof (cases "Load (rn_getenv E)")
    case (Inr cfg)
    show ?thesis
    proof (cases "store_New (rn_open_db E) (rn_ping_db E) (cf_DatabaseURL cfg)")
      case (Pair res acts)
      with Inr opened [of "rn_open_db E" "rn_ping_db E" "cf_DatabaseURL cfg"] show ?thesis
        by (cases res; cases "serverCredentials (rn_files E) (rn_parse_cert E) cfg")
          (simp_all add: main_exit_def run_def deferred check served, blast?)
    qed
  qed (simp add: main_exit_def run_def)
qed

section \<open>Who may connect\<close>

text \<open>A part of \<open>run\<close> that does not listen.\<close>

definition silent :: "(proc \<Rightarrow> err list \<times> proc) \<Rightarrow> bool" where
  "silent m \<longleftrightarrow> (\<forall>s. OpenListener \<in> set (pc_trace (snd (m s))) \<longrightarrow> OpenListener \<in> set (pc_trace s))"

lemma deferP_snd: "deferP f m s = (fst (m s), f (snd (m s)))"
  by (simp add: deferP_def split: prod.splits)

lemma silent_fail [intro]: "silent (\<lambda>s. (r, s))"
  by (simp add: silent_def)

lemma silent_check [intro]: "(\<And>x. silent (k x)) \<Longrightarrow> silent (checkP name res k)"
  by (auto simp: silent_def checkP_def split: sum.splits)

lemma silent_defer [intro]:
  "silent m \<Longrightarrow> a \<noteq> OpenListener \<Longrightarrow> c \<noteq> OpenListener \<Longrightarrow> silent (\<lambda>s. deferP (tell [c]) m (tell [a] s))"
  by (fastforce simp: silent_def deferP_snd tell_def)

lemma silent_store:
  "silent m \<Longrightarrow> OpenListener \<notin> set acts \<Longrightarrow> silent (\<lambda>s. deferP close_store m (tell acts (s\<lparr>pc_relayStopped := b\<rparr>)))"
  by (fastforce simp: silent_def deferP_snd close_store_def tell_def split: if_splits)

lemma listening_credentials:
  assumes "OpenListener \<in> set (pc_trace (snd (run E \<lparr>pc_trace = [], pc_relayStopped = True\<rparr>)))"
  obtains cfg tls where "Load (rn_getenv E) = Inr cfg" and "serverCredentials (rn_files E) (rn_parse_cert E) cfg = Inr tls"
proof (cases "Load (rn_getenv E)")
  case (Inr cfg)
  have "silent (\<lambda>s. run E (s\<lparr>pc_relayStopped := True\<rparr>))" if "serverCredentials (rn_files E) (rn_parse_cert E) cfg = Inl e" for e
  proof -
    let ?m = "checkP ''member client'' (member_New (rn_files E) (rn_dial_member E) (cf_Member cfg)) (\<lambda>_ s.
     deferP (tell [CloseMember])
       (checkP ''plans client'' (plans_New (rn_files E) (rn_dial_plans E) (cf_Plans cfg)) (\<lambda>_ s.
         deferP (tell [ClosePlans])
           (checkP ''KMS'' (kms_New (rn_parse_url E) (rn_aws_config E (cf_AWSRegion cfg)) (rn_kms E) 0
              (cf_KMSKeyID cfg) (cf_KMSEndpointURL cfg)) (\<lambda>_.
            checkP ''method registry'' (rn_NewRegistry E MethodRules) (\<lambda>_.
            checkP ''metrics'' (rn_NewMetrics E (cf_ServiceName cfg)) (\<lambda>_.
            checkP ''protovalidate'' (rn_NewValidator E) (\<lambda>_ s. ([e], s))))))
           (tell [OpenPlans] s)))
       (tell [OpenMember] s))"
    have "silent ?m"
      by (intro silent_check silent_defer silent_fail) simp_all
    obtain res acts where store: "store_New (rn_open_db E) (rn_ping_db E) (cf_DatabaseURL cfg) = (res, acts)"
      by fastforce
    then have quiet: "OpenListener \<notin> set acts"
      by (auto simp: store_New_def split: sum.splits)
    show ?thesis
    proof (cases res)
      case (Inl f)
      with Inr store quiet show ?thesis
        by (simp add: silent_def run_def tell_def)
    next
      case (Inr u)
      have "run E (s\<lparr>pc_relayStopped := True\<rparr>) = deferP close_store ?m (tell acts (s\<lparr>pc_relayStopped := True\<rparr>))" for s
        using Inr \<open>Load (rn_getenv E) = Inr cfg\<close> store that by (simp add: run_def)
      then show ?thesis
        using silent_store [OF \<open>silent ?m\<close> quiet] by (simp only:)
    qed
  qed
  then have "\<not> silent (\<lambda>s. run E (s\<lparr>pc_relayStopped := True\<rparr>)) \<Longrightarrow> thesis"
    using that Inr by (cases "serverCredentials (rn_files E) (rn_parse_cert E) cfg") blast+
  moreover have "\<not> silent (\<lambda>s. run E (s\<lparr>pc_relayStopped := True\<rparr>))"
    unfolding silent_def using assms by (intro notI) (drule spec [of _ "\<lparr>pc_trace = [], pc_relayStopped = True\<rparr>"], simp)
  ultimately show thesis
    by blast
qed (use assms in \<open>simp add: run_def\<close>)


section \<open>The relay's goroutine ends with the context\<close>

definition producer_made :: "outbox_env \<Rightarrow> Config \<Rightarrow> nat \<Rightarrow> bool" where
  "producer_made E cfg n \<longleftrightarrow> \<not> isl (fst (newProducer (oe_registry E n) (oe_producer E n) cfg))"

definition round_ends :: "outbox_env \<Rightarrow> Config \<Rightarrow> nat \<Rightarrow> bool" where
  "round_ends E cfg n \<longleftrightarrow> oe_ctx_done E n \<or> \<not> producer_made E cfg n \<and> oe_wait_done E n"

definition relay_ends :: "outbox_env \<Rightarrow> Config \<Rightarrow> nat \<Rightarrow> bool" where
  "relay_ends E cfg n \<longleftrightarrow> (\<exists>k. re_stop (oe_relay E n) (relay_interval (cf_RelayInterval cfg)) k)"

text \<open>What is relied on: the laws of every relay, and that an ended context stays ended.\<close>

definition outbox_law :: "outbox_env \<Rightarrow> Config \<Rightarrow> bool" where
  "outbox_law E cfg \<longleftrightarrow> (\<forall>n. rely (re_sql (oe_relay E n)) \<and> dlq_law (re_lib (oe_relay E n)) \<and> returning_law (re_sql (oe_relay E n))
     \<and> sq_ts (re_sql (oe_relay E n)) = sq_ts (re_sql (oe_relay E 0))
     \<and> (producer_made E cfg n \<longrightarrow> relay_ends E cfg n \<longrightarrow> oe_ctx_done E (Suc n)))"

lemma NewRelay_sel [simp]:
  "re_sql (NewRelay R source d) = re_sql R" "re_lib (NewRelay R source d) = re_lib R" "re_stop (NewRelay R source d) = re_stop R"
  by (simp_all add: NewRelay_def)

lemma newProducer_failed: "newProducer f g cfg = (Inl e, acts) \<Longrightarrow> held acts = Some \<and> OpenProducer \<notin> set acts"
  by (auto simp: fun_eq_iff newProducer_def split: sum.splits)

lemma newProducer_made:
  "newProducer f g cfg = (Inr fin, acts) \<Longrightarrow> held (acts @ fin) = Some \<and> count_list (acts @ fin) OpenProducer = 1"
  by (auto simp: fun_eq_iff newProducer_def split: sum.splits)

definition ends_from :: "outbox_env \<Rightarrow> Config \<Rightarrow> nat \<Rightarrow> bool" where
  "ends_from E cfg k \<longleftrightarrow> (\<exists>n \<ge> k. round_ends E cfg n \<and> (\<forall>m \<in> {k..<n}. producer_made E cfg m \<longrightarrow> relay_ends E cfg m))"

lemma ends_from_step:
  "ends_from E cfg k \<longleftrightarrow> round_ends E cfg k \<or> (producer_made E cfg k \<longrightarrow> relay_ends E cfg k) \<and> ends_from E cfg (Suc k)"
  (is "?L \<longleftrightarrow> ?R")
proof
  assume ?L
  then obtain n where n: "n \<ge> k" "round_ends E cfg n" "\<forall>m \<in> {k..<n}. producer_made E cfg m \<longrightarrow> relay_ends E cfg m"
    by (auto simp: ends_from_def)
  show ?R
    by (cases "n = k") (use n in \<open>auto simp: ends_from_def intro!: exI [of _ n]\<close>)
next
  assume ?R
  then show ?L
  proof
    assume "(producer_made E cfg k \<longrightarrow> relay_ends E cfg k) \<and> ends_from E cfg (Suc k)"
    then obtain n where "n \<ge> Suc k" "round_ends E cfg n" "\<forall>m \<in> {k..<n}. producer_made E cfg m \<longrightarrow> relay_ends E cfg m"
      unfolding ends_from_def by (metis atLeastLessThan_iff le_antisym not_less_eq_eq)
    then show ?L
      unfolding ends_from_def by (meson Suc_leD)
  qed (auto simp: ends_from_def intro: exI [of _ k])
qed

definition outbox_result :: "outbox_env \<Rightarrow> Config \<Rightarrow> nat \<Rightarrow> relay \<Rightarrow> action list \<Rightarrow> relay \<times> action list \<Rightarrow> bool" where
  "outbox_result E cfg k s acts st \<longleftrightarrow> (oe_ctx_done E k \<longrightarrow> st = (s, acts)) \<and> ends_from E cfg k
     \<and> moves (re_sql (oe_relay E 0)) (rs_conn s) (rs_conn (fst st))
     \<and> (\<exists>more. snd st = acts @ more \<and> held more = Some \<and> count_list more OpenProducer \<le> 1)"

lemma outbox_round:
  assumes IH: "\<And>k s acts st. loop k s acts = Some st \<Longrightarrow> outbox_result E cfg k s acts st" and law: "outbox_law E cfg"
    and live: "\<not> oe_ctx_done E k" and made: "newProducer (oe_registry E k) (oe_producer E k) cfg = (res, opened)"
    and body: "(case res of
        Inl _ \<Rightarrow> if oe_wait_done E k then Some (s, acts @ opened) else loop (Suc k) s (acts @ opened)
      | Inr fin \<Rightarrow>
          (case Run (NewRelay (oe_relay E k) (cf_ServiceName cfg) (cf_OutboxRetryDelay cfg)) (cf_RelayInterval cfg) s of
             None \<Rightarrow> None
           | Some t \<Rightarrow> loop (Suc k) t (acts @ opened @ fin))) = Some st"
  shows "outbox_result E cfg k s acts st"
proof (cases res)
  case (Inl e)
  have clean: "held opened = Some" "count_list opened OpenProducer = 0"
    using newProducer_failed [OF made [unfolded Inl]] by auto
  show ?thesis
  proof (cases "oe_wait_done E k")
    case True
    with Inl body have "st = (s, acts @ opened)"
      by simp
    moreover have "round_ends E cfg k"
      using True Inl made by (simp add: round_ends_def producer_made_def)
    ultimately show ?thesis
      using live clean ends_from_step [of E cfg k] by (auto simp: outbox_result_def)
  next
    case False
    with Inl body have "outbox_result E cfg (Suc k) s (acts @ opened) st"
      by (intro IH) simp
    then obtain more where "ends_from E cfg (Suc k)" "moves (re_sql (oe_relay E 0)) (rs_conn s) (rs_conn (fst st))"
        "snd st = acts @ opened @ more" "held more = Some" "count_list more OpenProducer \<le> 1"
      by (auto simp: outbox_result_def)
    moreover have "\<not> producer_made E cfg k"
      using Inl made by (simp add: producer_made_def)
    ultimately show ?thesis
      using live clean ends_from_step [of E cfg k]
      by (auto simp: outbox_result_def held_append fun_eq_iff intro!: exI [of _ "opened @ more"])
  qed
next
  case (Inr fin)
  let ?R = "NewRelay (oe_relay E k) (cf_ServiceName cfg) (cf_OutboxRetryDelay cfg)"
  obtain t where t: "Run ?R (cf_RelayInterval cfg) s = Some t" "loop (Suc k) t (acts @ opened @ fin) = Some st"
    using body Inr by (auto split: option.splits)
  have ends: "relay_ends E cfg k"
    using t(1) Run_some [of ?R "cf_RelayInterval cfg" s] by (auto simp: relay_ends_def)
  then have "oe_ctx_done E (Suc k)"
    using law made Inr by (auto simp: outbox_law_def producer_made_def)
  then have "ends_from E cfg k"
    using ends ends_from_step [of E cfg k] ends_from_step [of E cfg "Suc k"] by (simp add: round_ends_def)
  moreover have "st = (t, acts @ opened @ fin)"
    using IH [OF t(2)] \<open>oe_ctx_done E (Suc k)\<close> by (simp add: outbox_result_def)
  moreover have "rmoves ?R s t"
    using law t(1) by (intro Run_moves) (auto simp: outbox_law_def)
  then have "moves (re_sql (oe_relay E 0)) (rs_conn s) (rs_conn t)"
    using law moves_ts [of "re_sql (oe_relay E k)" "re_sql (oe_relay E 0)"] by (simp add: rmoves_def outbox_law_def)
  ultimately show ?thesis
    using live newProducer_made [OF made [unfolded Inr]]
    by (auto simp: outbox_result_def)
qed

lemma outbox_loop_result:
  assumes law: "outbox_law E cfg" and run: "outbox_loop E cfg k s acts = Some st"
  shows "outbox_result E cfg k s acts st"
proof -
  have "E = F \<and> cfg = c \<longrightarrow> outbox_result E cfg k s acts st" if "outbox_loop F c k s acts = Some st" for F c k s acts st
  proof (rule outbox_loop.raw_induct [OF _ that, where P = "\<lambda>F c k s acts st. E = F \<and> cfg = c \<longrightarrow> outbox_result E cfg k s acts st"])
    fix loop F c k s acts st
    assume IH: "\<And>F c k s acts st. loop F c k s acts = Some st \<Longrightarrow> E = F \<and> cfg = c \<longrightarrow> outbox_result E cfg k s acts st"
      and body: "(if oe_ctx_done F k then Some (s, acts)
      else case newProducer (oe_registry F k) (oe_producer F k) c of
             (Inl _, tried) \<Rightarrow>
               if oe_wait_done F k then Some (s, acts @ tried) else loop F c (Suc k) s (acts @ tried)
           | (Inr closeProducer, opened) \<Rightarrow>
               (case Run (NewRelay (oe_relay F k) (cf_ServiceName c) (cf_OutboxRetryDelay c)) (cf_RelayInterval c) s of
                  None \<Rightarrow> None
                | Some t \<Rightarrow> loop F c (Suc k) t (acts @ opened @ closeProducer))) = Some st"
    show "E = F \<and> cfg = c \<longrightarrow> outbox_result E cfg k s acts st"
    proof (intro impI)
      assume same: "E = F \<and> cfg = c"
      show "outbox_result E cfg k s acts st"
      proof (cases "oe_ctx_done E k")
        case True
        then have "ends_from E cfg k"
          using ends_from_step [of E cfg k] by (simp add: round_ends_def)
        with True body same show ?thesis
          by (auto simp: outbox_result_def fun_eq_iff)
      next
        case False
        obtain res opened where made: "newProducer (oe_registry E k) (oe_producer E k) cfg = (res, opened)"
          by fastforce
        show ?thesis
        proof (rule outbox_round [OF _ law False made])
          show "loop E cfg k s acts = Some st \<Longrightarrow> outbox_result E cfg k s acts st" for k s acts st
            using IH same by blast
        qed (use body same False made in \<open>cases res; auto split: if_splits\<close>)
      qed
    qed
  qed
  with run show ?thesis
    by simp
qed

lemma outbox_loop_ends:
  assumes "round_ends E cfg (k + d)" and "\<And>m. m \<in> {k..<k + d} \<Longrightarrow> producer_made E cfg m \<Longrightarrow> relay_ends E cfg m"
  shows "\<exists>st. outbox_loop E cfg k s acts = Some st"
  using assms
proof (induction d arbitrary: k s acts)
  case 0
  then show ?case
    by (subst outbox_loop.simps) (auto simp: round_ends_def producer_made_def isl_def split: prod.splits sum.splits)
next
  case (Suc d)
  have next_round: "\<exists>st. outbox_loop E cfg (Suc k) s acts = Some st" for s acts
    using Suc.prems by (intro Suc.IH) auto
  have "\<exists>t. Run (NewRelay (oe_relay E k) (cf_ServiceName cfg) (cf_OutboxRetryDelay cfg)) (cf_RelayInterval cfg) s = Some t"
    if "producer_made E cfg k"
    using that Suc.prems(2) [of k] unfolding Run_some by (simp add: relay_ends_def)
  then show ?case
    by (subst outbox_loop.simps) (use next_round in \<open>auto simp: producer_made_def split: prod.splits sum.splits option.splits\<close>)
qed

text \<open>C25: The relay's goroutine ends with the context and cleans up: it returns if and only if some round sees the end of
  the context and every relay started before has returned; then every registry and producer it opened is closed, at
  most one relay was ever run to its end, and the shared state has only moved along the protocol.\<close>

theorem outbox_relay_ends:
  assumes "outbox_law E cfg"
  shows "((\<exists>st. runOutboxRelay E cfg s = Some st) \<longleftrightarrow>
        (\<exists>n. round_ends E cfg n \<and> (\<forall>m. m < n \<longrightarrow> producer_made E cfg m \<longrightarrow> relay_ends E cfg m)))
    \<and> (\<forall>t acts. runOutboxRelay E cfg s = Some (t, acts) \<longrightarrow> held acts ([], True) = Some ([], True)
        \<and> count_list acts OpenProducer \<le> 1 \<and> moves (re_sql (oe_relay E 0)) (rs_conn s) (rs_conn t))"
proof -
  have "(\<exists>st. runOutboxRelay E cfg s = Some st) \<longleftrightarrow> ends_from E cfg 0"
    using outbox_loop_result [OF assms, of 0 s] outbox_loop_ends [of E cfg 0 _ s]
    by (force simp: runOutboxRelay_def outbox_result_def ends_from_def)
  moreover have "held acts ([], True) = Some ([], True) \<and> count_list acts OpenProducer \<le> 1
      \<and> moves (re_sql (oe_relay E 0)) (rs_conn s) (rs_conn t)" if "runOutboxRelay E cfg s = Some (t, acts)" for t acts
    using outbox_loop_result [OF assms that [unfolded runOutboxRelay_def]] by (auto simp: outbox_result_def)
  ultimately show ?thesis
    by (auto simp: ends_from_def)
qed

text \<open>The registry is down at first; the relay then runs until the context ends.\<close>

definition sample_outbox :: outbox_env where
  "sample_outbox = \<lparr>oe_ctx_done = \<lambda>n. 2 \<le> n, oe_registry = \<lambda>n _. if n = 0 then Inl (Foreign ''down'') else Inr (),
     oe_producer = \<lambda>_ _ _. Inr (), oe_wait_done = \<lambda>_. False, oe_relay = \<lambda>_. sample_relay\<rparr>"

definition sample_client :: MTLSClient where
  "sample_client = \<lparr>mc_Address = ''m:50051'', mc_CertFile = ''c'', mc_KeyFile = ''k'', mc_CAFile = ''a'',
     mc_ServerName = ''ms-gym-member'', mc_Deadline = 3 * Second\<rparr>"

definition sample_config :: Config where
  "sample_config = read_config sample_getenv sample_client sample_client Second Second Second Second False"

theorem outbox_relay_ends_witness:
  "\<exists>t acts. runOutboxRelay sample_outbox sample_config relay_start = Some (t, acts) \<and> held acts ([], True) = Some ([], True)
     \<and> count_list acts OpenProducer \<le> 1"
proof -
  have made: "producer_made sample_outbox sample_config n \<longleftrightarrow> n \<noteq> 0" for n
    by (simp add: producer_made_def newProducer_def sample_outbox_def)
  have ends: "relay_ends sample_outbox sample_config n" for n
    by (simp add: relay_ends_def sample_outbox_def sample_relay_def)
  have law: "outbox_law sample_outbox sample_config"
    unfolding outbox_law_def made using sample_relay_laws(1-3) by (simp add: sample_outbox_def)
  have "round_ends sample_outbox sample_config 2"
    by (simp add: round_ends_def sample_outbox_def)
  with outbox_relay_ends [OF law, of relay_start] ends show ?thesis
    by fast
qed

theorem readyz_answers_witness:
  "\<exists>t. healthHandler sample_env ''/readyz'' sample_svc = Some (200, t)"
proof -
  have "gets_ready (\<lambda>n. if n = 0 then Connecting else Ready, \<lambda>n. n < 3)" "gets_ready (\<lambda>_. Ready, \<lambda>n. n < 3)"
    unfolding gets_ready_def prod.case by (rule exI [of _ "Suc 0"], simp add: settled_def, rule exI [of _ 0], simp)
  then have "gets_ready (se_member_conn sample_env n)" "gets_ready (se_plans_conn sample_env n)" for n
    by (simp_all add: sample_env_def)
  moreover have "kms_Ping (se_kms sample_env) n (se_protector sample_env) = Inr ()" "se_store_ping sample_env n = Inr ()" for n
    by (simp_all add: sample_env_def kms_Ping_def describeKey_def sample_kms_def)
  ultimately show ?thesis
    using readyz_answers [of sample_env sample_svc] by (auto simp: sample_env_def intro: exI [of _ "3 :: nat"])
qed

text \<open>A process all of whose surroundings answer; a certificate carries its bytes as its only DNS name.\<close>

definition sample_run :: run_env where
  "sample_run = \<lparr>rn_getenv = sample_getenv, rn_open_db = \<lambda>_. Inr (), rn_ping_db = Inr (),
     rn_files = \<lparr>cf_LoadX509KeyPair = \<lambda>_ _. Inr [1], cf_ReadFile = \<lambda>_. Inr [2], cf_AppendCertsFromPEM = \<lambda>_. True\<rparr>,
     rn_dial_member = \<lambda>_ _. Inr (), rn_dial_plans = \<lambda>_ _. Inr (), rn_parse_url = \<lambda>_. Inl (Foreign ''url''),
     rn_aws_config = \<lambda>_. Inr (), rn_kms = sample_kms, rn_NewRegistry = \<lambda>_. Inr (), rn_NewMetrics = \<lambda>_. Inr (),
     rn_NewValidator = Inr (),
     rn_parse_cert = \<lambda>raw. Inr \<lparr>ce_DNSNames = [if raw = [7] then ''MS-Gym-API-Gateway'' else ''ms-gym-plans''], ce_URIs = []\<rparr>,
     rn_listen = \<lambda>_. Inr (), rn_served = Signalled, rn_http_shutdown = None, rn_is_canceled = \<lambda>_. False,
     rn_stopped_in_time = True, rn_relay_done_in_time = True\<rparr>"


end
