(* ===== verification/Lifecycle.thy ===== *)
theory Lifecycle
  imports Server
begin

text \<open>
  The goroutines of \<open>run\<close> (\<open>cmd/server/main.go\<close>) from the start of the relay to the return of \<open>run\<close>: main itself, the relay, the
  two servers, the one that stops the gRPC server gracefully, and the world outside (signals, the shutdown deadline).
  Their steps interleave.  What \<open>run\<close> can return is exactly what \<open>serve_and_stop\<close> computes from answers of the environment;
  main closes the database only when the relay has ended; no goroutine blocks on the channel of errors; and after the
  shutdown deadline main returns after at most three steps of its own.
\<close>

section \<open>The goroutines\<close>

datatype goroutine = MainG | RelayG | GrpcG | HttpG | StopG | OutsideG

text \<open>Where main is: in the first \<open>select\<close>, in \<open>httpServer.Shutdown\<close>, in the second \<open>select\<close>, in \<open>waitForRelay\<close>, or done.\<close>

datatype main_point = Serving | ShuttingHTTP | StoppingGRPC | AwaitingRelay | Returned

datatype server_state = Accepting | Sending err | Ended

datatype stop_state = NotStopping | GracefulStop | StopDone

record lifecycle =
  lc_main :: main_point
  lc_ctx_done :: bool
  lc_expired :: bool
  lc_relayDone :: bool
  lc_grpc :: server_state
  lc_http :: server_state
  lc_stop :: stop_state
  lc_serveErr :: "err list"
  lc_serveFailure :: "err list"
  lc_proc :: proc

definition start_life :: "proc \<Rightarrow> lifecycle" where
  "start_life s = \<lparr>lc_main = Serving, lc_ctx_done = False, lc_expired = False, lc_relayDone = False, lc_grpc = Accepting,
     lc_http = Accepting, lc_stop = NotStopping, lc_serveErr = [], lc_serveFailure = [],
     lc_proc = tell [StartRelay] (s\<lparr>pc_relayStopped := False\<rparr>)\<rparr>"

text \<open>What \<open>httpServer.Shutdown\<close> adds to the failure.\<close>

definition http_failure :: "(err \<Rightarrow> bool) \<Rightarrow> err option \<Rightarrow> err list" where
  "http_failure canceled r = (case r of None \<Rightarrow> [] | Some e \<Rightarrow> if canceled e then [] else [Wrap ''shutdown HTTP'' e])"

text \<open>The relay's goroutine returns only after its context has ended (theory \<open>Server\<close>).  A server's \<open>Serve\<close> fails at any time, and
  returns without a failure only when it is stopped.  The channel of errors has room for two.\<close>

inductive life_step :: "(err \<Rightarrow> bool) \<Rightarrow> goroutine \<Rightarrow> lifecycle \<Rightarrow> lifecycle \<Rightarrow> bool" for canceled where
  signalled: "life_step canceled OutsideG P (P\<lparr>lc_ctx_done := True\<rparr>)"
| deadline: "lc_main P \<noteq> Serving \<Longrightarrow> life_step canceled OutsideG P (P\<lparr>lc_expired := True\<rparr>)"
| relay_ends: "lc_ctx_done P \<Longrightarrow> life_step canceled RelayG P (P\<lparr>lc_relayDone := True\<rparr>)"
| grpc_fails: "lc_grpc P = Accepting \<Longrightarrow> life_step canceled GrpcG P (P\<lparr>lc_grpc := Sending (Wrap ''serve grpc'' e)\<rparr>)"
| grpc_stops: "lc_grpc P = Accepting \<Longrightarrow> lc_stop P \<noteq> NotStopping \<Longrightarrow> life_step canceled GrpcG P (P\<lparr>lc_grpc := Ended\<rparr>)"
| grpc_sends: "lc_grpc P = Sending e \<Longrightarrow> length (lc_serveErr P) < 2 \<Longrightarrow>
    life_step canceled GrpcG P (P\<lparr>lc_grpc := Ended, lc_serveErr := lc_serveErr P @ [e]\<rparr>)"
| http_fails: "lc_http P = Accepting \<Longrightarrow> life_step canceled HttpG P (P\<lparr>lc_http := Sending (Wrap ''serve HTTP'' e)\<rparr>)"
| http_stops: "lc_http P = Accepting \<Longrightarrow> lc_main P \<noteq> Serving \<Longrightarrow> life_step canceled HttpG P (P\<lparr>lc_http := Ended\<rparr>)"
| http_sends: "lc_http P = Sending e \<Longrightarrow> length (lc_serveErr P) < 2 \<Longrightarrow>
    life_step canceled HttpG P (P\<lparr>lc_http := Ended, lc_serveErr := lc_serveErr P @ [e]\<rparr>)"
| stop_ends: "lc_stop P = GracefulStop \<Longrightarrow> life_step canceled StopG P (P\<lparr>lc_stop := StopDone\<rparr>)"
| main_signalled: "lc_main P = Serving \<Longrightarrow> lc_ctx_done P \<Longrightarrow> life_step canceled MainG P (P\<lparr>lc_main := ShuttingHTTP\<rparr>)"
| main_failed: "lc_main P = Serving \<Longrightarrow> lc_serveErr P = e # rest \<Longrightarrow>
    life_step canceled MainG P (P\<lparr>lc_main := ShuttingHTTP, lc_ctx_done := True, lc_serveErr := rest, lc_serveFailure := [e],
      lc_proc := tell [Cancel] (lc_proc P)\<rparr>)"
| main_shuts: "lc_main P = ShuttingHTTP \<Longrightarrow>
    life_step canceled MainG P (P\<lparr>lc_main := StoppingGRPC, lc_stop := GracefulStop,
      lc_serveFailure := lc_serveFailure P @ http_failure canceled r, lc_proc := tell [ShutdownHTTP] (lc_proc P)\<rparr>)"
| main_graceful: "lc_main P = StoppingGRPC \<Longrightarrow> lc_stop P = StopDone \<Longrightarrow>
    life_step canceled MainG P (P\<lparr>lc_main := AwaitingRelay, lc_proc := tell [StopGraceful] (lc_proc P)\<rparr>)"
| main_forced: "lc_main P = StoppingGRPC \<Longrightarrow> lc_expired P \<Longrightarrow>
    life_step canceled MainG P (P\<lparr>lc_main := AwaitingRelay, lc_proc := tell [StopForced] (lc_proc P)\<rparr>)"
| main_relay: "lc_main P = AwaitingRelay \<Longrightarrow> lc_relayDone P \<Longrightarrow>
    life_step canceled MainG P (P\<lparr>lc_main := Returned, lc_proc := tell [RelayDone] ((lc_proc P)\<lparr>pc_relayStopped := True\<rparr>)\<rparr>)"
| main_gives_up: "lc_main P = AwaitingRelay \<Longrightarrow> lc_expired P \<Longrightarrow>
    life_step canceled MainG P (P\<lparr>lc_main := Returned,
      lc_serveFailure := lc_serveFailure P @ [Wrap ''shutdown outbox relay'' ContextDone]\<rparr>)"

definition life :: "(err \<Rightarrow> bool) \<Rightarrow> lifecycle \<Rightarrow> lifecycle \<Rightarrow> bool" where
  "life canceled P Q \<longleftrightarrow> (\<exists>g. life_step canceled g P Q)"

section \<open>What \<open>run\<close> can return\<close>

text \<open>The answers with which the sequential \<open>serve_and_stop\<close> reaches each point.\<close>

definition after_select :: "served \<Rightarrow> proc \<Rightarrow> proc" where
  "after_select r s = (let p = tell [StartRelay] (s\<lparr>pc_relayStopped := False\<rparr>) in if r = Signalled then p else tell [Cancel] p)"

definition stop_action :: "bool \<Rightarrow> action" where
  "stop_action in_time = (if in_time then StopGraceful else StopForced)"

definition run_outcome :: "(err \<Rightarrow> bool) \<Rightarrow> proc \<Rightarrow> served \<Rightarrow> err option \<Rightarrow> bool \<Rightarrow> bool \<Rightarrow> err list \<times> proc" where
  "run_outcome canceled s r h in_time relay_done =
     (let p = tell [stop_action in_time] (tell [ShutdownHTTP] (after_select r s));
          errs = serve_failure r @ http_failure canceled h
      in if relay_done then (errs, tell [RelayDone] (p\<lparr>pc_relayStopped := True\<rparr>))
         else (errs @ [Wrap ''shutdown outbox relay'' ContextDone], p))"

fun reached :: "(err \<Rightarrow> bool) \<Rightarrow> proc \<Rightarrow> main_point \<Rightarrow> err list \<Rightarrow> proc \<Rightarrow> bool" where
  "reached canceled s Serving errs p \<longleftrightarrow> errs = [] \<and> p = after_select Signalled s"
| "reached canceled s ShuttingHTTP errs p \<longleftrightarrow> (\<exists>r. errs = serve_failure r \<and> p = after_select r s)"
| "reached canceled s StoppingGRPC errs p \<longleftrightarrow>
     (\<exists>r h. errs = serve_failure r @ http_failure canceled h \<and> p = tell [ShutdownHTTP] (after_select r s))"
| "reached canceled s AwaitingRelay errs p \<longleftrightarrow>
     (\<exists>r h b. errs = serve_failure r @ http_failure canceled h \<and> p = tell [stop_action b] (tell [ShutdownHTTP] (after_select r s)))"
| "reached canceled s Returned errs p \<longleftrightarrow> (\<exists>r h b d. run_outcome canceled s r h b d = (errs, p))"

lemma serve_and_stop_outcome:
  "serve_and_stop E s = run_outcome (rn_is_canceled E) s (rn_served E) (rn_http_shutdown E) (rn_stopped_in_time E) (rn_relay_done_in_time E)"
  by (simp add: serve_and_stop_def run_outcome_def Let_def after_select_def stop_action_def http_failure_def waitForRelay_def)

lemma outcome_answers: "\<exists>E. rn_is_canceled E = canceled \<and> serve_and_stop E s = run_outcome canceled s r h b d"
  by (rule exI [of _ "undefined\<lparr>rn_is_canceled := canceled, rn_served := r, rn_http_shutdown := h, rn_stopped_in_time := b,
      rn_relay_done_in_time := d\<rparr>"]) (simp add: serve_and_stop_outcome)

text \<open>The errors on the channel and those about to be sent come from the servers.\<close>

definition from_server :: "err \<Rightarrow> bool" where
  "from_server e \<longleftrightarrow> (\<exists>r. r \<noteq> Signalled \<and> serve_failure r = [e])"

definition sends :: "server_state \<Rightarrow> err list" where
  "sends st = (case st of Sending e \<Rightarrow> [e] | _ \<Rightarrow> [])"

definition room :: "server_state \<Rightarrow> nat" where
  "room st = (if st = Ended then 0 else 1)"

definition life_inv :: "(err \<Rightarrow> bool) \<Rightarrow> proc \<Rightarrow> lifecycle \<Rightarrow> bool" where
  "life_inv canceled s P \<longleftrightarrow> reached canceled s (lc_main P) (lc_serveFailure P) (lc_proc P)
     \<and> list_all from_server (sends (lc_grpc P) @ sends (lc_http P) @ lc_serveErr P)
     \<and> length (lc_serveErr P) + room (lc_grpc P) + room (lc_http P) \<le> 2
     \<and> (lc_main P \<noteq> Serving \<longrightarrow> lc_ctx_done P)
     \<and> (pc_relayStopped (lc_proc P) \<longrightarrow> lc_main P = Returned \<and> lc_relayDone P)
     \<and> (lc_main P = Returned \<longrightarrow> \<not> pc_relayStopped (lc_proc P) \<longrightarrow> lc_expired P \<and> lc_serveFailure P \<noteq> [])
     \<and> (lc_expired P \<longrightarrow> lc_main P \<noteq> Serving)"

lemma from_server_wraps [simp]: "from_server (Wrap ''serve grpc'' e)" "from_server (Wrap ''serve HTTP'' e)"
  unfolding from_server_def by (rule exI [of _ "ServeGRPC e"], simp add: serve_failure_def, rule exI [of _ "ServeHTTP e"], simp add: serve_failure_def)

lemma tell_simps [simp]:
  "pc_relayStopped (tell acts p) = pc_relayStopped p" "pc_trace (tell acts p) = pc_trace p @ acts"
  by (simp_all add: tell_def)

lemma after_select_running [simp]: "\<not> pc_relayStopped (after_select r s)"
  by (simp add: after_select_def Let_def)

lemma reached_failed: "from_server e \<Longrightarrow> reached canceled s Serving errs p \<Longrightarrow> reached canceled s ShuttingHTTP [e] (tell [Cancel] p)"
proof -
  assume "from_server e" and "reached canceled s Serving errs p"
  then obtain r where "r \<noteq> Signalled" "serve_failure r = [e]" "p = after_select Signalled s"
    unfolding from_server_def reached.simps by blast
  then show "reached canceled s ShuttingHTTP [e] (tell [Cancel] p)"
    unfolding reached.simps by (intro exI [of _ r]) (simp add: after_select_def Let_def)
qed

lemma reached_signalled: "reached canceled s Serving errs p \<Longrightarrow> reached canceled s ShuttingHTTP errs p"
  unfolding reached.simps by (rule exI [of _ Signalled]) (simp add: serve_failure_def)

lemma reached_shut:
  "reached canceled s ShuttingHTTP errs p \<Longrightarrow> reached canceled s StoppingGRPC (errs @ http_failure canceled h) (tell [ShutdownHTTP] p)"
  by auto

lemma reached_stopped:
  "reached canceled s StoppingGRPC errs p \<Longrightarrow> reached canceled s AwaitingRelay errs (tell [stop_action b] p)"
  by auto

lemma reached_relay:
  assumes "reached canceled s AwaitingRelay errs p"
  shows "reached canceled s Returned errs (tell [RelayDone] (p\<lparr>pc_relayStopped := True\<rparr>))"
    and "reached canceled s Returned (errs @ [Wrap ''shutdown outbox relay'' ContextDone]) p"
proof -
  obtain r h b where "errs = serve_failure r @ http_failure canceled h"
      "p = tell [stop_action b] (tell [ShutdownHTTP] (after_select r s))"
    using assms by auto
  then have "run_outcome canceled s r h b True = (errs, tell [RelayDone] (p\<lparr>pc_relayStopped := True\<rparr>))"
      "run_outcome canceled s r h b False = (errs @ [Wrap ''shutdown outbox relay'' ContextDone], p)"
    by (simp_all add: run_outcome_def Let_def)
  then show "reached canceled s Returned errs (tell [RelayDone] (p\<lparr>pc_relayStopped := True\<rparr>))"
      "reached canceled s Returned (errs @ [Wrap ''shutdown outbox relay'' ContextDone]) p"
    unfolding reached.simps by blast+
qed

lemmas reached_rules = reached_failed reached_signalled reached_shut reached_stopped reached_relay
lemmas stop_actions = reached_stopped [of _ _ _ _ True, unfolded stop_action_def if_True]
  reached_stopped [of _ _ _ _ False, unfolded stop_action_def if_False]

lemma life_step_inv: "life_step canceled g P Q \<Longrightarrow> life_inv canceled s P \<Longrightarrow> life_inv canceled s Q"
proof (induction rule: life_step.induct)
  case (main_failed P e rest)
  then show ?case
    using reached_failed [of e canceled s] by (auto simp: life_inv_def simp del: reached.simps)
next
  case (main_signalled P)
  then show ?case
    using reached_signalled by (auto simp: life_inv_def simp del: reached.simps)
qed (auto simp: life_inv_def sends_def room_def simp del: reached.simps intro: reached_shut reached_relay stop_actions)

interpretation goroutines_of_run: state_machine "\<lambda>P. P = start_life s" "life canceled" "life_inv canceled s"
proof unfold_locales
  show "life_inv canceled s P" if "P = start_life s" for P
    using that by (simp add: life_inv_def start_life_def sends_def room_def after_select_def Let_def)
  show "life_inv canceled s Q" if "life canceled P Q" "life_inv canceled s P" for P Q
    using that life_step_inv by (auto simp: life_def)
qed

text \<open>Every outcome has an interleaving: the steps of main, each after what it waits for.\<close>

lemma life_steps: "life_step canceled g P Q \<Longrightarrow> (life canceled)\<^sup>*\<^sup>* Q R \<Longrightarrow> (life canceled)\<^sup>*\<^sup>* P R"
  by (rule converse_rtranclp_into_rtranclp) (auto simp: life_def)

lemma select_run:
  "\<exists>P. (life canceled)\<^sup>*\<^sup>* (start_life s) P \<and> lc_main P = ShuttingHTTP \<and> lc_ctx_done P \<and> lc_serveFailure P = serve_failure r
     \<and> lc_proc P = after_select r s"
proof (cases r)
  case Signalled
  show ?thesis
    by (rule exI, rule conjI, rule life_steps [OF life_step.signalled], rule life_steps [OF life_step.main_signalled],
        simp add: start_life_def, simp, rule rtranclp.rtrancl_refl, simp add: Signalled start_life_def serve_failure_def after_select_def)
next
  case (ServeGRPC e)
  show ?thesis
    by (rule exI, rule conjI, rule life_steps [OF life_step.grpc_fails [where e = e]], simp add: start_life_def,
        rule life_steps [OF life_step.grpc_sends], simp, simp add: start_life_def,
        rule life_steps [OF life_step.main_failed [where rest = "[]"]], simp add: start_life_def, simp add: start_life_def,
        rule rtranclp.rtrancl_refl, simp add: ServeGRPC start_life_def serve_failure_def after_select_def Let_def)
next
  case (ServeHTTP e)
  show ?thesis
    by (rule exI, rule conjI, rule life_steps [OF life_step.http_fails [where e = e]], simp add: start_life_def,
        rule life_steps [OF life_step.http_sends], simp, simp add: start_life_def,
        rule life_steps [OF life_step.main_failed [where rest = "[]"]], simp add: start_life_def, simp add: start_life_def,
        rule rtranclp.rtrancl_refl, simp add: ServeHTTP start_life_def serve_failure_def after_select_def Let_def)
qed

lemma stop_run:
  assumes "lc_main P = ShuttingHTTP" and "lc_ctx_done P"
  shows "\<exists>Q. (life canceled)\<^sup>*\<^sup>* P Q \<and> lc_main Q = AwaitingRelay \<and> lc_ctx_done Q
    \<and> lc_serveFailure Q = lc_serveFailure P @ http_failure canceled h
    \<and> lc_proc Q = tell [stop_action b] (tell [ShutdownHTTP] (lc_proc P))"
proof (cases b)
  case True
  show ?thesis
    by (rule exI, rule conjI, rule life_steps [OF life_step.main_shuts [where r = h]], simp add: assms,
        rule life_steps [OF life_step.stop_ends], simp, rule life_steps [OF life_step.main_graceful], simp, simp,
        rule rtranclp.rtrancl_refl, simp add: True assms stop_action_def)
next
  case False
  show ?thesis
    by (rule exI, rule conjI, rule life_steps [OF life_step.main_shuts [where r = h]], simp add: assms,
        rule life_steps [OF life_step.deadline], simp, rule life_steps [OF life_step.main_forced], simp, simp,
        rule rtranclp.rtrancl_refl, simp add: False assms stop_action_def)
qed

lemma wait_run:
  assumes "lc_main P = AwaitingRelay" and "lc_ctx_done P"
  shows "\<exists>Q. (life canceled)\<^sup>*\<^sup>* P Q \<and> lc_main Q = Returned \<and> lc_serveFailure Q = lc_serveFailure P
      \<and> lc_proc Q = tell [RelayDone] ((lc_proc P)\<lparr>pc_relayStopped := True\<rparr>)"
    and "\<exists>Q. (life canceled)\<^sup>*\<^sup>* P Q \<and> lc_main Q = Returned
      \<and> lc_serveFailure Q = lc_serveFailure P @ [Wrap ''shutdown outbox relay'' ContextDone] \<and> lc_proc Q = lc_proc P"
  by (rule exI, rule conjI, rule life_steps [OF life_step.relay_ends], simp add: assms, rule life_steps [OF life_step.main_relay],
      simp add: assms, simp, rule rtranclp.rtrancl_refl, simp)
    (rule exI, rule conjI, rule life_steps [OF life_step.deadline], simp add: assms, rule life_steps [OF life_step.main_gives_up],
      simp add: assms, simp, rule rtranclp.rtrancl_refl, simp)

lemma outcome_run:
  "\<exists>P. (life canceled)\<^sup>*\<^sup>* (start_life s) P \<and> lc_main P = Returned \<and> (lc_serveFailure P, lc_proc P) = run_outcome canceled s r h b d"
proof -
  obtain P where P: "(life canceled)\<^sup>*\<^sup>* (start_life s) P" "lc_main P = ShuttingHTTP" "lc_ctx_done P"
      "lc_serveFailure P = serve_failure r" "lc_proc P = after_select r s"
    using select_run by blast
  obtain Q where Q: "(life canceled)\<^sup>*\<^sup>* P Q" "lc_main Q = AwaitingRelay" "lc_ctx_done Q"
      "lc_serveFailure Q = lc_serveFailure P @ http_failure canceled h"
      "lc_proc Q = tell [stop_action b] (tell [ShutdownHTTP] (lc_proc P))"
    using stop_run [OF P(2,3)] by blast
  obtain R where R: "(life canceled)\<^sup>*\<^sup>* Q R" "lc_main R = Returned" "(lc_serveFailure R, lc_proc R) = run_outcome canceled s r h b d"
    using wait_run [OF Q(2,3)] P(4,5) Q(4,5) by (cases d) (auto simp: run_outcome_def Let_def)
  then show ?thesis
    using P(1) Q(1) by (meson rtranclp_trans)
qed

text \<open>C27: Interleaving adds nothing to what \<open>run\<close> can do once it serves: the errors it can return, with the trace of actions and the
  flag that decides whether the database is closed, are exactly those that the sequential \<open>serve_and_stop\<close> gives for some
  answers of its environment, whatever order the relay, the servers, signals and deadlines take.\<close>

theorem interleavings_are_runs:
  "(\<exists>P. (life canceled)\<^sup>*\<^sup>* (start_life s) P \<and> lc_main P = Returned \<and> lc_serveFailure P = errs \<and> lc_proc P = t)
   \<longleftrightarrow> (\<exists>E. rn_is_canceled E = canceled \<and> serve_and_stop E s = (errs, t))" (is "?lhs \<longleftrightarrow> ?rhs")
proof
  assume ?lhs
  then obtain P where "life_inv canceled s P" "lc_main P = Returned" "lc_serveFailure P = errs" "lc_proc P = t"
    using goroutines_of_run.reachable_inv by blast
  then have "reached canceled s Returned errs t"
    unfolding life_inv_def by metis
  then show ?rhs
    using outcome_answers [of canceled s] by auto metis
next
  assume ?rhs
  then obtain E where "serve_and_stop E s = (errs, t)" "rn_is_canceled E = canceled"
    by blast
  then show ?lhs
    using outcome_run [of canceled s "rn_served E" "rn_http_shutdown E" "rn_stopped_in_time E" "rn_relay_done_in_time E"]
    by (auto simp: serve_and_stop_outcome)
qed

section \<open>The database, the channel and the deadline\<close>

text \<open>C28: Under every interleaving the deferred \<open>store.Close\<close> finds the relay ended, or leaves the database alone: when \<open>run\<close>
  returns while the relay may still be running, it returns an error and the database is not closed.  And no server's
  goroutine ever blocks on sending its error, since the channel always has room for it.\<close>

theorem relay_keeps_database:
  assumes "(life canceled)\<^sup>*\<^sup>* (start_life s) P"
  shows "(lc_main P = Returned \<longrightarrow> \<not> lc_relayDone P \<longrightarrow> close_store (lc_proc P) = lc_proc P \<and> lc_serveFailure P \<noteq> [])
    \<and> (\<forall>e. lc_grpc P = Sending e \<longrightarrow> (\<exists>Q. life_step canceled GrpcG P Q))
    \<and> (\<forall>e. lc_http P = Sending e \<longrightarrow> (\<exists>Q. life_step canceled HttpG P Q))"
proof -
  have inv: "life_inv canceled s P"
    using assms by (rule goroutines_of_run.reachable_inv [OF refl])
  have "length (lc_serveErr P) < 2" if "lc_grpc P = Sending e \<or> lc_http P = Sending e" for e
    using inv that by (auto simp: life_inv_def room_def split: if_splits)
  then show ?thesis
    using inv life_step.grpc_sends [of P] life_step.http_sends [of P] unfolding life_inv_def close_store_def by (metis (full_types))
qed

text \<open>The points main has still to pass, and runs that count the steps of main.\<close>

fun points_left :: "main_point \<Rightarrow> nat" where
  "points_left Serving = 4"
| "points_left ShuttingHTTP = 3"
| "points_left StoppingGRPC = 2"
| "points_left AwaitingRelay = 1"
| "points_left Returned = 0"

inductive life_run :: "(err \<Rightarrow> bool) \<Rightarrow> nat \<Rightarrow> lifecycle \<Rightarrow> lifecycle \<Rightarrow> bool" for canceled where
  none: "life_run canceled 0 P P"
| main: "life_run canceled n P Q \<Longrightarrow> life_step canceled MainG Q R \<Longrightarrow> life_run canceled (Suc n) P R"
| other: "life_run canceled n P Q \<Longrightarrow> life_step canceled g Q R \<Longrightarrow> g \<noteq> MainG \<Longrightarrow> life_run canceled n P R"

lemma life_step_points:
  "life_step canceled g P Q \<Longrightarrow> points_left (lc_main P) = (if g = MainG then 1 else 0) + points_left (lc_main Q)"
  by (induction rule: life_step.induct) simp_all

lemma life_step_expired: "life_step canceled g P Q \<Longrightarrow> lc_expired P \<Longrightarrow> lc_expired Q"
  by (induction rule: life_step.induct) simp_all

lemma life_run_facts:
  "life_run canceled n P Q \<Longrightarrow> points_left (lc_main P) = n + points_left (lc_main Q) \<and> (lc_expired P \<longrightarrow> lc_expired Q)
     \<and> (life canceled)\<^sup>*\<^sup>* P Q"
proof (induction rule: life_run.induct)
  case (main n P Q R)
  then show ?case
    using life_step_points [OF main(2)] life_step_expired [OF main(2)] by (auto simp: life_def intro: rtranclp.rtrancl_into_rtrancl)
next
  case (other n P Q g R)
  then show ?case
    using life_step_points [OF other(2)] life_step_expired [OF other(2)] by (auto simp: life_def intro: rtranclp.rtrancl_into_rtrancl)
qed simp

lemma main_can_step:
  assumes "lc_main P = Serving \<Longrightarrow> lc_ctx_done P \<or> lc_serveErr P \<noteq> []" and "lc_main P \<noteq> Serving \<Longrightarrow> lc_expired P"
    and "lc_main P \<noteq> Returned"
  shows "\<exists>Q. life_step canceled MainG P Q"
  using assms life_step.main_signalled [of P] life_step.main_failed [of P] life_step.main_shuts [of P] life_step.main_forced [of P]
    life_step.main_gives_up [of P] by (cases "lc_main P"; cases "lc_serveErr P") blast+

text \<open>C29: The shutdown is bounded: main leaves its first wait as soon as a signal has come or a server has reported an error, and
  from any reachable state in which the shutdown deadline has passed, whatever the other goroutines do, main is never
  stuck and has returned after at most three steps of its own.\<close>

theorem shutdown_bounded:
  assumes "(life canceled)\<^sup>*\<^sup>* (start_life s) P" and "life_run canceled n P Q"
  shows "(lc_main Q = Serving \<longrightarrow> lc_ctx_done Q \<or> lc_serveErr Q \<noteq> [] \<longrightarrow> (\<exists>R. life_step canceled MainG Q R))
    \<and> (lc_expired P \<longrightarrow> n \<le> 3 \<and> (n = 3 \<longrightarrow> lc_main Q = Returned) \<and> (lc_main Q \<noteq> Returned \<longrightarrow> (\<exists>R. life_step canceled MainG Q R)))"
proof -
  note facts = life_run_facts [OF assms(2)]
  have inv: "life_inv canceled s P" "life_inv canceled s Q"
    using goroutines_of_run.reachable_inv [OF refl] assms(1) facts rtranclp_trans by metis+
  have three: "points_left (lc_main P) \<le> 3" if "lc_expired P"
    using inv(1) that by (cases "lc_main P") (auto simp: life_inv_def)
  have "lc_main Q \<noteq> Serving" "lc_expired Q" if "lc_expired P"
    using facts inv(2) that by (auto simp: life_inv_def)
  moreover have "lc_main Q = Returned" if "points_left (lc_main Q) = 0"
    using that by (cases "lc_main Q") auto
  ultimately show ?thesis
    using facts three main_can_step [of Q canceled] by auto
qed

section \<open>A relay that does not end\<close>

definition idle_proc :: proc where
  "idle_proc = \<lparr>pc_trace = [OpenStore], pc_relayStopped = True\<rparr>"

definition overdue :: lifecycle where
  "overdue = (start_life idle_proc)\<lparr>lc_ctx_done := True, lc_main := ShuttingHTTP, lc_expired := True\<rparr>"

lemma overdue_reached: "(life canceled)\<^sup>*\<^sup>* (start_life idle_proc) overdue"
  by (rule life_steps [OF life_step.signalled], rule life_steps [OF life_step.main_signalled], simp add: start_life_def, simp,
      rule life_steps [OF life_step.deadline], simp) (simp add: overdue_def)

lemma overdue_run: "\<exists>Q. life_run canceled 3 overdue Q \<and> lc_main Q = Returned \<and> \<not> lc_relayDone Q"
proof -
  let ?P = "overdue\<lparr>lc_main := StoppingGRPC, lc_stop := GracefulStop, lc_serveFailure := lc_serveFailure overdue @ http_failure canceled None,
      lc_proc := tell [ShutdownHTTP] (lc_proc overdue)\<rparr>"
  let ?Q = "?P\<lparr>lc_main := AwaitingRelay, lc_proc := tell [StopForced] (lc_proc ?P)\<rparr>"
  let ?R = "?Q\<lparr>lc_main := Returned, lc_serveFailure := lc_serveFailure ?Q @ [Wrap ''shutdown outbox relay'' ContextDone]\<rparr>"
  have "life_step canceled MainG overdue ?P" "life_step canceled MainG ?P ?Q" "life_step canceled MainG ?Q ?R"
    by (rule life_step.main_shuts, simp add: overdue_def) (rule life_step.main_forced, simp, simp add: overdue_def,
        rule life_step.main_gives_up, simp, simp add: overdue_def)
  then have "life_run canceled (Suc (Suc (Suc 0))) overdue ?R"
    by (blast intro: life_run.intros)
  then show ?thesis
    by (intro exI [of _ ?R]) (simp add: eval_nat_numeral overdue_def start_life_def)
qed

theorem relay_keeps_database_witness:
  "\<exists>P. (life (\<lambda>_. False))\<^sup>*\<^sup>* (start_life idle_proc) P \<and> lc_main P = Returned \<and> close_store (lc_proc P) = lc_proc P
     \<and> lc_serveFailure P \<noteq> []"
proof -
  obtain Q where Q: "life_run (\<lambda>_. False) 3 overdue Q" "lc_main Q = Returned" "\<not> lc_relayDone Q"
    using overdue_run by blast
  then have "(life (\<lambda>_. False))\<^sup>*\<^sup>* (start_life idle_proc) Q"
    using life_run_facts overdue_reached rtranclp_trans by metis
  with Q show ?thesis
    using relay_keeps_database by blast
qed

theorem shutdown_bounded_witness: "\<exists>Q. life_run (\<lambda>_. False) 3 overdue Q \<and> lc_main Q = Returned"
proof -
  obtain Q where "life_run (\<lambda>_. False) 3 overdue Q"
    using overdue_run by blast
  with shutdown_bounded [OF overdue_reached this] show ?thesis
    by (auto simp: overdue_def)
qed

end
