(* ===== verification/Rotation.thy ===== *)
theory Rotation
  imports Requests
begin

text \<open>
  What a rotation means for the payloads in circulation.  \<open>revoked g v limit\<close> says of the shared state that
  the gym \<open>g\<close> has moved past version \<open>v\<close>: every key up to \<open>v\<close> is retired, except that \<open>v\<close> itself may still
  be the previous key with the acceptance deadline \<open>limit\<close>.  No step of any instance undoes it, so the
  verdict of a scan, on whatever instance and however much later, is bounded by the rotation.
\<close>

section \<open>Steps that touch the keys\<close>

lemma key_steps:
  assumes "sys_step ts s t"
  obtains (same) "tb_keys (sh_tables t) = tb_keys (sh_tables s)"
    | (create) key v where "tb_keys (sh_tables t) = tb_keys (sh_tables s) @ [new_key_row ts key v]"
      "\<not> key_conflict (rk_GymID key) v (tb_keys (sh_tables s))"
    | (rotate) cur key deadline emergency where "cur \<in> set (tb_keys (sh_tables s))" "is_current (rk_GymID key) cur"
      "tb_keys (sh_tables t) = rotated ts key cur deadline emergency (tb_keys (sh_tables s))"
  using assms
proof cases
  case (create_key key n u)
  then show thesis
    using insert_key_or_nothing_Inr [OF create_key(2)] same create by auto
next
  case (rotate_key cur key deadline emergency)
  then show thesis
    using rotate by simp
next
  case (check_in rec fp idem u event w)
  then show thesis
    using insert_check_in_one [OF check_in(2)] insert_outbox_Inr [OF check_in(3)] same by auto
qed (auto simp: claim_outbox_def Let_def claimed_update_defs update_claimed_def split: if_splits intro: same)

section \<open>Revocation\<close>

definition revoked :: "string \<Rightarrow> int \<Rightarrow> time option \<Rightarrow> shared \<Rightarrow> bool" where
  "revoked g v limit s \<longleftrightarrow> (\<exists>c \<in> set (tb_keys (sh_tables s)). is_current g c \<and> v < kr_key_version c)
     \<and> (\<forall>r \<in> set (tb_keys (sh_tables s)). kr_gym_id r = g \<and> kr_key_version r \<le> v \<longrightarrow>
          kr_status r = RootKeyRetired
          \<or> kr_status r = RootKeyPrevious \<and> kr_key_version r = v \<and> limit \<noteq> None \<and> kr_acceptance_deadline r = limit)"

lemma revoked_rotated:
  assumes inv: "keys_inv rows" and cur: "cur \<in> set rows" "is_current (rk_GymID key) cur"
    and t: "tb_keys (sh_tables t) = rotated ts key cur deadline emergency rows"
  shows "revoked (rk_GymID key) (kr_key_version cur) (if emergency then None else Some (ts deadline)) t"
proof -
  let ?n = "new_key_row ts key (kr_key_version cur + 1)"
  have "kr_status r = RootKeyRetired \<or> \<not> emergency \<and> r = demoted ts deadline False cur"
    if "x \<in> set rows" "r = rotate_row ts key deadline emergency x" "kr_gym_id r = rk_GymID key" for x r
  proof (cases "kr_status x = RootKeyCurrent")
    case True
    then have "x = cur"
      using current_unique [OF inv that(1) cur(1) _ cur(2)] that(2,3) by (simp add: is_current_def)
    then show ?thesis
      using that(2) cur(2) by (auto simp: rotate_row_def is_previous_def is_current_def demoted_def)
  next
    case False
    then show ?thesis
      using that(2,3) by (simp add: rotate_row_status)
  qed
  then show ?thesis
    unfolding revoked_def t
    by (force simp: in_rotated is_current_def demoted_def intro!: bexI [of _ ?n])
qed

lemma revoked_step:
  assumes step: "sys_step ts s t" and inv: "sys_inv s" and old: "revoked g v limit s"
  shows "revoked g v limit t"
  using step
proof (cases rule: key_steps)
  case same
  with old show ?thesis
    by (simp add: revoked_def)
next
  case (create key w)
  then have "rk_GymID key \<noteq> g"
    using old by (auto simp: revoked_def key_conflict_def find_None_iff)
  with old create show ?thesis
    by (auto simp: revoked_def)
next
  case (rotate cur key deadline emergency)
  note keys = sys_inv_keys [OF inv]
  show ?thesis
  proof (cases "rk_GymID key = g")
    case True
    from old obtain c where c: "c \<in> set (tb_keys (sh_tables s))" "is_current g c" "v < kr_key_version c"
      by (auto simp: revoked_def)
    then have v: "v < kr_key_version cur"
      using current_unique [OF keys c(1) rotate(1) c(2)] rotate(2) True by simp
    have "kr_status x = RootKeyRetired \<or> kr_status x = RootKeyPrevious"
      if "x \<in> set (tb_keys (sh_tables s))" "kr_gym_id x = g" "kr_key_version x \<le> v" for x
      using old that by (auto simp: revoked_def)
    then have "kr_status (rotate_row ts key deadline emergency x) = RootKeyRetired"
      if "x \<in> set (tb_keys (sh_tables s))" "kr_gym_id x = g" "kr_key_version x \<le> v" for x
      using that True by (fastforce simp: rotate_row_status)
    moreover have "is_current g (new_key_row ts key (kr_key_version cur + 1))"
      using True by (simp add: is_current_def)
    ultimately show ?thesis
      using v by (force simp: revoked_def rotate(3) in_rotated)
  next
    case False
    have "x \<in> set (rotated ts key cur deadline emergency (tb_keys (sh_tables s))) \<longleftrightarrow> x \<in> set (tb_keys (sh_tables s))"
      if "kr_gym_id x = g" for x
      using that False by (auto simp: in_rotated rotate_row_other) (metis rotate_row_other rotate_row_same(1))
    with old show ?thesis
      unfolding revoked_def rotate(3) by (metis is_current_def)
  qed
qed

interpretation revocation: stable "\<lambda>s. s = empty_shared" "sys_step ts" sys_inv "revoked g v limit"
  for ts g v limit
  by unfold_locales (rule revoked_step)

section \<open>Rotations and scans\<close>

lemma newKey_tick: "newKey E g v s = (Inr k, t) \<Longrightarrow> sv_tick t = sv_tick s + 3"
  by (auto simp: newKey_def svc_op_defs split: prod.splits sum.splits)

lemma current_stays:
  assumes "moves E c d" and "sys_inv (cn_shared c)" and "find (is_current g) (tb_keys (cn_tables c)) \<noteq> None"
  shows "find (is_current g) (tb_keys (cn_tables d)) \<noteq> None"
proof -
  obtain r where r: "r \<in> set (tb_keys (cn_tables c))" "kr_gym_id r = g"
    using assms(3) by (auto simp: is_current_def dest!: find_SomeD)
  then obtain r' where r': "r' \<in> set (tb_keys (cn_tables d))" "kr_gym_id r' = g"
    using grows_keys [OF moves_grows [OF assms(1,2)] r(1)] by (auto simp: key_le_def)
  then have "key_row_ok (tb_keys (cn_tables d)) r'"
    using sys_inv_keys [OF moves_inv [OF assms(1,2)]] by (simp add: keys_inv_def)
  then show ?thesis
    using r'(2) by (auto simp: key_row_ok_def find_None_iff)
qed

text \<open>A rotation of a gym that has a key: the key table it leaves.\<close>

lemma Rotate_revokes:
  assumes "rely (se_sql E)" and inv: "svc_inv E A s" and run: "Rotate E gymID emergency s = (Inr ro, t)"
    and key: "find (is_current (ro_GymID ro)) (tb_keys (cn_tables (sv_conn s))) \<noteq> None"
    and gym: "ValidateCheckInGym (se_plans E) (sv_tick s) gymID = Inr gym" "gy_ID gym = ro_GymID ro"
  shows "revoked (ro_GymID ro) (uint (ro_KeyVersion ro) - 1)
     (if emergency then None else Some (sq_ts (se_sql E) (se_clock E (sv_tick s + 4) + priorKeyOverlap))) (sv_shared t)"
  using run
proof (cases rule: Rotate_cases)
  case (first gym' u r')
  have "moves (se_sql E) (sv_conn s) (sv_conn u)" "find (is_current (ro_GymID ro)) (tb_keys (cn_tables (sv_conn u))) = None"
    using first(1,2) gym arrive_moves [OF assms(1)] by (auto simp: storeE_run CurrentKey_def find_key_Inr)
  moreover have "sys_inv (sv_shared s)"
    using inv by (simp add: svc_inv_def)
  ultimately show ?thesis
    using current_stays [OF _ _ key] by blast
next
  case (rotated gym' previous u k w c created)
  obtain k' where k': "created = Inr k'" "ro_KeyVersion ro = rk_Version k'" "ro_GymID ro = rk_GymID k'"
    using rotated(5) by (cases created) auto
  have "svc_inv E A u" "sv_tick u = Suc (sv_tick s)"
    using storeE_inv [OF read_moves(7) [OF assms(1)] _ rotated(2), of A] inv rotated(2) by (auto simp: storeE_run)
  then have w: "sys_inv (sv_shared w)" "sv_tick w = sv_tick s + 4"
    using newKey_inv(1) [OF _ rotated(3)] newKey_tick [OF rotated(3)] by (auto simp: svc_inv_def)
  from assms(1) w(1) rotated(4) [unfolded k'(1)] show ?thesis
  proof (rule RotateKey_Inr)
    fix a cur
    assume a: "moves (se_sql E) (sv_conn w) a" "cur \<in> set (tb_keys (cn_tables a))" "is_current (rk_GymID k) cur"
      "k' = k\<lparr>rk_Version := word_of_int (kr_key_version cur) + 1\<rparr>"
    let ?d = "if emergency then se_clock E (sv_tick w) else se_clock E (sv_tick w) + priorKeyOverlap"
    assume t: "cn_shared c = (cn_shared a)\<lparr>sh_tables := (cn_tables a)
        \<lparr>tb_keys := Protocol.rotated (sq_ts (se_sql E)) k' cur ?d emergency (tb_keys (cn_tables a))\<rparr>\<rparr>"
      and v: "kr_key_version cur + 1 < 2 ^ 63"
    have inva: "sys_inv (cn_shared a)"
      using moves_inv [OF a(1) w(1)] .
    have "uint (rk_Version k') - 1 = kr_key_version cur"
      using next_version(2) version_range [OF sys_inv_keys [OF inva] a(2)] v a(4) by simp
    moreover have "revoked (rk_GymID k') (kr_key_version cur) (if emergency then None else Some (sq_ts (se_sql E) ?d)) (cn_shared c)"
      by (rule revoked_rotated [OF sys_inv_keys [OF inva] a(2)]) (use a(3,4) t in simp_all)
    ultimately show ?thesis
      using k' rotated(6) w(2) by (simp split: if_splits)
  qed
qed simp_all

text \<open>C5: A rotation of a gym that has a key takes effect on every instance: from then on, a scan whose request was not
  recorded before and whose payload names an older version is accepted only if the rotation was no emergency, the
  version is the one just before, and the instance's clock is before the rotation's clock plus the overlap.\<close>

theorem rotation_revokes:
  assumes "rely (se_sql E)" and "rely (se_sql E')" and ts: "sq_ts (se_sql E') = sq_ts (se_sql E)"
    and inv: "svc_inv E A s" "svc_inv E' A' s'"
    and run: "Rotate E gymID emergency s = (Inr ro, t)"
    and gym: "ValidateCheckInGym (se_plans E) (sv_tick s) gymID = Inr gym" "gy_ID gym = ro_GymID ro"
      "find (is_current (ro_GymID ro)) (tb_keys (cn_tables (sv_conn s))) \<noteq> None"
    and later: "moves (se_sql E) (sv_conn t) (sv_conn s')"
    and scan: "Scan E' userID (ro_GymID ro) payload idem s' = (Inr rec, t')"
    and parsed: "ParseSignedQR (se_uuid E') payload = Inr q" "qr_KeyVersion q < ro_KeyVersion ro"
    and new: "request_entry (cn_shared (arrive (se_sql E') (sv_conn s'))) (userID, idem) = None"
  shows "\<not> emergency \<and> uint (qr_KeyVersion q) = uint (ro_KeyVersion ro) - 1
    \<and> se_clock E' (sv_tick s') < sq_ts (se_sql E) (se_clock E (sv_tick s + 4) + priorKeyOverlap)"
  using scan
proof (cases rule: Scan_cases)
  case (accepted q' u)
  let ?lim = "if emergency then None else Some (sq_ts (se_sql E) (se_clock E (sv_tick s + 4) + priorKeyOverlap))"
  let ?a = "s'\<lparr>sv_conn := arrive (se_sql E') (sv_conn s')\<rparr>"
  obtain key where q: "q' = q" and fk: "FindKey (se_sql E') (ro_GymID ro) (qr_KeyVersion q) (sv_conn ?a) = (Inr (Some key), sv_conn u)"
    and acc: "IsAcceptableAt key (se_clock E' (sv_tick s'))"
    using scan_check_inv(2) [OF assms(2) arrive_inv [OF assms(2) inv(2)] accepted(2) refl] parsed(1) by auto
  obtain row where row: "sv_conn u = arrive (se_sql E') (sv_conn ?a)" "row \<in> set (tb_keys (cn_tables (sv_conn u)))"
    "is_version (ro_GymID ro) (uint (qr_KeyVersion q)) row" "key = root_key_of row"
    using FindKey_Inr [OF fk] by (auto dest: find_SomeD)
  have "moves (se_sql E) (sv_conn t) (sv_conn u)"
    using later arrive_moves [OF assms(2)] unfolding row(1) by (auto simp: moves_ts [OF ts] intro: moves_trans)
  moreover have "sys_inv (sv_shared t)"
    using Rotate_inv [OF assms(1) inv(1) run] by (simp add: svc_inv_def)
  ultimately have "revoked (ro_GymID ro) (uint (ro_KeyVersion ro) - 1) ?lim (sv_shared u)"
    using Rotate_revokes [OF assms(1) inv(1) run gym(3,1,2)] revocation.fact_run by (auto simp: moves_def)
  then have "kr_status row = RootKeyRetired \<or> kr_status row = RootKeyPrevious \<and> ?lim \<noteq> None
      \<and> kr_key_version row = uint (ro_KeyVersion ro) - 1 \<and> kr_acceptance_deadline row = ?lim"
    using row(2,3) parsed(2) by (auto simp: revoked_def is_version_def word_less_def)
  then show ?thesis
    using acc row(3,4) by (auto simp: is_version_def root_key_of_def split: if_splits)
qed (use new in simp_all)

definition sample_rotated :: svc where
  "sample_rotated = snd (Rotate sample_env sample_gym False sample_svc)"

lemma rotated_facts:
  "fst (Rotate sample_env sample_gym False sample_svc) = Inr \<lparr>ro_GymID = sample_gym, ro_KeyVersion = 2, ro_ActivatedAt = 150 * Second\<rparr>"
  "tb_check_ins (cn_tables (sv_conn sample_rotated)) = []" "tb_outbox (cn_tables (sv_conn sample_rotated)) = []"
  "find (is_version sample_gym 1) (tb_keys (cn_tables (sv_conn sample_rotated)))
     = Some (demoted (sq_ts quiet_env) (270 * Second) False sample_row)"
  by code_simp+

theorem rotation_revokes_witness:
  "\<exists>rec t. Scan sample_env ''u1'' sample_gym (sample_payload sample_secret) ''i1'' sample_rotated = (Inr rec, t)
     \<and> se_clock sample_env (sv_tick sample_rotated) < sq_ts quiet_env (150 * Second + priorKeyOverlap)"
proof -
  have run: "Rotate sample_env sample_gym False sample_svc
      = (Inr \<lparr>ro_GymID = sample_gym, ro_KeyVersion = 2, ro_ActivatedAt = 150 * Second\<rparr>, sample_rotated)"
    using rotated_facts(1) by (simp add: sample_rotated_def prod_eq_iff)
  note inv = Rotate_inv [OF sample_rely sample_inv run]
  obtain rec t where scan: "Scan sample_env ''u1'' sample_gym (sample_payload sample_secret) ''i1'' sample_rotated = (Inr rec, t)"
    using sample_scan_record [OF inv rotated_facts(2-4)]
    by (auto simp: demoted_def sample_row_def root_key_of_def quiet_env_def IsAcceptableAt_def durations)
  have "\<not> False \<and> uint (qr_KeyVersion sample_q) = uint (ro_KeyVersion \<lparr>ro_GymID = sample_gym, ro_KeyVersion = 2, ro_ActivatedAt = 150 * Second\<rparr>) - 1
    \<and> se_clock sample_env (sv_tick sample_rotated) < sq_ts (se_sql sample_env) (se_clock sample_env (sv_tick sample_svc + 4) + priorKeyOverlap)"
    by (rule rotation_revokes [OF sample_rely sample_rely refl sample_inv inv run, where payload = "sample_payload sample_secret"
          and gym = "\<lparr>gy_ID = sample_gym, gy_Status = ''ACTIVE''\<rparr>" and rec = rec and t' = t])
      (use scan sample_parsed rotated_facts(2) sample_rows(3) in
        \<open>simp_all add: sample_env_def ValidateCheckInGym_def quiet_env_def request_entry_def signed_def sample_svc_def NewService_def
          sample_row_def is_current_def\<close>)
  with scan show ?thesis
    by (simp add: sample_env_def)
qed

end
