(* ===== verification/Drain.thy ===== *)
theory Drain
  imports Relay
begin

text \<open>
  The relay empties the outbox.  When the database and the broker answer, every flush settles the fifty oldest events that
  are due, or all of them if there are fewer, so the loop of \<open>Run\<close> settles a backlog of any size before it returns,
  provided it makes enough rounds.
\<close>

section \<open>What is left to deliver\<close>

definition unfinished :: "shared \<Rightarrow> string set" where
  "unfinished sh = {eid. \<exists>r. event_row sh eid = Some r \<and> \<not> terminal (or_status r)}"

lemma unfinished_rows:
  "sys_inv sh \<Longrightarrow> unfinished sh = or_event_id ` {r \<in> set (tb_outbox (sh_tables sh)). \<not> terminal (or_status r)}"
  by (auto simp: unfinished_def dest: event_rowD event_row_mem)

lemma finite_unfinished: "sys_inv sh \<Longrightarrow> finite (unfinished sh)"
  by (simp add: unfinished_rows)

text \<open>A surrounding in which nothing fails and no row is locked by somebody else.\<close>

definition delivering :: "relay_env \<Rightarrow> bool" where
  "delivering E \<longleftrightarrow> undisturbed (re_sql E) \<and> dlq_law (re_lib E) \<and> returning_law (re_sql E)
     \<and> (\<forall>n eid. \<not> sq_locked (re_sql E) n eid) \<and> (\<forall>hs. \<exists>h. kl_json_Marshal (re_lib E) hs = Inr h)
     \<and> (\<forall>n. re_ctx_Err E n = None) \<and> (\<forall>n rec. re_PublishRaw E n rec = Acked)"

text \<open>Every unfinished event is due, by every reading of the clock, and its record can be made.\<close>

definition due :: "relay_env \<Rightarrow> shared \<Rightarrow> bool" where
  "due E sh \<longleftrightarrow> (\<forall>eid r. event_row sh eid = Some r \<longrightarrow> \<not> terminal (or_status r) \<longrightarrow>
     (\<forall>n. claimable (sq_ts (re_sql E) (re_clock E n)) (sq_ts (re_sql E) (re_clock E n - Minute)) r)
     \<and> (\<forall>now u. \<exists>rec w. relay_record E (outbox_event_of r) now u = (Inr rec, w)))"

definition delivered_as :: "outbox_row \<Rightarrow> outbox_status" where
  "delivered_as r = (if or_attempts r < 3 then PUBLISHED else FAILED)"

definition advanced :: "shared \<Rightarrow> shared \<Rightarrow> bool" where
  "advanced sh sh' \<longleftrightarrow> (\<forall>eid. rel_option (\<lambda>r r'. r' = r \<or> \<not> terminal (or_status r) \<and> or_status r' = delivered_as r)
     (event_row sh eid) (event_row sh' eid))"

lemma delivered_terminal [simp]: "terminal (delivered_as r)"
  by (simp add: delivered_as_def terminal_def)

lemma advanced_refl [simp]: "advanced sh sh"
  by (simp add: advanced_def option.rel_refl)

lemma advanced_trans:
  assumes "advanced a b" and "advanced b c"
  shows "advanced a c"
  unfolding advanced_def
proof
  fix eid
  show "rel_option (\<lambda>r r'. r' = r \<or> \<not> terminal (or_status r) \<and> or_status r' = delivered_as r) (event_row a eid) (event_row c eid)"
    using assms [unfolded advanced_def, THEN spec, of eid]
    by (cases "event_row a eid"; cases "event_row b eid"; cases "event_row c eid") auto
qed

lemma advanced_due: "advanced a b \<Longrightarrow> due E a \<Longrightarrow> due E b"
  unfolding due_def
proof (intro allI impI)
  fix eid r
  assume adv: "advanced a b" and r: "event_row b eid = Some r" "\<not> terminal (or_status r)"
    and due: "\<forall>eid r. event_row a eid = Some r \<longrightarrow> \<not> terminal (or_status r) \<longrightarrow>
     (\<forall>n. claimable (sq_ts (re_sql E) (re_clock E n)) (sq_ts (re_sql E) (re_clock E n - Minute)) r)
     \<and> (\<forall>now u. \<exists>rec w. relay_record E (outbox_event_of r) now u = (Inr rec, w))"
  have "event_row a eid = Some r"
    using adv [unfolded advanced_def, THEN spec, of eid] r by (cases "event_row a eid") auto
  with due r(2) show "(\<forall>n. claimable (sq_ts (re_sql E) (re_clock E n)) (sq_ts (re_sql E) (re_clock E n - Minute)) r)
     \<and> (\<forall>now u. \<exists>rec w. relay_record E (outbox_event_of r) now u = (Inr rec, w))"
    by blast
qed

section \<open>One flush\<close>

lemma claim_quiet:
  assumes "undisturbed E" and "returning_law E" and "\<forall>n eid. \<not> sq_locked E n eid" and inv: "sys_inv (cn_shared c)"
  shows "\<exists>events d. ClaimOutbox E 50 now c = (Inr events, d)
    \<and> card (ev_ID ` set events) = min 50 (length (filter (claimable (sq_ts E now) (sq_ts E (now - Minute))) (tb_outbox (cn_tables c))))"
proof -
  let ?rows = "tb_outbox (cn_tables c)"
  let ?due = "filter (claimable (sq_ts E now) (sq_ts E (now - Minute))) ?rows"
  have arr: "cn_shared (arrive E c) = cn_shared c"
    using assms(1) by (simp add: arrive_def undisturbed_def)
  obtain events d where run: "ClaimOutbox E 50 now c = (Inr events, d)"
    using assms(1) by (fastforce simp: ClaimOutbox_def bindE_def BeginTx_def tx_exec_def driver_read_def Commit_def undisturbed_def
        Let_def claim_outbox_def getE_def)
  obtain ids where "claims E 50 now (cn_shared (arrive E c)) (cn_shared d) events ids"
    using run by (rule ClaimOutbox_claims) (use assms(2) in \<open>simp add: returning_law_def\<close>)
  note ids = this [unfolded arr]
  let ?X = "take 50 (order_by (\<lambda>a b. or_created_at a \<le> or_created_at b) ?due)"
  have unlocked: "sq_locked E n = (\<lambda>_. False)" for n
    using assms(3) by blast
  have "ids = or_event_id ` set ?X"
    using ids unfolding claims_def by (auto simp: unlocked claim_rows_def)
  moreover have "set ?X \<subseteq> set ?rows"
    by (auto dest!: in_set_takeD)
  moreover have "ev_ID ` set events = or_event_id ` {r \<in> set ?rows. or_event_id r \<in> ids}"
    unfolding claims_set [OF ids] image_image by (simp add: outbox_event_of_def)
  ultimately have "ev_ID ` set events = or_event_id ` set ?X"
    by auto
  moreover have "distinct (map or_event_id ?due)"
    using inv distinct_map_filter by (auto simp: sys_inv_def outbox_inv_def)
  then have "distinct (map or_event_id (order_by (\<lambda>a b. or_created_at a \<le> or_created_at b) ?due))"
    by (metis mset_eq_imp_distinct_iff mset_map mset_order_by)
  then have "distinct (map or_event_id ?X)"
    by (metis distinct_take take_map)
  then have "card (or_event_id ` set ?X) = length ?X"
    using distinct_card [of "map or_event_id ?X"] by simp
  ultimately show ?thesis
    using run by (auto simp: min.commute)
qed

lemma unfinished_count:
  assumes inv: "sys_inv sh" and "due E sh"
  shows "card (unfinished sh) = length (filter (claimable (sq_ts (re_sql E) (re_clock E n)) (sq_ts (re_sql E) (re_clock E n - Minute)))
    (tb_outbox (sh_tables sh)))" (is "_ = length (filter ?p ?rows)")
proof -
  have "\<not> terminal (or_status r) \<longleftrightarrow> ?p r" if "r \<in> set ?rows" for r
    using assms(2) event_row_mem [OF inv that] by (auto simp: due_def claimable_def terminal_def)
  then have "unfinished sh = set (map or_event_id (filter ?p ?rows))"
    by (auto simp: unfinished_rows [OF inv])
  moreover have "distinct (map or_event_id (filter ?p ?rows))"
    using inv distinct_map_filter by (auto simp: sys_inv_def outbox_inv_def)
  ultimately show ?thesis
    using distinct_card by fastforce
qed

text \<open>A batch that is settled, the other rows untouched.\<close>

lemma batch_advanced:
  assumes got: "\<And>e. e \<in> set events \<Longrightarrow> \<exists>r. event_row s (ev_ID e) = Some r \<and> e = outbox_event_of r \<and> \<not> terminal (or_status r)"
    and settled: "\<And>e. e \<in> set events \<Longrightarrow> \<exists>r. event_row t (ev_ID e) = Some r \<and> or_status r = (if ev_Attempts e < 3 then PUBLISHED else FAILED)"
    and rest: "\<And>eid. eid \<notin> ev_ID ` set events \<Longrightarrow> event_row t eid = event_row s eid" and inv: "sys_inv s"
  shows "advanced s t" and "card (unfinished t) \<le> card (unfinished s) - card (ev_ID ` set events)"
proof -
  show "advanced s t"
    unfolding advanced_def
  proof
    fix eid
    show "rel_option (\<lambda>r r'. r' = r \<or> \<not> terminal (or_status r) \<and> or_status r' = delivered_as r) (event_row s eid) (event_row t eid)"
    proof (cases "eid \<in> ev_ID ` set events")
      case True
      then obtain e where "e \<in> set events" "eid = ev_ID e"
        by blast
      with got [of e] settled [of e] show ?thesis
        by (auto simp: delivered_as_def outbox_event_of_def)
    qed (simp add: rest option.rel_refl)
  qed
  have sub: "ev_ID ` set events \<subseteq> unfinished s"
    using got by (force simp: unfinished_def)
  have "eid \<in> unfinished s - ev_ID ` set events" if "eid \<in> unfinished t" for eid
  proof -
    have "eid \<notin> ev_ID ` set events"
      using that settled by (fastforce simp: unfinished_def terminal_def split: if_splits)
    with that rest show ?thesis
      by (simp add: unfinished_def)
  qed
  then show "card (unfinished t) \<le> card (unfinished s) - card (ev_ID ` set events)"
    using card_mono [of "unfinished s - ev_ID ` set events" "unfinished t"] finite_unfinished [OF inv]
      card_Diff_subset [OF finite_subset [OF sub] sub] by auto
qed

lemma Flush_advances:
  assumes E: "delivering E" and inv: "sys_inv (rs_shared s)" and due: "due E (rs_shared s)" and run: "Flush E s = (x, t)"
  shows "x = Inr () \<and> sys_inv (rs_shared t) \<and> advanced (rs_shared s) (rs_shared t)
    \<and> card (unfinished (rs_shared t)) \<le> card (unfinished (rs_shared s)) - 50"
proof -
  let ?now = "re_clock E (rs_tick s)"
  let ?rows = "tb_outbox (sh_tables (rs_shared s))"
  have laws: "undisturbed (re_sql E)" "dlq_law (re_lib E)" "returning_law (re_sql E)" "\<forall>n eid. \<not> sq_locked (re_sql E) n eid"
      "\<And>hs. \<exists>h. kl_json_Marshal (re_lib E) hs = Inr h" "\<And>n. re_ctx_Err E n = None" "\<And>n rec. re_PublishRaw E n rec = Acked"
    using E by (auto simp: delivering_def)
  note rely = undisturbed_rely [OF laws(1)]
  have arr: "cn_shared (arrive (re_sql E) (rs_conn s)) = rs_shared s"
    using laws(1) by (simp add: arrive_def undisturbed_def)
  obtain events c where claim: "ClaimOutbox (re_sql E) 50 ?now (rs_conn s) = (Inr events, c)"
    and count: "card (ev_ID ` set events) = min 50 (length (filter (claimable (sq_ts (re_sql E) ?now) (sq_ts (re_sql E) (?now - Minute))) ?rows))"
    using claim_quiet [OF laws(1,3,4) inv] by blast
  obtain ids where "claims (re_sql E) 50 ?now (cn_shared (arrive (re_sql E) (rs_conn s))) (cn_shared c) events ids"
    using claim by (rule ClaimOutbox_claims) (use laws(3) in \<open>simp add: returning_law_def\<close>)
  note ids = this [unfolded arr]
  have got: "\<exists>r. event_row (rs_shared s) (ev_ID e) = Some r \<and> e = outbox_event_of r \<and> \<not> terminal (or_status r)"
    if "e \<in> set events" for e
  proof -
    obtain r where r: "r \<in> set ?rows" "or_event_id r \<in> ids" "e = outbox_event_of r"
      using \<open>e \<in> set events\<close> claims_set [OF ids] by auto
    then show ?thesis
      using claims_due [OF ids inv r(1,2)] event_row_mem [OF inv r(1)]
      by (auto simp: outbox_event_of_def claimable_def terminal_def)
  qed
  have "x = Inr () \<and> (\<forall>e \<in> set events. \<exists>r. event_row (rs_shared t) (ev_ID e) = Some r
        \<and> or_status r = (if ev_Attempts e < 3 then PUBLISHED else FAILED))
      \<and> (\<forall>eid. eid \<notin> ev_ID ` set events \<longrightarrow> event_row (rs_shared t) eid = event_row (cn_shared c) eid)"
    using got due by (intro Flush_settles [OF laws(1-3,5-7) inv claim _ run]) (force simp: due_def)
  note settled = conjunct1 [OF this] conjunct1 [OF conjunct2 [OF this]] conjunct2 [OF conjunct2 [OF this]]
  have rest: "event_row (rs_shared t) eid = event_row (rs_shared s) eid" if "eid \<notin> ev_ID ` set events" for eid
  proof -
    have "or_event_id r \<notin> ids" if "event_row (rs_shared s) eid = Some r" for r
      using \<open>eid \<notin> ev_ID ` set events\<close> claims_set [OF ids] event_rowD [OF that] by (force simp: outbox_event_of_def)
    then show ?thesis
      using settled(3) that claims_row [OF ids, of eid] by (cases "event_row (rs_shared s) eid") auto
  qed
  have batch: "advanced (rs_shared s) (rs_shared t)"
      "card (unfinished (rs_shared t)) \<le> card (unfinished (rs_shared s)) - card (ev_ID ` set events)"
    using batch_advanced [of events, OF got _ rest inv] settled(2) by blast+
  have "card (unfinished (rs_shared s)) = length (filter (claimable (sq_ts (re_sql E) ?now) (sq_ts (re_sql E) (?now - Minute))) ?rows)"
    by (rule unfinished_count [OF inv due])
  then show ?thesis
    using settled(1) batch count moves_inv [of "re_sql E" "rs_conn s" "rs_conn t"] inv
      Flush_moves [OF rely laws(2,3) run] by (auto simp: rmoves_def)
qed

section \<open>The loop\<close>

lemma Flushes_advance:
  assumes "delivering E" and "sys_inv (rs_shared s)" and "due E (rs_shared s)"
  shows "let t = ((\<lambda>u. snd (Flush E u)) ^^ k) s in sys_inv (rs_shared t) \<and> due E (rs_shared t)
    \<and> advanced (rs_shared s) (rs_shared t) \<and> card (unfinished (rs_shared t)) \<le> card (unfinished (rs_shared s)) - 50 * k"
proof (induction k)
  case 0
  then show ?case
    using assms by simp
next
  case (Suc k)
  define t where "t = ((\<lambda>u. snd (Flush E u)) ^^ k) s"
  have t: "sys_inv (rs_shared t)" "due E (rs_shared t)" "advanced (rs_shared s) (rs_shared t)"
      "card (unfinished (rs_shared t)) \<le> card (unfinished (rs_shared s)) - 50 * k"
    using Suc.IH by (simp_all add: t_def Let_def)
  have step: "((\<lambda>u. snd (Flush E u)) ^^ Suc k) s = snd (Flush E t)"
    by (simp add: t_def)
  have "sys_inv (rs_shared (snd (Flush E t)))" "advanced (rs_shared t) (rs_shared (snd (Flush E t)))"
      "card (unfinished (rs_shared (snd (Flush E t)))) \<le> card (unfinished (rs_shared t)) - 50"
    using Flush_advances [OF assms(1) t(1,2) surjective_pairing] by auto
  with t show ?case
    unfolding step Let_def by (auto intro: advanced_trans advanced_due)
qed

lemma run_loop_first:
  assumes "re_stop E d (k + m)" and "\<And>j. j \<in> {k..<k + m} \<Longrightarrow> \<not> re_stop E d j"
  shows "run_loop E d k s = Some (((\<lambda>u. snd (Flush E u)) ^^ Suc m) s)"
  using assms
proof (induction m arbitrary: k s)
  case 0
  then show ?case
    by (subst run_loop.simps) simp
next
  case (Suc m)
  then have "run_loop E d (Suc k) (snd (Flush E s)) = Some (((\<lambda>u. snd (Flush E u)) ^^ Suc m) (snd (Flush E s)))"
    by simp
  moreover have "\<not> re_stop E d k"
    using Suc.prems(2) [of k] by simp
  moreover have "((\<lambda>u. snd (Flush E u)) ^^ Suc m) (snd (Flush E s)) = ((\<lambda>u. snd (Flush E u)) ^^ Suc (Suc m)) s"
    using funpow_swap1 [of "\<lambda>u. snd (Flush E u)" "Suc m" s] by simp
  ultimately show ?case
    by (subst run_loop.simps) (simp add: Let_def del: funpow.simps)
qed

lemma Run_drains:
  assumes "delivering E" and "sys_inv (rs_shared s)" and "due E (rs_shared s)"
    and stop: "re_stop E (relay_interval interval) n" "\<And>m. m < n \<Longrightarrow> \<not> re_stop E (relay_interval interval) m"
    and enough: "card (unfinished (rs_shared s)) \<le> 50 * Suc n"
  obtains t where "Run E interval s = Some t" and "sys_inv (rs_shared t)" and "advanced (rs_shared s) (rs_shared t)"
    and "unfinished (rs_shared t) = {}"
proof
  let ?t = "((\<lambda>u. snd (Flush E u)) ^^ Suc n) s"
  show "Run E interval s = Some ?t"
    unfolding Run_def using run_loop_first [of E "relay_interval interval" 0 n s] stop by simp
  show inv: "sys_inv (rs_shared ?t)" and "advanced (rs_shared s) (rs_shared ?t)"
    using Flushes_advance [OF assms(1-3), of "Suc n"] by (simp_all add: Let_def del: funpow.simps)
  have "card (unfinished (rs_shared ?t)) = 0"
    using Flushes_advance [OF assms(1-3), of "Suc n"] enough by (simp add: Let_def del: funpow.simps)
  then show "unfinished (rs_shared ?t) = {}"
    using finite_unfinished [OF inv] by (simp del: funpow.simps)
qed

text \<open>C15: The relay empties the outbox: when the database and the broker answer, no row is locked and every unfinished event
  is due and can be framed, a loop that makes enough rounds, at fifty events a round, returns with every event of the
  outbox in a final state: an event that was final is as it was, every other is PUBLISHED with its frame at the broker,
  or FAILED with its frame on the dead-letter topic if its attempts were used up.\<close>

theorem relay_drains:
  assumes "delivering E" and "sys_inv (rs_shared s)" and "due E (rs_shared s)"
    and stop: "re_stop E (relay_interval interval) n" "\<And>m. m < n \<Longrightarrow> \<not> re_stop E (relay_interval interval) m"
    and enough: "card (unfinished (rs_shared s)) \<le> 50 * Suc n"
  shows "\<exists>t. Run E interval s = Some t \<and> unfinished (rs_shared t) = {}
    \<and> (\<forall>eid r. event_row (rs_shared s) eid = Some r \<longrightarrow> (\<exists>r'. event_row (rs_shared t) eid = Some r' \<and>
         (if terminal (or_status r) then r' = r
          else \<exists>rec \<in> set (sh_broker (rs_shared t)).
            (if or_attempts r < 3 then or_status r' = PUBLISHED \<and> frames r' rec else or_status r' = FAILED \<and> dlq_frames r' rec))))"
proof -
  obtain t where run: "Run E interval s = Some t" and t: "sys_inv (rs_shared t)" "advanced (rs_shared s) (rs_shared t)"
    and none: "unfinished (rs_shared t) = {}"
    using Run_drains [OF assms] by blast
  have "\<exists>r'. event_row (rs_shared t) eid = Some r' \<and> (if terminal (or_status r) then r' = r
          else \<exists>rec \<in> set (sh_broker (rs_shared t)).
            (if or_attempts r < 3 then or_status r' = PUBLISHED \<and> frames r' rec else or_status r' = FAILED \<and> dlq_frames r' rec))"
    if r: "event_row (rs_shared s) eid = Some r" for eid r
  proof -
    obtain r' where r': "event_row (rs_shared t) eid = Some r'" "r' = r \<or> \<not> terminal (or_status r) \<and> or_status r' = delivered_as r"
      using t(2) [unfolded advanced_def, THEN spec, of eid] r by (cases "event_row (rs_shared t) eid") auto
    have ok: "outbox_row_ok (sh_broker (rs_shared t)) r'"
      using t(1) event_rowD [OF r'(1)] by (auto simp: sys_inv_def outbox_inv_def)
    have "or_status r' = delivered_as r" if "\<not> terminal (or_status r)"
      using none r' that by (auto simp: unfinished_def)
    then have "\<exists>rec \<in> set (sh_broker (rs_shared t)).
        (if or_attempts r < 3 then or_status r' = PUBLISHED \<and> frames r' rec else or_status r' = FAILED \<and> dlq_frames r' rec)"
      if "\<not> terminal (or_status r)"
      using that ok unfolding outbox_row_ok_def delivered_as_def by (cases "or_attempts r < 3") simp_all
    with r' show ?thesis
      by auto
  qed
  with run none show ?thesis
    by blast
qed

lemma sample_delivering: "delivering sample_relay"
  using sample_relay_laws by (simp add: delivering_def) (simp add: sample_relay_def quiet_env_def)

theorem relay_drains_witness:
  "\<exists>t r rec. Run sample_relay 0 relay_start = Some t \<and> event_row (rs_shared t) ''e1'' = Some r \<and> or_status r = PUBLISHED
     \<and> rec \<in> set (sh_broker (rs_shared t)) \<and> frames r rec"
proof -
  let ?row = "new_outbox_row (sq_ts quiet_env) sample_event"
  have outbox: "tb_outbox (sh_tables (rs_shared relay_start)) = [?row]"
    by code_simp
  have row: "or_event_id ?row = ''e1''" "or_status ?row = PENDING" "or_attempts ?row = 0" "or_available_at ?row = 1000"
    by code_simp+
  have made: "\<exists>rec w. relay_record sample_relay (outbox_event_of ?row) now u = (Inr rec, w)" for now u
    using sample_made by (simp add: claimed_row_def)
  have "due sample_relay (rs_shared relay_start)"
    using made row by (auto simp: due_def event_row_def outbox claimable_def) (simp add: sample_relay_def quiet_env_def)
  moreover have "unfinished (rs_shared relay_start) = {''e1''}"
    using row by (auto simp: unfinished_def event_row_def outbox terminal_def)
  moreover have "re_stop sample_relay d 1" "m < 1 \<Longrightarrow> \<not> re_stop sample_relay d m" for m d
    by (simp_all add: sample_relay_def)
  moreover have "event_row (rs_shared relay_start) ''e1'' = Some ?row"
    using row by (simp add: event_row_def outbox)
  ultimately show ?thesis
    using relay_drains [OF sample_delivering relay_start_inv, of 0 1] row by (fastforce simp: terminal_def)
qed

end
