(* ===== verification/Goroutines.thy ===== *)
theory Goroutines
  imports Service
begin

text \<open>
  Requests of one instance run at the same time and share its key cache.  Here what they do in memory is a program of steps,
  one per call that takes the cache's lock or works on memory of its own: \<open>Service.key\<close>, the use and zeroing of the key it
  returns, \<open>Service.newKey\<close>, and the deletion after a rotation.  The steps of any number of goroutines interleave.  Whatever
  the interleaving, what a goroutine holds is its own array with the right bytes, and the cache is intact and
  right; but two goroutines that miss the same entry leave a plaintext in memory for good.
\<close>

section \<open>The steps of \<open>key\<close> and \<open>newKey\<close>\<close>

datatype job =
    NoKey
  | Started RootKey
  | Lookup RootKey
  | Missed RootKey
  | Decrypted RootKey nat
  | Cached RootKey nat
  | Holding RootKey nat
  | Fresh nat
  | Filled nat bytes

record pool =
  po_mem :: memory
  po_jobs :: "nat \<Rightarrow> job"

definition entry_expires :: "RootKey \<Rightarrow> time \<Rightarrow> time" where
  "entry_expires key now =
     (if rk_Status key = RootKeyCurrent \<or> IsZero (rk_AcceptanceDeadline key) then now + 5 * Minute
      else rk_AcceptanceDeadline key)"

text \<open>\<open>decrypts key bytes\<close> is that KMS may decrypt the key's ciphertext to these bytes.  A goroutine ends with the zeroing of what
  it holds, as its callers do.\<close>

inductive key_step :: "(RootKey \<Rightarrow> bytes \<Rightarrow> bool) \<Rightarrow> pool \<Rightarrow> pool \<Rightarrow> bool" for decrypts where
  start: "J i = NoKey \<Longrightarrow> key_step decrypts \<lparr>po_mem = m, po_jobs = J\<rparr> \<lparr>po_mem = m, po_jobs = J(i := Started key)\<rparr>"
| drop: "J i = Started key \<Longrightarrow> key_step decrypts \<lparr>po_mem = m, po_jobs = J\<rparr>
    \<lparr>po_mem = (if rk_Status key \<noteq> RootKeyCurrent then cache_delete (rk_GymID key) (rk_Version key) m else m),
     po_jobs = J(i := Lookup key)\<rparr>"
| hit: "J i = Lookup key \<Longrightarrow> cache_get (rk_GymID key) (rk_Version key) now m = (Some a, m') \<Longrightarrow>
    key_step decrypts \<lparr>po_mem = m, po_jobs = J\<rparr> \<lparr>po_mem = m', po_jobs = J(i := Holding key a)\<rparr>"
| miss: "J i = Lookup key \<Longrightarrow> cache_get (rk_GymID key) (rk_Version key) now m = (None, m') \<Longrightarrow>
    key_step decrypts \<lparr>po_mem = m, po_jobs = J\<rparr> \<lparr>po_mem = m', po_jobs = J(i := Missed key)\<rparr>"
| unavailable: "J i = Missed key \<Longrightarrow> key_step decrypts \<lparr>po_mem = m, po_jobs = J\<rparr> \<lparr>po_mem = m, po_jobs = J(i := NoKey)\<rparr>"
| decrypt: "J i = Missed key \<Longrightarrow> decrypts key bytes \<Longrightarrow> alloc bytes m = (a, m') \<Longrightarrow>
    key_step decrypts \<lparr>po_mem = m, po_jobs = J\<rparr> \<lparr>po_mem = m', po_jobs = J(i := Decrypted key a)\<rparr>"
| refuse: "J i = Decrypted key a \<Longrightarrow> length (deref m a) \<noteq> 32 \<Longrightarrow>
    key_step decrypts \<lparr>po_mem = m, po_jobs = J\<rparr> \<lparr>po_mem = clear_slice a m, po_jobs = J(i := NoKey)\<rparr>"
| put: "J i = Decrypted key a \<Longrightarrow> length (deref m a) = 32 \<Longrightarrow>
    key_step decrypts \<lparr>po_mem = m, po_jobs = J\<rparr>
      \<lparr>po_mem = cache_put pick (rk_GymID key) (rk_Version key) a (entry_expires key now) m, po_jobs = J(i := Cached key a)\<rparr>"
| copy: "J i = Cached key a \<Longrightarrow> alloc (deref m a) m = (b, m') \<Longrightarrow>
    key_step decrypts \<lparr>po_mem = m, po_jobs = J\<rparr> \<lparr>po_mem = clear_slice a m', po_jobs = J(i := Holding key b)\<rparr>"
| release: "J i = Holding key a \<Longrightarrow>
    key_step decrypts \<lparr>po_mem = m, po_jobs = J\<rparr> \<lparr>po_mem = clear_slice a m, po_jobs = J(i := NoKey)\<rparr>"
| make: "J i = NoKey \<Longrightarrow> alloc (replicate 32 0) m = (a, m') \<Longrightarrow>
    key_step decrypts \<lparr>po_mem = m, po_jobs = J\<rparr> \<lparr>po_mem = m', po_jobs = J(i := Fresh a)\<rparr>"
| no_random: "J i = Fresh a \<Longrightarrow> key_step decrypts \<lparr>po_mem = m, po_jobs = J\<rparr> \<lparr>po_mem = m, po_jobs = J(i := NoKey)\<rparr>"
| random: "J i = Fresh a \<Longrightarrow> length bytes = 32 \<Longrightarrow>
    key_step decrypts \<lparr>po_mem = m, po_jobs = J\<rparr> \<lparr>po_mem = write_slice a bytes m, po_jobs = J(i := Filled a bytes)\<rparr>"
| encrypted: "J i = Filled a bytes \<Longrightarrow>
    key_step decrypts \<lparr>po_mem = m, po_jobs = J\<rparr> \<lparr>po_mem = clear_slice a m, po_jobs = J(i := NoKey)\<rparr>"
| rotated: "J i = NoKey \<Longrightarrow>
    key_step decrypts \<lparr>po_mem = m, po_jobs = J\<rparr> \<lparr>po_mem = cache_delete gymID version m, po_jobs = J\<rparr>"

definition idle_pool :: pool where
  "idle_pool = \<lparr>po_mem = \<lparr>me_heap = [], me_keys = newKeyCache 128\<rparr>, po_jobs = \<lambda>_. NoKey\<rparr>"

section \<open>Isolation\<close>

definition own :: "memory \<Rightarrow> nat \<Rightarrow> bool" where
  "own m a \<longleftrightarrow> a < length (me_heap m) \<and> a \<notin> owned m"

fun buffer :: "job \<Rightarrow> nat option" where
  "buffer (Decrypted key a) = Some a"
| "buffer (Cached key a) = Some a"
| "buffer (Holding key a) = Some a"
| "buffer (Fresh a) = Some a"
| "buffer (Filled a bytes) = Some a"
| "buffer _ = None"

definition right_bytes :: "(RootKey \<Rightarrow> bytes \<Rightarrow> bool) \<Rightarrow> string \<Rightarrow> u64 \<Rightarrow> bytes \<Rightarrow> bool" where
  "right_bytes decrypts g v bs \<longleftrightarrow> (\<exists>key. rk_GymID key = g \<and> rk_Version key = v \<and> decrypts key bs)"

text \<open>What a goroutine finds in its buffer.\<close>

fun expects :: "(RootKey \<Rightarrow> bytes \<Rightarrow> bool) \<Rightarrow> job \<Rightarrow> bytes \<Rightarrow> bool" where
  "expects decrypts (Decrypted key a) bs \<longleftrightarrow> right_bytes decrypts (rk_GymID key) (rk_Version key) bs"
| "expects decrypts (Cached key a) bs \<longleftrightarrow> right_bytes decrypts (rk_GymID key) (rk_Version key) bs"
| "expects decrypts (Holding key a) bs \<longleftrightarrow> right_bytes decrypts (rk_GymID key) (rk_Version key) bs"
| "expects decrypts (Filled a bytes) bs \<longleftrightarrow> bs = bytes"
| "expects decrypts _ bs \<longleftrightarrow> True"

definition pool_inv :: "(RootKey \<Rightarrow> bytes \<Rightarrow> bool) \<Rightarrow> pool \<Rightarrow> bool" where
  "pool_inv decrypts P \<longleftrightarrow> cache_ok (po_mem P)
     \<and> (\<forall>g v bs e. view (po_mem P) (cacheID g v) = Some (bs, e) \<longrightarrow> right_bytes decrypts g v bs)
     \<and> (\<forall>i a. buffer (po_jobs P i) = Some a \<longrightarrow> own (po_mem P) a \<and> expects decrypts (po_jobs P i) (deref (po_mem P) a))
     \<and> (\<forall>i j a. buffer (po_jobs P i) = Some a \<longrightarrow> buffer (po_jobs P j) = Some a \<longrightarrow> i = j)"

text \<open>A change of memory that a goroutine with a buffer of its own does not notice.\<close>

definition unnoticed :: "memory \<Rightarrow> memory \<Rightarrow> bool" where
  "unnoticed m m' \<longleftrightarrow> cache_ok m' \<and> (\<forall>k w. view m' k = Some w \<longrightarrow> view m k = Some w)
     \<and> (\<forall>a. own m a \<longrightarrow> own m' a \<and> deref m' a = deref m a)"

lemma unnoticed_alloc: "cache_ok m \<Longrightarrow> unnoticed m (snd (alloc bs m))"
  by (auto simp: unnoticed_def own_def cache_ok_alloc view_alloc deref_alloc)

lemma unnoticed_delete: "cache_ok m \<Longrightarrow> unnoticed m (delete_entry key m)"
  using owned_delete_subset [of key m]
  by (auto simp: unnoticed_def own_def cache_ok_delete view_delete deref_delete split: if_splits)

lemma unnoticed_refl: "cache_ok m \<Longrightarrow> unnoticed m m"
  by (simp add: unnoticed_def)

lemma unnoticed_get: "cache_ok m \<Longrightarrow> cache_get g v now m = (r, m') \<Longrightarrow> unnoticed m m'"
proof -
  assume ok: "cache_ok m" and "cache_get g v now m = (r, m')"
  then have "m' = m \<or> m' = delete_entry (cacheID g v) m \<or> (\<exists>bs. m' = snd (alloc bs m))"
    by (auto simp: cache_get_def Let_def split: option.splits if_splits prod.splits) (metis snd_conv)
  then show "unnoticed m m'"
    using ok unnoticed_refl unnoticed_alloc unnoticed_delete by blast
qed

lemma own_fresh: "cache_ok m \<Longrightarrow> own (snd (alloc bs m)) (length (me_heap m))"
  using owned_less by (fastforce simp: own_def)

lemma own_clear [simp]: "own (clear_slice b m) a \<longleftrightarrow> own m a"
  by (simp add: own_def)

lemma own_put:
  assumes "own m b"
  shows "own (cache_put pick g v a e m) b \<and> deref (cache_put pick g v a e m) b = deref m b"
proof -
  have "owned (cache_put pick g v a e m) \<subseteq> insert (length (me_heap m)) (owned m)"
    using evict_facts [of pick m] by (auto simp: cache_put_def Let_def alloc_def owned_def)
  moreover have "length (me_heap (cache_put pick g v a e m)) = Suc (length (me_heap m))"
    by (simp add: cache_put_def Let_def alloc_def evict_facts)
  ultimately show ?thesis
    using assms deref_evict [of b m pick] by (auto simp: own_def deref_put evict_facts)
qed

lemma pool_change:
  assumes inv: "pool_inv decrypts \<lparr>po_mem = m, po_jobs = J\<rparr>" and ok: "cache_ok m'"
    and right: "\<And>g v bs e. view m' (cacheID g v) = Some (bs, e) \<Longrightarrow> right_bytes decrypts g v bs"
    and others: "\<And>j a. j \<noteq> i \<Longrightarrow> buffer (J j) = Some a \<Longrightarrow> own m' a \<and> deref m' a = deref m a"
    and mine: "\<And>a. buffer b = Some a \<Longrightarrow> own m' a \<and> expects decrypts b (deref m' a)"
    and apart: "\<And>a j. buffer b = Some a \<Longrightarrow> j \<noteq> i \<Longrightarrow> buffer (J j) \<noteq> Some a"
  shows "pool_inv decrypts \<lparr>po_mem = m', po_jobs = J(i := b)\<rparr>"
proof -
  have old: "expects decrypts (J j) (deref m a)" if "buffer (J j) = Some a" for j a
    using inv that by (simp add: pool_inv_def)
  have "own m' a \<and> expects decrypts ((J(i := b)) j) (deref m' a)" if "buffer ((J(i := b)) j) = Some a" for j a
    using that mine [of a] others [of j a] old [of j a] by (cases "j = i") auto
  moreover have "j = k" if "buffer ((J(i := b)) j) = Some a" "buffer ((J(i := b)) k) = Some a" for j k a
  proof -
    have "j = k" if "buffer (J j) = Some a" "buffer (J k) = Some a"
      using inv that unfolding pool_inv_def by (metis pool.select_convs(2))
    then show ?thesis
      using that apart [of a k] apart [of a j] by (cases "j = i"; cases "k = i") auto
  qed
  ultimately show ?thesis
    unfolding pool_inv_def pool.select_convs using ok right by blast
qed

lemma pool_unnoticed:
  assumes inv: "pool_inv decrypts \<lparr>po_mem = m, po_jobs = J\<rparr>" and "unnoticed m m'"
    and mine: "\<And>a. buffer b = Some a \<Longrightarrow> own m' a \<and> expects decrypts b (deref m' a) \<and> \<not> own m a"
  shows "pool_inv decrypts \<lparr>po_mem = m', po_jobs = J(i := b)\<rparr>"
proof (rule pool_change [OF inv])
  show "buffer (J j) \<noteq> Some a" if "buffer b = Some a" for a j
    using mine [OF that] inv by (auto simp: pool_inv_def)
qed (use assms in \<open>auto simp: pool_inv_def unnoticed_def\<close>)

lemma get_hit:
  assumes "cache_ok m" and "cache_get g v now m = (Some a, m')"
  shows "a = length (me_heap m)" and "\<exists>e. view m (cacheID g v) = Some (deref m' a, e)" and "own m' a"
proof -
  obtain bs e where view: "view m (cacheID g v) = Some (bs, e)" and a: "a = length (me_heap m)" "deref m' (length (me_heap m)) = bs"
    using cache_get_view(2) [OF assms] by (auto split: option.splits if_splits)
  then show "a = length (me_heap m)" "\<exists>e. view m (cacheID g v) = Some (deref m' a, e)"
    by auto
  have "m' = snd (alloc bs m)"
    using assms(2) view by (auto simp: cache_get_def Let_def view_def alloc_def split: option.splits if_splits)
  then show "own m' a"
    using own_fresh [OF assms(1)] a by simp
qed

lemma pool_invD:
  assumes "pool_inv decrypts \<lparr>po_mem = m, po_jobs = J\<rparr>"
  shows "cache_ok m" and "view m (cacheID g v) = Some (bs, e) \<Longrightarrow> right_bytes decrypts g v bs"
    and "buffer (J i) = Some a \<Longrightarrow> own m a \<and> expects decrypts (J i) (deref m a)"
    and "buffer (J i) = Some a \<Longrightarrow> buffer (J j) = Some a \<Longrightarrow> i = j"
  using assms unfolding pool_inv_def pool.select_convs by blast+

text \<open>Writing to a buffer of one's own.\<close>

definition only_at :: "nat \<Rightarrow> memory \<Rightarrow> memory \<Rightarrow> bool" where
  "only_at a m m' \<longleftrightarrow> me_keys m' = me_keys m \<and> length (me_heap m') = length (me_heap m) \<and> (\<forall>b. b \<noteq> a \<longrightarrow> deref m' b = deref m b)"

lemma only_at_writes: "only_at a m (clear_slice a m)" "only_at a m (write_slice a bs m)"
  by (simp_all add: only_at_def clear_slice_def write_slice_def deref_def)

lemma only_at_view:
  assumes "only_at a m m'" and "a \<notin> owned m"
  shows "view m' = view m" and "cache_ok m' = cache_ok m" and "owned m' = owned m"
proof -
  have "view m' k = view m k" for k
    using assms owned_of [of m k] by (cases "map_of (kc_values (me_keys m)) k") (auto simp: view_def only_at_def)
  then show "view m' = view m" "cache_ok m' = cache_ok m" "owned m' = owned m"
    using assms(1) by (auto simp: only_at_def cache_ok_def owned_def)
qed

lemma pool_write:
  assumes inv: "pool_inv decrypts \<lparr>po_mem = m, po_jobs = J\<rparr>" and mine: "buffer (J i) = Some a" and at: "only_at a m m'"
    and next_job: "\<And>c. buffer b = Some c \<Longrightarrow> c = a \<and> expects decrypts b (deref m' a)"
  shows "pool_inv decrypts \<lparr>po_mem = m', po_jobs = J(i := b)\<rparr>"
proof (rule pool_change [OF inv])
  note inv' = pool_invD [OF inv]
  have a: "a < length (me_heap m)" "a \<notin> owned m"
    using inv'(3) [OF mine] by (auto simp: own_def)
  note same = only_at_view [OF at a(2)]
  have own: "own m' c \<longleftrightarrow> own m c" for c
    using at same(3) by (simp add: own_def only_at_def)
  show "cache_ok m'" "\<And>g v bs e. view m' (cacheID g v) = Some (bs, e) \<Longrightarrow> right_bytes decrypts g v bs"
    using inv'(1,2) by (simp_all add: same)
  show "own m' c \<and> deref m' c = deref m c" if "j \<noteq> i" "buffer (J j) = Some c" for j c
    using that inv'(3) [OF that(2)] inv'(4) [OF mine, of j] at by (auto simp: own only_at_def)
  show "own m' c \<and> expects decrypts b (deref m' c)" if "buffer b = Some c" for c
    using next_job [OF that] a by (simp add: own) (simp add: own_def)
  show "buffer (J j) \<noteq> Some c" if "buffer b = Some c" "j \<noteq> i" for c j
    using that next_job inv'(4) [OF mine, of j] by auto
qed

lemma pool_clear:
  assumes "pool_inv decrypts \<lparr>po_mem = m, po_jobs = J\<rparr>" and "buffer (J i) = Some a" and "buffer b = None"
  shows "pool_inv decrypts \<lparr>po_mem = clear_slice a m, po_jobs = J(i := b)\<rparr>"
  using assms by (intro pool_write [OF assms(1,2) only_at_writes(1)]) simp

lemma pool_copy:
  assumes inv: "pool_inv decrypts \<lparr>po_mem = m, po_jobs = J\<rparr>" and job: "J i = Cached key a"
    and copy: "alloc (deref m a) m = (b, m')"
  shows "pool_inv decrypts \<lparr>po_mem = clear_slice a m', po_jobs = J(i := Holding key b)\<rparr>"
proof (rule pool_change [OF inv])
  note inv' = pool_invD [OF inv]
  have mine: "buffer (J i) = Some a"
    using job by simp
  have m': "m' = snd (alloc (deref m a) m)" "b = length (me_heap m)"
    using copy by (simp_all add: alloc_def)
  have un: "unnoticed m m'"
    using unnoticed_alloc [OF inv'(1)] m'(1) by simp
  have a: "own m a" "right_bytes decrypts (rk_GymID key) (rk_Version key) (deref m a)"
    using inv'(3) [OF mine] job by auto
  then have "own m' a"
    using un by (simp add: unnoticed_def)
  then have v: "view (clear_slice a m') = view m'"
    by (intro view_clear) (simp add: own_def)
  show "cache_ok (clear_slice a m')"
    using un by (simp add: unnoticed_def cache_ok_clear)
  show "right_bytes decrypts g v bs" if "view (clear_slice a m') (cacheID g v) = Some (bs, e)" for g v bs e
    using that inv'(2) un by (simp add: v unnoticed_def)
  show "own (clear_slice a m') c \<and> deref (clear_slice a m') c = deref m c" if "j \<noteq> i" "buffer (J j) = Some c" for j c
    using that inv'(3) [OF that(2)] inv'(4) [OF mine, of j] un by (auto simp: deref_clear unnoticed_def)
  have ab: "a \<noteq> b"
    using a(1) m'(2) by (simp add: own_def)
  show "own (clear_slice a m') c \<and> expects decrypts (Holding key b) (deref (clear_slice a m') c)"
    if "buffer (Holding key b) = Some c" for c
    using that a(2) ab own_fresh [OF inv'(1)] m' by (auto simp: deref_clear deref_alloc)
  show "buffer (J j) \<noteq> Some c" if "buffer (Holding key b) = Some c" for c j
    using that inv'(3) [of j c] m'(2) by (auto simp: own_def)
qed

lemma pool_put:
  assumes inv: "pool_inv decrypts \<lparr>po_mem = m, po_jobs = J\<rparr>" and job: "J i = Decrypted key a"
  shows "pool_inv decrypts \<lparr>po_mem = cache_put pick (rk_GymID key) (rk_Version key) a e m, po_jobs = J(i := Cached key a)\<rparr>"
proof (rule pool_change [OF inv])
  note inv' = pool_invD [OF inv]
  have mine: "buffer (J i) = Some a"
    using job by simp
  have a: "own m a" "right_bytes decrypts (rk_GymID key) (rk_Version key) (deref m a)"
    using inv'(3) [OF mine] job by auto
  then have bytes: "deref (evict pick m) a = deref m a"
    by (intro deref_evict) (simp add: own_def)
  show "cache_ok (cache_put pick (rk_GymID key) (rk_Version key) a e m)"
    by (rule cache_ok_put [OF inv'(1)])
  show "right_bytes decrypts g v bs" if "view (cache_put pick (rk_GymID key) (rk_Version key) a e m) (cacheID g v) = Some (bs, x)" for g v bs x
    using that a(2) view_evict [OF inv'(1)] inv'(2) by (auto simp: view_put [OF inv'(1)] bytes split: if_splits)
  show "own (cache_put pick (rk_GymID key) (rk_Version key) a e m) c
      \<and> deref (cache_put pick (rk_GymID key) (rk_Version key) a e m) c = deref m c" if "buffer (J j) = Some c" for j c
    using inv'(3) [OF that] own_put by blast
  show "own (cache_put pick (rk_GymID key) (rk_Version key) a e m) c
      \<and> expects decrypts (Cached key a) (deref (cache_put pick (rk_GymID key) (rk_Version key) a e m) c)"
    if "buffer (Cached key a) = Some c" for c
    using that a own_put [OF a(1)] by auto
  show "buffer (J j) \<noteq> Some c" if "buffer (Cached key a) = Some c" "j \<noteq> i" for c j
    using that inv'(4) [OF mine, of j] by auto
qed

lemma key_step_inv: "key_step decrypts P Q \<Longrightarrow> pool_inv decrypts P \<Longrightarrow> pool_inv decrypts Q"
proof (induction rule: key_step.induct)
  case (start J i m key)
  then show ?case
    by (intro pool_unnoticed [OF _ unnoticed_refl]) (auto dest: pool_invD(1))
next
  case (drop J i key m)
  then show ?case
    using pool_invD(1) [OF drop(2)]
    by (intro pool_unnoticed [OF drop(2)]) (auto simp: cache_delete_def intro: unnoticed_refl unnoticed_delete)
next
  case (hit J i key now m a m')
  note ok = pool_invD(1) [OF hit(3)] and h = get_hit [OF pool_invD(1) [OF hit(3)] hit(2)]
  show ?case
    by (rule pool_unnoticed [OF hit(3) unnoticed_get [OF ok hit(2)]])
      (use h pool_invD(2) [OF hit(3)] in \<open>auto simp: own_def\<close>)
next
  case (miss J i key now m m')
  show ?case
    by (rule pool_unnoticed [OF miss(3) unnoticed_get [OF pool_invD(1) [OF miss(3)] miss(2)]]) simp
next
  case (unavailable J i key m)
  then show ?case
    by (intro pool_unnoticed [OF _ unnoticed_refl]) (auto dest: pool_invD(1))
next
  case (decrypt J i key bytes m a m')
  note ok = pool_invD(1) [OF decrypt(4)]
  have m': "m' = snd (alloc bytes m)" "a = length (me_heap m)"
    using decrypt(3) by (simp_all add: alloc_def)
  show ?case
    by (rule pool_unnoticed [OF decrypt(4)])
      (use decrypt(2) unnoticed_alloc [OF ok] own_fresh [OF ok] in \<open>auto simp: m' deref_alloc right_bytes_def, simp add: own_def\<close>)
next
  case (refuse J i key a m)
  then show ?case
    by (intro pool_clear) auto
next
  case (put J i key a m pick now)
  then show ?case
    by (intro pool_put)
next
  case (copy J i key a m b m')
  then show ?case
    by (intro pool_copy [where b = b]) auto
next
  case (release J i key a m)
  then show ?case
    by (intro pool_clear) auto
next
  case (make J i m a m')
  note ok = pool_invD(1) [OF make(3)]
  have m': "m' = snd (alloc (replicate 32 0) m)" "a = length (me_heap m)"
    using make(2) by (simp_all add: alloc_def)
  show ?case
    by (rule pool_unnoticed [OF make(3)])
      (use unnoticed_alloc [OF ok] own_fresh [OF ok] in \<open>auto simp: m', simp add: own_def\<close>)
next
  case (no_random J i a m)
  then show ?case
    by (intro pool_unnoticed [OF _ unnoticed_refl]) (auto dest: pool_invD(1))
next
  case (random J i a bytes m)
  have "a < length (me_heap m)"
    using pool_invD(3) [OF random(3), of i a] random(1) by (simp add: own_def)
  then show ?case
    using random(1) by (intro pool_write [OF random(3) _ only_at_writes(2)]) (auto simp: deref_def write_slice_def)
next
  case (encrypted J i a bytes m)
  then show ?case
    by (intro pool_clear) auto
next
  case (rotated J i m gymID version)
  have "pool_inv decrypts \<lparr>po_mem = cache_delete gymID version m, po_jobs = J(i := NoKey)\<rparr>"
    unfolding cache_delete_def by (rule pool_unnoticed [OF rotated(2) unnoticed_delete [OF pool_invD(1) [OF rotated(2)]]]) simp
  then show ?case
    using rotated(1) by (simp add: fun_upd_idem)
qed

interpretation goroutines: state_machine "\<lambda>P. P = idle_pool" "key_step decrypts" "pool_inv decrypts"
proof unfold_locales
  show "pool_inv decrypts P" if "P = idle_pool" for P
    using that by (simp add: pool_inv_def idle_pool_def cache_ok_def newKeyCache_def view_def)
qed (rule key_step_inv)

lemma delete_capacity: "kc_capacity (me_keys (delete_entry key m)) = kc_capacity (me_keys m)"
  by (simp add: delete_entry_def split: option.splits)

lemma key_step_capacity: "key_step decrypts P Q \<Longrightarrow> kc_capacity (me_keys (po_mem Q)) = kc_capacity (me_keys (po_mem P))"
  by (induction rule: key_step.induct)
    (auto simp: cache_delete_def cache_get_def cache_put_def Let_def alloc_def delete_capacity write_slice_def
      split: option.splits if_splits)

text \<open>C11: Goroutines do not disturb each other's keys: in every state that interleaved calls of \<open>key\<close> and \<open>newKey\<close> and deletions
  lead to, if KMS always decrypts the keys of a gym and version to the same bytes, every goroutine that holds a key
  holds exactly these bytes, and every goroutine that makes a new key has exactly the random bytes it drew for KMS to
  encrypt, in an array that neither the cache nor any other goroutine refers to; every cached entry holds the bytes of
  the gym and version it is filed under, and the cache has at most 128 entries.\<close>

theorem goroutines_isolated:
  assumes run: "(key_step decrypts)\<^sup>*\<^sup>* idle_pool P"
    and law: "\<And>k k' b b'. decrypts k b \<Longrightarrow> decrypts k' b' \<Longrightarrow> rk_GymID k = rk_GymID k' \<Longrightarrow> rk_Version k = rk_Version k' \<Longrightarrow> b = b'"
    and key: "decrypts key bytes"
  shows "(\<forall>i a. po_jobs P i = Holding key a \<longrightarrow> deref (po_mem P) a = bytes)
    \<and> (\<forall>i a drawn. po_jobs P i = Filled a drawn \<longrightarrow> deref (po_mem P) a = drawn)
    \<and> (\<forall>i a. buffer (po_jobs P i) = Some a \<longrightarrow> a \<notin> owned (po_mem P) \<and> (\<forall>j. j \<noteq> i \<longrightarrow> buffer (po_jobs P j) \<noteq> Some a))
    \<and> (\<forall>bs e. view (po_mem P) (cacheID (rk_GymID key) (rk_Version key)) = Some (bs, e) \<longrightarrow> bs = bytes)
    \<and> length (kc_values (me_keys (po_mem P))) \<le> 128"
proof -
  have capacity: "kc_capacity (me_keys (po_mem P)) = 128"
    using run by (induction rule: rtranclp_induct) (simp_all add: idle_pool_def newKeyCache_def key_step_capacity)
  have inv: "pool_inv decrypts \<lparr>po_mem = po_mem P, po_jobs = po_jobs P\<rparr>"
    using goroutines.reachable_inv [OF refl run] by (cases P) simp
  note inv' = pool_invD [OF this]
  have same: "bs = bytes" if "right_bytes decrypts (rk_GymID key) (rk_Version key) bs" for bs
    using that law [OF _ key] by (auto simp: right_bytes_def)
  have "deref (po_mem P) a = bytes" if "po_jobs P i = Holding key a" for i a
    using inv'(3) [of i a] same that by auto
  moreover have "deref (po_mem P) a = drawn" if "po_jobs P i = Filled a drawn" for i a drawn
    using inv'(3) [of i a] that by auto
  moreover have "a \<notin> owned (po_mem P) \<and> (\<forall>j. j \<noteq> i \<longrightarrow> buffer (po_jobs P j) \<noteq> Some a)" if "buffer (po_jobs P i) = Some a" for i a
    using inv'(3) [OF that] inv'(4) [OF that] by (auto simp: own_def)
  moreover have "length (kc_values (me_keys (po_mem P))) \<le> 128"
    using inv'(1) capacity by (simp add: cache_ok_def)
  ultimately show ?thesis
    using inv'(2) same by blast
qed

section \<open>A race that leaves a plaintext behind\<close>

text \<open>A memory of the pool, written out.\<close>

abbreviation mem_of :: "bytes list \<Rightarrow> (string \<times> cachedKey) list \<Rightarrow> memory" where
  "mem_of heap entries \<equiv> \<lparr>me_heap = heap, me_keys = \<lparr>kc_capacity = 128, kc_values = entries\<rparr>\<rparr>"

lemma put_room:
  assumes "length entries < 128" and "a < length heap"
  shows "cache_put pick g v a e (mem_of heap entries) = mem_of (heap @ [heap ! a])
     ((cacheID g v, \<lparr>ck_value = length heap, ck_expires = e\<rparr>) # filter (\<lambda>x. fst x \<noteq> cacheID g v) entries)"
  using assms by (simp add: cache_put_def evict_def Let_def alloc_def deref_def)

text \<open>A goroutine that misses, up to the decryption; and from the copy to the end.\<close>

lemma fetch_run:
  assumes key: "decrypts key bytes" "rk_Status key = RootKeyCurrent" and idle: "J i = NoKey"
    and absent: "map_of (kc_values (me_keys m)) (cacheID (rk_GymID key) (rk_Version key)) = None"
  shows "(key_step decrypts)\<^sup>*\<^sup>* \<lparr>po_mem = m, po_jobs = J\<rparr>
    \<lparr>po_mem = snd (alloc bytes m), po_jobs = J(i := Decrypted key (length (me_heap m)))\<rparr>"
proof -
  have "key_step decrypts \<lparr>po_mem = m, po_jobs = J\<rparr> \<lparr>po_mem = m, po_jobs = J(i := Started key)\<rparr>"
    using idle by (rule key_step.start)
  moreover have "key_step decrypts \<lparr>po_mem = m, po_jobs = J(i := Started key)\<rparr> \<lparr>po_mem = m, po_jobs = J(i := Lookup key)\<rparr>"
    using key_step.drop [of "J(i := Started key)" i key decrypts m] key(2) by simp
  moreover have "key_step decrypts \<lparr>po_mem = m, po_jobs = J(i := Lookup key)\<rparr> \<lparr>po_mem = m, po_jobs = J(i := Missed key)\<rparr>"
    using key_step.miss [of "J(i := Lookup key)" i key 0 m m decrypts] absent by (simp add: cache_get_def)
  moreover have "key_step decrypts \<lparr>po_mem = m, po_jobs = J(i := Missed key)\<rparr>
      \<lparr>po_mem = snd (alloc bytes m), po_jobs = J(i := Decrypted key (length (me_heap m)))\<rparr>"
    using key_step.decrypt [of "J(i := Missed key)" i key decrypts bytes m] key(1) by (simp add: alloc_def)
  ultimately show ?thesis
    by (blast intro: converse_rtranclp_into_rtranclp)
qed

lemma finish_run:
  assumes "J i = Cached key a"
  shows "(key_step decrypts)\<^sup>*\<^sup>* \<lparr>po_mem = m, po_jobs = J\<rparr>
    \<lparr>po_mem = clear_slice (length (me_heap m)) (clear_slice a (snd (alloc (deref m a) m))), po_jobs = J(i := NoKey)\<rparr>"
proof -
  let ?m = "clear_slice a (snd (alloc (deref m a) m))" and ?h = "Holding key (length (me_heap m))"
  have "key_step decrypts \<lparr>po_mem = m, po_jobs = J\<rparr> \<lparr>po_mem = ?m, po_jobs = J(i := ?h)\<rparr>"
    using assms by (rule key_step.copy) (simp add: alloc_def)
  moreover have "key_step decrypts \<lparr>po_mem = ?m, po_jobs = J(i := ?h)\<rparr>
      \<lparr>po_mem = clear_slice (length (me_heap m)) ?m, po_jobs = J(i := NoKey)\<rparr>"
    using key_step.release [of "J(i := ?h)" i key "length (me_heap m)" decrypts ?m] by simp
  ultimately show ?thesis
    by (blast intro: converse_rtranclp_into_rtranclp)
qed

text \<open>C40: The cache leaks plaintext when two goroutines race: if KMS decrypts a current key to 32 bytes that are not all zero,
  then calls of \<open>key\<close> for it by two goroutines can interleave so that, when both have returned and zeroed what they were
  given, an array that neither the cache nor a goroutine refers to still holds the plaintext.\<close>

theorem race_leaks:
  assumes "decrypts key bytes" and "length bytes = 32" and "\<not> blank bytes" and "rk_Status key = RootKeyCurrent"
  shows "\<exists>P a. (key_step decrypts)\<^sup>*\<^sup>* idle_pool P \<and> (\<forall>i. po_jobs P i = NoKey) \<and> a \<notin> owned (po_mem P)
    \<and> deref (po_mem P) a = bytes"
proof -
  let ?step = "key_step decrypts" and ?id = "cacheID (rk_GymID key) (rk_Version key)" and ?z = "replicate 32 (0 :: byte)"
  let ?e = "\<lambda>n. (?id, \<lparr>ck_value = n, ck_expires = entry_expires key 0\<rparr>)"
  let ?none = "(\<lambda>_. NoKey) :: nat \<Rightarrow> job"
  define J1 where "J1 = ?none(0 := Decrypted key 0)"
  define J2 where "J2 = J1(1 := Decrypted key 1)"
  define J3 where "J3 = J2(0 := Cached key 0)"
  define J4 where "J4 = J3(1 := Cached key 1)"
  define J5 where "J5 = J4(0 := NoKey)"
  note J = J1_def J2_def J3_def J4_def J5_def
  have "?step\<^sup>*\<^sup>* idle_pool \<lparr>po_mem = mem_of [bytes] [], po_jobs = J1\<rparr>"
    using fetch_run [where decrypts = decrypts, OF assms(1,4), of ?none 0 "mem_of [] []"]
    by (simp add: idle_pool_def newKeyCache_def alloc_def J)
  also have "?step\<^sup>*\<^sup>* \<lparr>po_mem = mem_of [bytes] [], po_jobs = J1\<rparr> \<lparr>po_mem = mem_of [bytes, bytes] [], po_jobs = J2\<rparr>"
    using fetch_run [where decrypts = decrypts, OF assms(1,4), of J1 1 "mem_of [bytes] []"] by (simp add: alloc_def J)
  also have "?step \<lparr>po_mem = mem_of [bytes, bytes] [], po_jobs = J2\<rparr> \<lparr>po_mem = mem_of [bytes, bytes, bytes] [?e 2], po_jobs = J3\<rparr>"
    using key_step.put [of J2 0 key 0 "mem_of [bytes, bytes] []" decrypts 0 0] assms(2) by (simp add: put_room deref_def J eval_nat_numeral)
  also have "?step \<lparr>po_mem = mem_of [bytes, bytes, bytes] [?e 2], po_jobs = J3\<rparr>
      \<lparr>po_mem = mem_of [bytes, bytes, bytes, bytes] [?e 3], po_jobs = J4\<rparr>"
    using key_step.put [of J3 1 key 1 "mem_of [bytes, bytes, bytes] [?e 2]" decrypts 0 0] assms(2) by (simp add: put_room deref_def J eval_nat_numeral)
  also have "?step\<^sup>*\<^sup>* \<lparr>po_mem = mem_of [bytes, bytes, bytes, bytes] [?e 3], po_jobs = J4\<rparr>
      \<lparr>po_mem = mem_of [?z, bytes, bytes, bytes, ?z] [?e 3], po_jobs = J5\<rparr>"
    using finish_run [of J4 0 key 0 decrypts "mem_of [bytes, bytes, bytes, bytes] [?e 3]"] assms(2)
    by (simp add: J alloc_def clear_slice_def deref_def)
  also have "?step\<^sup>*\<^sup>* \<lparr>po_mem = mem_of [?z, bytes, bytes, bytes, ?z] [?e 3], po_jobs = J5\<rparr>
      \<lparr>po_mem = mem_of [?z, ?z, bytes, bytes, ?z, ?z] [?e 3], po_jobs = J5(1 := NoKey)\<rparr>"
    using finish_run [of J5 1 key 1 decrypts "mem_of [?z, bytes, bytes, bytes, ?z] [?e 3]"] assms(2)
    by (simp add: J alloc_def clear_slice_def deref_def)
  finally show ?thesis
    by (intro exI [of _ "\<lparr>po_mem = mem_of [?z, ?z, bytes, bytes, ?z, ?z] [?e 3], po_jobs = J5(1 := NoKey)\<rparr>"] exI [of _ 2])
      (simp add: owned_def deref_def J)
qed

section \<open>A call is a run of one goroutine\<close>

text \<open>The sequential \<open>key_of\<close> and \<open>newKey\<close> take the steps of one goroutine, without those of another in between: so the steps are those
  of the code, and the interleavings include every run that the other theories speak of.\<close>

definition kms_opens :: "svc_env \<Rightarrow> RootKey \<Rightarrow> bytes \<Rightarrow> bool" where
  "kms_opens E key bytes \<longleftrightarrow>
     (\<exists>n. Decrypt (se_kms E) n (se_protector E) (rk_KeyReference key) (rk_Ciphertext key) = Inr bytes)"

abbreviation returned :: "RootKey \<Rightarrow> err + nat \<Rightarrow> job" where
  "returned key r \<equiv> (case r of Inl _ \<Rightarrow> NoKey | Inr a \<Rightarrow> Holding key a)"

lemma decrypt_key_steps:
  assumes run: "decrypt_key E key s = (r, t)"
  shows "(key_step (kms_opens E))\<^sup>*\<^sup>* \<lparr>po_mem = sv_mem s, po_jobs = J(i := Missed key)\<rparr>
    \<lparr>po_mem = sv_mem t, po_jobs = J(i := returned key r)\<rparr>"
proof (cases "Decrypt (se_kms E) (sv_tick s) (se_protector E) (rk_KeyReference key) (rk_Ciphertext key)")
  case (Inl e)
  then have "sv_mem t = sv_mem s" "returned key r = NoKey"
    using run by (auto simp: decrypt_key_def svc_op_defs)
  then show ?thesis
    using key_step.unavailable [of "J(i := Missed key)" i key] by (simp add: r_into_rtranclp)
next
  case (Inr bytes)
  obtain p m where pm: "alloc bytes (sv_mem s) = (p, m)"
    by fastforce
  then have bytes: "deref m p = bytes"
    by (auto simp: alloc_def deref_def)
  have "key_step (kms_opens E) \<lparr>po_mem = sv_mem s, po_jobs = J(i := Missed key)\<rparr> \<lparr>po_mem = m, po_jobs = J(i := Decrypted key p)\<rparr>"
    using key_step.decrypt [of "J(i := Missed key)" i key "kms_opens E", OF _ _ pm] Inr by (auto simp: kms_opens_def)
  also have "(key_step (kms_opens E))\<^sup>*\<^sup>* \<lparr>po_mem = m, po_jobs = J(i := Decrypted key p)\<rparr>
      \<lparr>po_mem = sv_mem t, po_jobs = J(i := returned key r)\<rparr>"
  proof (cases "length bytes = 32")
    case False
    then have "sv_mem t = clear_slice p m" "returned key r = NoKey"
      using run Inr pm by (auto simp: decrypt_key_def svc_op_defs)
    then show ?thesis
      using key_step.refuse [of "J(i := Decrypted key p)" i key p m] False bytes by (simp add: r_into_rtranclp)
  next
    case True
    obtain pick now b m' where put: "alloc (deref (cache_put pick (rk_GymID key) (rk_Version key) p (entry_expires key now) m) p)
         (cache_put pick (rk_GymID key) (rk_Version key) p (entry_expires key now) m) = (b, m')"
      and t: "sv_mem t = clear_slice p m'" "r = Inr b"
      using run Inr pm True by (auto simp: decrypt_key_def svc_op_defs entry_expires_def split: if_splits prod.splits)
    let ?m = "cache_put pick (rk_GymID key) (rk_Version key) p (entry_expires key now) m"
    have "(key_step (kms_opens E))\<^sup>*\<^sup>* \<lparr>po_mem = m, po_jobs = J(i := Decrypted key p)\<rparr> \<lparr>po_mem = ?m, po_jobs = J(i := Cached key p)\<rparr>"
      using key_step.put [of "J(i := Decrypted key p)" i key p m "kms_opens E" pick now] True bytes by (simp add: r_into_rtranclp)
    also have "key_step (kms_opens E) \<lparr>po_mem = ?m, po_jobs = J(i := Cached key p)\<rparr> \<lparr>po_mem = clear_slice p m', po_jobs = J(i := Holding key b)\<rparr>"
      using key_step.copy [of "J(i := Cached key p)" i key p ?m b m' "kms_opens E"] put by simp
    finally show ?thesis
      by (simp add: t)
  qed
  finally show ?thesis .
qed

lemma key_of_steps:
  assumes idle: "J i = NoKey" and run: "key_of E key s = (r, t)"
  shows "(key_step (kms_opens E))\<^sup>*\<^sup>* \<lparr>po_mem = sv_mem s, po_jobs = J\<rparr> \<lparr>po_mem = sv_mem t, po_jobs = J(i := returned key r)\<rparr>"
proof -
  let ?step = "key_step (kms_opens E)"
  let ?m = "if rk_Status key \<noteq> RootKeyCurrent then cache_delete (rk_GymID key) (rk_Version key) (sv_mem s) else sv_mem s"
  define now where "now = se_clock E (sv_tick s)"
  obtain cached m' where get: "cache_get (rk_GymID key) (rk_Version key) now ?m = (cached, m')"
    by fastforce
  have hit: "r = Inr a \<and> sv_mem t = m'" if "cached = Some a" for a
    using run get that by (auto simp: key_of_def svc_op_defs now_def split: if_splits)
  have miss: "\<exists>u. sv_mem u = m' \<and> decrypt_key E key u = (r, t)" if "cached = None"
    using run get that by (intro exI [of _ "s\<lparr>sv_tick := Suc (sv_tick s), sv_mem := m'\<rparr>"])
      (auto simp: key_of_def svc_op_defs now_def split: if_splits)
  have "?step\<^sup>*\<^sup>* \<lparr>po_mem = sv_mem s, po_jobs = J\<rparr> \<lparr>po_mem = sv_mem s, po_jobs = J(i := Started key)\<rparr>"
    using idle by (intro r_into_rtranclp key_step.start)
  also have "?step \<lparr>po_mem = sv_mem s, po_jobs = J(i := Started key)\<rparr> \<lparr>po_mem = ?m, po_jobs = J(i := Lookup key)\<rparr>"
    using key_step.drop [of "J(i := Started key)" i key "kms_opens E" "sv_mem s"] by simp
  also have "?step\<^sup>*\<^sup>* \<lparr>po_mem = ?m, po_jobs = J(i := Lookup key)\<rparr> \<lparr>po_mem = sv_mem t, po_jobs = J(i := returned key r)\<rparr>"
  proof (cases cached)
    case None
    then obtain u where u: "sv_mem u = m'" "decrypt_key E key u = (r, t)"
      using miss by blast
    have "?step \<lparr>po_mem = ?m, po_jobs = J(i := Lookup key)\<rparr> \<lparr>po_mem = m', po_jobs = J(i := Missed key)\<rparr>"
      using key_step.miss [of "J(i := Lookup key)" i key now ?m m' "kms_opens E"] get None by simp
    then show ?thesis
      using decrypt_key_steps [OF u(2), of J i] u(1) by (simp add: converse_rtranclp_into_rtranclp)
  next
    case (Some a)
    then show ?thesis
      using key_step.hit [of "J(i := Lookup key)" i key now ?m a m' "kms_opens E"] get hit [OF Some] by (simp add: r_into_rtranclp)
  qed
  finally show ?thesis .
qed

lemma newKey_steps:
  assumes idle: "J i = NoKey" and run: "newKey E g v s = (r, t)"
  shows "(key_step decrypts)\<^sup>*\<^sup>* \<lparr>po_mem = sv_mem s, po_jobs = J\<rparr> \<lparr>po_mem = sv_mem t, po_jobs = J\<rparr>"
proof -
  let ?step = "key_step decrypts"
  obtain a m where am: "alloc (replicate 32 0) (sv_mem s) = (a, m)"
    by fastforce
  have idle_again: "J(i := NoKey) = J"
    using idle by (simp add: fun_upd_idem)
  have "?step\<^sup>*\<^sup>* \<lparr>po_mem = sv_mem s, po_jobs = J\<rparr> \<lparr>po_mem = m, po_jobs = J(i := Fresh a)\<rparr>"
    using key_step.make [of J i, OF idle am] by (rule r_into_rtranclp)
  also have "?step\<^sup>*\<^sup>* \<lparr>po_mem = m, po_jobs = J(i := Fresh a)\<rparr> \<lparr>po_mem = sv_mem t, po_jobs = J(i := NoKey)\<rparr>"
  proof (cases "se_rand E (sv_tick s)")
    case (Inl e)
    then have "sv_mem t = m"
      using run am by (auto simp: newKey_def svc_op_defs)
    then show ?thesis
      using key_step.no_random [of "J(i := Fresh a)" i a decrypts m] by (simp add: r_into_rtranclp)
  next
    case (Inr drawn)
    let ?w = "write_slice a (map drawn [0..<32]) m"
    have t: "sv_mem t = clear_slice a ?w"
      using run am Inr by (auto simp: newKey_def svc_op_defs split: sum.splits)
    have "?step\<^sup>*\<^sup>* \<lparr>po_mem = m, po_jobs = J(i := Fresh a)\<rparr> \<lparr>po_mem = ?w, po_jobs = J(i := Filled a (map drawn [0..<32]))\<rparr>"
      using key_step.random [of "J(i := Fresh a)" i a "map drawn [0..<32]" decrypts m] by (simp add: r_into_rtranclp)
    also have "?step \<lparr>po_mem = ?w, po_jobs = J(i := Filled a (map drawn [0..<32]))\<rparr> \<lparr>po_mem = clear_slice a ?w, po_jobs = J(i := NoKey)\<rparr>"
      using key_step.encrypted [of "J(i := Filled a (map drawn [0..<32]))" i a "map drawn [0..<32]" decrypts ?w] by simp
    finally show ?thesis
      by (simp add: t)
  qed
  finally show ?thesis
    by (simp add: idle_again)
qed

section \<open>Concrete goroutines\<close>

definition constant_kms :: "RootKey \<Rightarrow> bytes \<Rightarrow> bool" where
  "constant_kms key bytes \<longleftrightarrow> bytes = replicate 32 7"

definition shared_key :: RootKey where
  "shared_key = \<lparr>rk_GymID = ''g1'', rk_Version = 1, rk_Ciphertext = ''c'', rk_KeyReference = ''arn'', rk_Status = RootKeyCurrent,
     rk_ActivatedAt = 0, rk_AcceptanceDeadline = zero_time, rk_RetiredAt = None\<rparr>"

lemma constant_key: "constant_kms shared_key (replicate 32 7)" "rk_Status shared_key = RootKeyCurrent"
  by (simp_all add: constant_kms_def shared_key_def)

theorem goroutines_isolated_witness:
  "\<exists>P a. (key_step constant_kms)\<^sup>*\<^sup>* idle_pool P \<and> po_jobs P 0 = Holding shared_key a
     \<and> deref (po_mem P) a = replicate 32 7 \<and> a \<notin> owned (po_mem P)"
proof -
  let ?b = "replicate 32 (7 :: byte)" and ?z = "replicate 32 (0 :: byte)" and ?J = "\<lambda>x i. if i = (0 :: nat) then x else NoKey"
  let ?e = "(cacheID ''g1'' 1, \<lparr>ck_value = 1, ck_expires = entry_expires shared_key 0\<rparr>)"
  have J: "(?J x)(0 := y) = ?J y" for x y
    by auto
  have "(key_step constant_kms)\<^sup>*\<^sup>* idle_pool \<lparr>po_mem = mem_of [?b] [], po_jobs = ?J (Decrypted shared_key 0)\<rparr>"
    using fetch_run [where decrypts = constant_kms, OF constant_key, of "?J NoKey" 0 "mem_of [] []"]
    by (simp add: idle_pool_def newKeyCache_def alloc_def fun_upd_def)
  also have "key_step constant_kms \<lparr>po_mem = mem_of [?b] [], po_jobs = ?J (Decrypted shared_key 0)\<rparr>
      \<lparr>po_mem = mem_of [?b, ?b] [?e], po_jobs = ?J (Cached shared_key 0)\<rparr>"
    using key_step.put [of "?J (Decrypted shared_key 0)" 0 shared_key 0 "mem_of [?b] []" constant_kms 0 0] J
    by (simp add: put_room deref_def) (simp add: shared_key_def)
  also have "key_step constant_kms \<lparr>po_mem = mem_of [?b, ?b] [?e], po_jobs = ?J (Cached shared_key 0)\<rparr>
      \<lparr>po_mem = mem_of [?z, ?b, ?b] [?e], po_jobs = ?J (Holding shared_key 2)\<rparr>"
    using key_step.copy [of "?J (Cached shared_key 0)" 0 shared_key 0 "mem_of [?b, ?b] [?e]" 2 "mem_of [?b, ?b, ?b] [?e]" constant_kms] J
    by (simp add: alloc_def deref_def clear_slice_def)
  finally have run: "(key_step constant_kms)\<^sup>*\<^sup>* idle_pool \<lparr>po_mem = mem_of [?z, ?b, ?b] [?e], po_jobs = ?J (Holding shared_key 2)\<rparr>" .
  show ?thesis
    by (rule exI, rule exI [of _ 2], rule conjI [OF run])
      (use goroutines_isolated [OF run _ constant_key(1)] in \<open>auto simp: constant_kms_def\<close>)
qed

theorem race_leaks_witness:
  "\<exists>P a. (key_step constant_kms)\<^sup>*\<^sup>* idle_pool P \<and> po_jobs P 0 = NoKey \<and> po_jobs P 1 = NoKey \<and> a \<notin> owned (po_mem P)
     \<and> deref (po_mem P) a = replicate 32 7"
  using race_leaks [where decrypts = constant_kms, OF constant_key(1) _ _ constant_key(2)] by (auto simp: blank_def)

end
