(* ===== verification/Isolation.thy ===== *)
theory Isolation
  imports Store
begin

text \<open>
  \<open>CreateCheckIn\<close> at the isolation level it asks for.  The other theories run a transaction on the tables it began with.
  \<open>CreateCheckIn\<close> asks for the database's default level only, where each statement sees what others have committed so far.
  Here other instances move the shared state before every statement and before the commit, and the pending rows reach
  the tables as they are at the commit.  What keeps this sound are the unique indexes: while a row is pending, another
  transaction that would insert the same key waits.  Under that assumption every run of this finer model is a run of
  \<open>CreateCheckIn\<close> itself, with the others' steps moved before its beginning, so all that is proved of it holds of both.
\<close>

section \<open>Statements that see committed rows\<close>

text \<open>The pending writes of a transaction, as a change of the tables.\<close>

type_synonym pending = "tables \<Rightarrow> tables"

definition after_stmt :: "'a stmt \<Rightarrow> pending" where
  "after_stmt st t = (case st t of Inl _ \<Rightarrow> t | Inr (_, u) \<Rightarrow> u)"

definition rc_BeginTx :: "sql_env \<Rightarrow> (conn, pending) op" where
  "rc_BeginTx E c =
     (let d = arrive E c
      in case sq_outcome E (cn_calls c) of
           Done \<Rightarrow> (Inr id, d)
         | Failed e \<Rightarrow> (Inl e, d)
         | Lost e \<Rightarrow> (Inl e, d))"

definition rc_exec :: "sql_env \<Rightarrow> 'a stmt \<Rightarrow> pending \<Rightarrow> (conn, 'a \<times> pending) op" where
  "rc_exec E st pend c =
     (let d = arrive E c
      in case sq_outcome E (cn_calls c) of
           Done \<Rightarrow>
             (case st (pend (cn_tables d)) of
                Inl e \<Rightarrow> (Inl e, d)
              | Inr (x, _) \<Rightarrow> (Inr (x, after_stmt st \<circ> pend), d))
         | Failed e \<Rightarrow> (Inl e, d)
         | Lost e \<Rightarrow> (Inl e, d))"

definition rc_Commit :: "sql_env \<Rightarrow> pending \<Rightarrow> (conn, unit) op" where
  "rc_Commit E pend c =
     (let d = arrive E c
      in case sq_outcome E (cn_calls c) of
           Done \<Rightarrow> (Inr (), put_tables (pend (cn_tables d)) d)
         | Failed e \<Rightarrow> (Inl e, d)
         | Lost e \<Rightarrow> (Inl e, put_tables (pend (cn_tables d)) d))"

definition rc_findIdempotencyTx :: "sql_env \<Rightarrow> pending \<Rightarrow> string \<Rightarrow> string \<Rightarrow> (conn, IdempotencyResult) op" where
  "rc_findIdempotencyTx E tx userID idempotencyKey =
     bindE (rc_exec E (select_idempotency userID idempotencyKey) tx) (\<lambda>(row, _).
       case row of
         None \<Rightarrow> throwE SqlNoRows
       | Some r \<Rightarrow> returnE (idempotency_of userID r))"

definition rc_CreateCheckIn ::
  "sql_env \<Rightarrow> CheckInRecord \<Rightarrow> string \<Rightarrow> string \<Rightarrow> OutboxEvent \<Rightarrow> (conn, CheckInRecord) op" where
  "rc_CreateCheckIn E record fingerprint idempotencyKey event =
     bindE (rc_BeginTx E) (\<lambda>tx.
     bindE (rc_exec E (insert_check_in (sq_ts E) record fingerprint idempotencyKey) tx) (\<lambda>(result, tx).
     bindE (driver_read E result) (\<lambda>inserted.
       if inserted = 0 then
         bindE (rc_findIdempotencyTx E tx (ci_UserID record) idempotencyKey) (\<lambda>existing.
           if id_Fingerprint existing \<noteq> fingerprint then throwE idempotency_conflict
           else returnE (id_Record existing))
       else
         bindE (rc_exec E (insert_outbox (sq_ts E) event) tx) (\<lambda>(_, tx).
         bindE (rc_Commit E tx) (\<lambda>_.
           returnE record)))))"

section \<open>The unique indexes\<close>

text \<open>The keys of a check-in and of an event are not in the tables.\<close>

definition request_free :: "CheckInRecord \<Rightarrow> string \<Rightarrow> shared \<Rightarrow> bool" where
  "request_free record idem s \<longleftrightarrow> find (same_request (ci_UserID record) idem) (tb_check_ins (sh_tables s)) = None
     \<and> ci_ID record \<notin> set (map cr_checkin_id (tb_check_ins (sh_tables s)))"

definition event_free :: "OutboxEvent \<Rightarrow> shared \<Rightarrow> bool" where
  "event_free event s \<longleftrightarrow> ev_ID event \<notin> set (map or_event_id (tb_outbox (sh_tables s)))"

text \<open>Whoever would insert a pending key waits: from the call that inserted the check-in (the second of the transaction) or the event (the fourth)
  until the end of the transaction, nobody else commits such a row.\<close>

definition unique_locks :: "sql_env \<Rightarrow> nat \<Rightarrow> CheckInRecord \<Rightarrow> string \<Rightarrow> OutboxEvent \<Rightarrow> bool" where
  "unique_locks E n record idem event \<longleftrightarrow>
     (\<forall>k s. n + 1 < k \<longrightarrow> request_free record idem s \<longrightarrow> request_free record idem (sq_interfere E k s))
     \<and> (\<forall>k s. n + 3 < k \<longrightarrow> event_free event s \<longrightarrow> event_free event (sq_interfere E k s))"

text \<open>The environment in which what the others did during the transaction was done before it.\<close>

definition before_all :: "sql_env \<Rightarrow> nat \<Rightarrow> nat list \<Rightarrow> sql_env" where
  "before_all E n ks = E\<lparr>sq_interfere := (sq_interfere E)(n := fold (sq_interfere E) ks)\<rparr>"

lemma before_all_rely: "rely E \<Longrightarrow> rely (before_all E n ks)"
proof -
  assume E: "rely E"
  have "(sys_step (sq_ts E))\<^sup>*\<^sup>* s (fold (sq_interfere E) ks s)" if "sys_inv s" for s
    using that
  proof (induction ks arbitrary: s)
    case (Cons k ks)
    have "(sys_step (sq_ts E))\<^sup>*\<^sup>* s (sq_interfere E k s)"
      using E Cons.prems by (simp add: rely_def)
    moreover from this have "sys_inv (sq_interfere E k s)"
      using Cons.prems by (rule sys.run_inv)
    ultimately show ?case
      using Cons.IH by (simp add: rtranclp_trans)
  qed simp
  then show ?thesis
    using E by (simp add: rely_def before_all_def)
qed

lemma before_all_simps [simp]:
  "sq_outcome (before_all E n ks) = sq_outcome E" "sq_ts (before_all E n ks) = sq_ts E"
  by (simp_all add: before_all_def)

section \<open>Every run is a run of \<open>CreateCheckIn\<close>\<close>

lemmas rc_defs = rc_CreateCheckIn_def rc_BeginTx_def rc_exec_def rc_Commit_def rc_findIdempotencyTx_def
lemmas tx_defs = CreateCheckIn_def BeginTx_def tx_exec_def Commit_def findIdempotencyTx_def driver_read_def bindE_def throwE_def
  returnE_def arrive_def next_call_def put_tables_def Let_def

lemma interfere_inv: "rely E \<Longrightarrow> sys_inv s \<Longrightarrow> sys_inv (sq_interfere E k s)"
  using sys.run_inv unfolding rely_def by blast

lemma request_stays:
  assumes "rely E" and "sys_inv s" and "find (same_request u i) (tb_check_ins (sh_tables s)) = Some r"
  shows "find (same_request u i) (tb_check_ins (sh_tables (sq_interfere E k s))) = Some r"
proof -
  have "(sys_step (sq_ts E))\<^sup>*\<^sup>* s (sq_interfere E k s)"
    using assms(1,2) by (simp add: rely_def)
  moreover have "request_entry s (u, i) = Some r"
    using assms(3) by (simp add: request_entry_def)
  ultimately have "request_entry (sq_interfere E k s) (u, i) = Some r"
    using assms(2) requests.entry_run by blast
  then show ?thesis
    by (simp add: request_entry_def)
qed

lemma insert_free:
  "request_free record idem s \<Longrightarrow> insert_check_in ts record fp idem (sh_tables s) =
     Inr (1, (sh_tables s)\<lparr>tb_check_ins := tb_check_ins (sh_tables s) @ [new_checkin_row ts record fp idem]\<rparr>)"
  by (simp add: insert_check_in_def request_free_def Let_def)

lemma insert_outcomes:
  obtains (free) "request_free rec idem s"
    | (taken) r where "find (same_request (ci_UserID rec) idem) (tb_check_ins (sh_tables s)) = Some r"
        "insert_check_in ts rec fp idem (sh_tables s) = Inr (0, sh_tables s)"
    | (clash) "insert_check_in ts rec fp idem (sh_tables s) = Inl unique_violation"
  by (cases "find (same_request (ci_UserID rec) idem) (tb_check_ins (sh_tables s))"; 
      cases "ci_ID rec \<in> set (map cr_checkin_id (tb_check_ins (sh_tables s)))")
    (simp_all add: insert_check_in_def request_free_def Let_def)

lemma rc_taken:
  assumes "rely E" and answers: "sq_outcome E (cn_calls c) = Done" "sq_outcome E (Suc (cn_calls c)) = Done"
    and inv: "sys_inv s1" and taken: "find (same_request (ci_UserID record) idem) (tb_check_ins (sh_tables s1)) = Some r"
    and s: "s0 = sq_interfere E (cn_calls c) (cn_shared c)" "s1 = sq_interfere E (Suc (cn_calls c)) s0"
      "s3 = sq_interfere E (Suc (Suc (Suc (cn_calls c)))) s1"
  shows "rc_CreateCheckIn E record fp idem event c = CreateCheckIn (before_all E (cn_calls c)
    (if sq_outcome E (Suc (Suc (cn_calls c))) \<noteq> Done then [cn_calls c, Suc (cn_calls c)]
      else [cn_calls c, Suc (cn_calls c), Suc (Suc (Suc (cn_calls c)))])) record fp idem event c"
proof -
  have taken3: "find (same_request (ci_UserID record) idem) (tb_check_ins (sh_tables s3)) = Some r"
    unfolding s(3) using assms(1) inv taken by (rule request_stays)
  have zero: "insert_check_in ts record fp idem (sh_tables s1) = Inr (0, sh_tables s1)"
      "insert_check_in ts record fp idem (sh_tables s3) = Inr (0, sh_tables s3)" for ts
    using taken taken3 by (simp_all add: insert_check_in_def Let_def)
  show ?thesis
    using answers zero taken taken3
    by (auto simp: rc_defs tx_defs before_all_def s [symmetric] after_stmt_def select_idempotency_def split: sql_outcome.splits)
qed

lemma rc_free:
  assumes answers: "sq_outcome E (cn_calls c) = Done" "sq_outcome E (Suc (cn_calls c)) = Done"
    and s: "s0 = sq_interfere E (cn_calls c) (cn_shared c)" "s1 = sq_interfere E (Suc (cn_calls c)) s0"
      "s3 = sq_interfere E (Suc (Suc (Suc (cn_calls c)))) s1" "s4 = sq_interfere E (Suc (Suc (Suc (Suc (cn_calls c))))) s3"
    and free: "request_free record idem s1" "request_free record idem s3" "request_free record idem s4"
    and events: "event_free event s3 \<Longrightarrow> event_free event s4"
  shows "rc_CreateCheckIn E record fp idem event c = CreateCheckIn (before_all E (cn_calls c)
    (if sq_outcome E (Suc (Suc (cn_calls c))) \<noteq> Done then [cn_calls c, Suc (cn_calls c)]
      else if sq_outcome E (Suc (Suc (Suc (cn_calls c)))) \<noteq> Done \<or> \<not> event_free event s3
        then [cn_calls c, Suc (cn_calls c), Suc (Suc (Suc (cn_calls c)))]
      else [cn_calls c, Suc (cn_calls c), Suc (Suc (Suc (cn_calls c))), Suc (Suc (Suc (Suc (cn_calls c))))])) record fp idem event c"
  using answers events free [THEN insert_free, of "sq_ts E" fp]
  by (auto simp: rc_defs tx_defs before_all_def s [symmetric] after_stmt_def insert_outbox_def event_free_def split: sql_outcome.splits)

text \<open>C12: The default isolation level is enough for \<open>CreateCheckIn\<close>: if nobody else commits a check-in or an event with a pending
  key, then a run in which other instances commit between any two of its statements ends exactly as some run of the
  atomic \<open>CreateCheckIn\<close> against the same database answers, the others still following the protocol.\<close>

theorem read_committed_refines:
  assumes "rely E" and "sys_inv (cn_shared c)" and "unique_locks E (cn_calls c) record idem event"
  shows "\<exists>E'. rely E' \<and> sq_ts E' = sq_ts E \<and> sq_outcome E' = sq_outcome E
    \<and> rc_CreateCheckIn E record fp idem event c = CreateCheckIn E' record fp idem event c"
proof -
  let ?n = "cn_calls c" and ?I = "sq_interfere E"
  define s0 where "s0 = ?I ?n (cn_shared c)"
  define s1 where "s1 = ?I (Suc ?n) s0"
  define s3 where "s3 = ?I (Suc (Suc (Suc ?n))) s1"
  define s4 where "s4 = ?I (Suc (Suc (Suc (Suc ?n)))) s3"
  note s = s0_def s1_def s3_def s4_def
  have atomic: ?thesis if "rc_CreateCheckIn E record fp idem event c = CreateCheckIn (before_all E ?n ks) record fp idem event c" for ks
    using that before_all_rely [OF assms(1)] by (intro exI [of _ "before_all E ?n ks"]) simp
  consider "sq_outcome E ?n \<noteq> Done" | "sq_outcome E ?n = Done" "sq_outcome E (Suc ?n) \<noteq> Done"
    | "sq_outcome E ?n = Done" "sq_outcome E (Suc ?n) = Done"
    by blast
  then show ?thesis
  proof cases
    case 1
    then show ?thesis
      by (intro atomic [of "[?n]"]) (auto simp: rc_defs tx_defs before_all_def split: sql_outcome.splits)
  next
    case 2
    then show ?thesis
      by (intro atomic [of "[?n, Suc ?n]"]) (auto simp: rc_defs tx_defs before_all_def split: sql_outcome.splits)
  next
    case 3
    have locks: "request_free record idem s1 \<Longrightarrow> request_free record idem s3" "request_free record idem s3 \<Longrightarrow> request_free record idem s4"
        "event_free event s3 \<Longrightarrow> event_free event s4"
      using assms(3) by (simp_all add: unique_locks_def s)
    have inv: "sys_inv s1"
      unfolding s using assms(1,2) by (intro interfere_inv)
    show ?thesis
    proof (cases rule: insert_outcomes [where rec = "record" and idem = idem and s = s1 and ts = "sq_ts E" and fp = fp])
      case free
      then show ?thesis
        using locks by (intro atomic [OF rc_free [OF 3 s]]) blast+
    next
      case (taken r)
      then show ?thesis
        by (intro atomic [OF rc_taken [OF assms(1) 3 inv _ s(1-3)]])
    next
      case clash
      then show ?thesis
        using 3 by (intro atomic [of "[?n, Suc ?n]"]) (simp add: rc_defs tx_defs before_all_def s)
    qed
  qed
qed

section \<open>Claims\<close>

text \<open>The rows a claim has selected are locked until its transaction ends.  Its update reaches them at the commit, in the tables as
  they are then.\<close>

definition mark_claimed :: "(time \<Rightarrow> time) \<Rightarrow> time \<Rightarrow> string set \<Rightarrow> pending" where
  "mark_claimed ts now ids t = t\<lparr>tb_outbox := update_where (\<lambda>r. or_event_id r \<in> ids)
     (\<lambda>r. r\<lparr>or_status := PUBLISHING, or_claimed_at := Some (ts now)\<rparr>) (tb_outbox t)\<rparr>"

definition rc_claim :: "sql_env \<Rightarrow> int \<Rightarrow> time \<Rightarrow> (conn, outbox_row list \<times> pending) op" where
  "rc_claim E limit now c =
     (let d = arrive E c; n = cn_calls c
      in case sq_outcome E n of
           Done \<Rightarrow>
             (case claim_outbox (sq_ts E) (sq_locked E n) (sq_returning E n) limit now (now - Minute) (cn_tables d) of
                Inl e \<Rightarrow> (Inl e, d)
              | Inr (rows, _) \<Rightarrow> (Inr (rows, mark_claimed (sq_ts E) now (set (map or_event_id rows))), d))
         | Failed e \<Rightarrow> (Inl e, d)
         | Lost e \<Rightarrow> (Inl e, d))"

definition rc_ClaimOutbox :: "sql_env \<Rightarrow> int \<Rightarrow> time \<Rightarrow> (conn, OutboxEvent list) op" where
  "rc_ClaimOutbox E limit now =
     bindE (rc_BeginTx E) (\<lambda>_.
     bindE (rc_claim E limit now) (\<lambda>(rows, tx).
     bindE (driver_read E (map outbox_event_of rows)) (\<lambda>events.
     bindE (rc_Commit E tx) (\<lambda>_.
       returnE events))))"

text \<open>The shared state the claim's statement sees, the events it selects, and that nobody else changes these rows before the commit.\<close>

definition claim_state :: "sql_env \<Rightarrow> conn \<Rightarrow> shared" where
  "claim_state E c = sq_interfere E (Suc (cn_calls c)) (sq_interfere E (cn_calls c) (cn_shared c))"

definition claimed_ids :: "sql_env \<Rightarrow> int \<Rightarrow> time \<Rightarrow> conn \<Rightarrow> string set" where
  "claimed_ids E limit now c = set (map or_event_id (claim_rows (sq_ts E) (sq_locked E (Suc (cn_calls c))) limit now (now - Minute)
     (tb_outbox (sh_tables (claim_state E c)))))"

definition row_locks :: "sql_env \<Rightarrow> int \<Rightarrow> time \<Rightarrow> conn \<Rightarrow> bool" where
  "row_locks E limit now c \<longleftrightarrow> (let s = claim_state E c; mine = (\<lambda>r. or_event_id r \<in> claimed_ids E limit now c)
     in filter mine (tb_outbox (sh_tables (sq_interfere E (cn_calls c + 3) s))) = filter mine (tb_outbox (sh_tables s)))"

lemma filter_ids:
  assumes "distinct (map k rows)" and "set xs \<subseteq> set rows" and "distinct xs"
  shows "mset (filter (\<lambda>r. k r \<in> k ` set xs) rows) = mset xs"
proof -
  have "inj_on k (set rows)" "distinct rows"
    using assms(1) by (simp_all add: distinct_map)
  then have "set (filter (\<lambda>r. k r \<in> k ` set xs) rows) = set xs"
    using assms(2) by (auto simp: inj_on_def)
  then show ?thesis
    using \<open>distinct rows\<close> assms(3) by (metis distinct_filter set_eq_iff_mset_eq_distinct)
qed

lemma distinct_order_by: "distinct (order_by le xs) \<longleftrightarrow> distinct xs"
  by (metis mset_order_by mset_eq_imp_distinct_iff)

lemma claim_rows_facts:
  assumes "distinct (map or_event_id rows)"
  shows "distinct (claim_rows ts locked limit now stale rows)" "set (claim_rows ts locked limit now stale rows) \<subseteq> set rows"
    "\<And>r. r \<in> set (claim_rows ts locked limit now stale rows) \<Longrightarrow> claimable (ts now) (ts stale) r"
    "length (claim_rows ts locked limit now stale rows) \<le> nat limit"
  using assms by (auto simp: claim_rows_def distinct_order_by distinct_map dest!: in_set_takeD)

text \<open>With every other row locked, the same rows are selected again.\<close>

lemma claim_again:
  assumes dist: "distinct (map or_event_id rows)" and ids: "ids = set (map or_event_id (claim_rows ts locked limit now stale rows))"
    and same: "filter (\<lambda>r. or_event_id r \<in> ids) rows' = filter (\<lambda>r. or_event_id r \<in> ids) rows"
  shows "set (map or_event_id (claim_rows ts (\<lambda>i. i \<notin> ids) limit now stale rows')) = ids"
proof -
  let ?xs = "claim_rows ts locked limit now stale rows" and ?sel = "filter (\<lambda>r. or_event_id r \<in> ids) rows"
  note xs = claim_rows_facts [OF dist, where ts = ts and locked = locked and limit = limit and now = now and stale = stale]
  have sel: "mset ?sel = mset ?xs"
    unfolding ids set_map by (rule filter_ids [OF dist xs(2,1)])
  have "claimable (ts now) (ts stale) r" if "r \<in> set ?sel" for r
    using that xs(3) mset_eq_setD [OF sel] by auto
  then have "filter (claimable (ts now) (ts stale)) (filter (\<lambda>r. or_event_id r \<in> ids) rows') = ?sel"
    unfolding same by (intro filter_True) blast
  then have "filter (\<lambda>r. claimable (ts now) (ts stale) r \<and> \<not> or_event_id r \<notin> ids) rows' = ?sel"
    by (simp add: conj_commute)
  moreover have "length ?sel \<le> nat limit"
    using xs(4) mset_eq_length [OF sel] by simp
  ultimately have "claim_rows ts (\<lambda>i. i \<notin> ids) limit now stale rows' = order_by (\<lambda>a b. or_created_at a \<le> or_created_at b) ?sel"
    by (simp add: claim_rows_def)
  then show ?thesis
    using mset_eq_setD [OF sel] by (simp add: ids)
qed

lemmas claim_defs = rc_ClaimOutbox_def rc_claim_def rc_BeginTx_def rc_Commit_def ClaimOutbox_def getE_def

lemma returning_set: "returning_law E \<Longrightarrow> set (sq_returning E n xs) = set xs"
  unfolding returning_law_def by (metis set_mset_mset)

text \<open>The claim's statement, with the rows it selects known.\<close>

lemma claim_selected:
  assumes "0 \<le> limit" and "set (map or_event_id (claim_rows ts locked limit now stale (tb_outbox t))) = ids"
  shows "claim_outbox ts locked returning limit now stale t =
    Inr (returning (map (\<lambda>r. r\<lparr>or_status := PUBLISHING, or_claimed_at := Some (ts now)\<rparr>) (filter (\<lambda>r. or_event_id r \<in> ids) (tb_outbox t))),
      mark_claimed ts now ids t)"
  using assms by (simp add: claim_outbox_def Let_def mark_claimed_def filter_update_where)

text \<open>C13: The default isolation level is enough for claims: if nobody else changes the rows a claim has selected while its transaction is
  open, then a run of \<open>ClaimOutbox\<close> in which other instances commit between its statements ends exactly as some run of the
  atomic \<open>ClaimOutbox\<close>, the others still following the protocol.\<close>

theorem claim_read_committed:
  assumes "rely E" and "sys_inv (cn_shared c)" and "returning_law E" and "row_locks E limit now c"
  shows "\<exists>E'. rely E' \<and> returning_law E' \<and> sq_ts E' = sq_ts E \<and> sq_outcome E' = sq_outcome E
    \<and> rc_ClaimOutbox E limit now c = ClaimOutbox E' limit now c"
proof -
  let ?n = "cn_calls c" and ?I = "sq_interfere E" and ?ids = "claimed_ids E limit now c" and ?s = "claim_state E c"
  let ?t = "?I (Suc (Suc (Suc ?n))) ?s" and ?locked = "\<lambda>i. i \<notin> claimed_ids E limit now c"
  let ?rows = "\<lambda>s. tb_outbox (sh_tables s)"
  have atomic: ?thesis if "rc_ClaimOutbox E limit now c = ClaimOutbox ((before_all E ?n ks)\<lparr>sq_locked := l\<rparr>) limit now c" for ks l
    using that before_all_rely [OF assms(1)] assms(3)
    by (intro exI [of _ "(before_all E ?n ks)\<lparr>sq_locked := l\<rparr>"]) (simp add: rely_def before_all_def returning_law_def)
  have dist: "distinct (map or_event_id (?rows ?s))"
    using interfere_inv [OF assms(1)] assms(2) by (simp add: claim_state_def sys_inv_def outbox_inv_def)
  have same: "filter (\<lambda>r. or_event_id r \<in> ?ids) (?rows ?t) = filter (\<lambda>r. or_event_id r \<in> ?ids) (?rows ?s)"
    using assms(4) by (simp add: row_locks_def Let_def numeral_3_eq_3)
  have ids: "set (map or_event_id (claim_rows (sq_ts E) (sq_locked E (Suc ?n)) limit now (now - Minute) (?rows ?s))) = ?ids"
    by (simp add: claimed_ids_def)
  note again = claim_again [OF dist ids [symmetric] same]
  have "?ids \<subseteq> or_event_id ` set (?rows ?s)"
    using claim_rows_facts(2) [OF dist] unfolding ids [symmetric] set_map by (rule image_mono)
  then have "or_event_id ` {r \<in> set (?rows ?s). or_event_id r \<in> ?ids} = ?ids"
    by auto
  then have returned: "or_event_id ` set (sq_returning E m (map (\<lambda>r. r\<lparr>or_status := PUBLISHING, or_claimed_at := Some (sq_ts E now)\<rparr>)
      (filter (\<lambda>r. or_event_id r \<in> ?ids) (?rows ?s)))) = ?ids" for m
    by (simp add: returning_set [OF assms(3)] image_image)
  note claim1 = claim_selected [OF _ ids] and claim2 = claim_selected [OF _ again]
  consider (not_begun) "sq_outcome E ?n \<noteq> Done" | (statement) "sq_outcome E ?n = Done" "sq_outcome E (Suc ?n) \<noteq> Done \<or> limit < 0"
    | (read) "sq_outcome E ?n = Done" "sq_outcome E (Suc ?n) = Done" "0 \<le> limit" "sq_outcome E (Suc (Suc ?n)) \<noteq> Done"
    | (commit) "sq_outcome E ?n = Done" "sq_outcome E (Suc ?n) = Done" "0 \<le> limit" "sq_outcome E (Suc (Suc ?n)) = Done"
    by fastforce
  then show ?thesis
  proof cases
    case not_begun
    then show ?thesis
      by (intro atomic [of "sq_locked E" "[?n]"]) (auto simp: claim_defs tx_defs before_all_def split: sql_outcome.splits)
  next
    case statement
    then show ?thesis
      by (intro atomic [of "sq_locked E" "[?n, Suc ?n]"])
        (auto simp: claim_defs tx_defs before_all_def claim_outbox_def split: sql_outcome.splits)
  next
    case read
    then show ?thesis
      using claim1 by (intro atomic [of "sq_locked E" "[?n, Suc ?n]"])
        (auto simp: claim_defs tx_defs before_all_def claim_state_def split: sql_outcome.splits)
  next
    case commit
    then show ?thesis
      using claim1 claim2 by (intro atomic [of "\<lambda>_. ?locked" "[?n, Suc ?n, Suc (Suc (Suc ?n))]"])
        (simp add: claim_defs tx_defs before_all_def claim_state_def [symmetric] same returned split: sql_outcome.splits)
  qed
qed

section \<open>A key created during a transaction\<close>

definition busy_env :: "nat \<Rightarrow> sql_env" where
  "busy_env k = quiet_env\<lparr>sq_interfere := \<lambda>n s. if n = k then s\<lparr>sh_tables := after_stmt (insert_key_or_nothing (sq_ts quiet_env) sample_key) (sh_tables s)\<rparr> else s\<rparr>"

definition busy_scan :: "(err + CheckInRecord) \<times> conn" where
  "busy_scan = rc_CreateCheckIn (busy_env 3) sample_record ''fp'' ''i1'' sample_event start_conn"

lemma busy_rely: "rely (busy_env k)"
  using sys_step.create_key [of "sq_ts quiet_env" sample_key]
  by (auto simp: rely_def busy_env_def after_stmt_def split: sum.splits)

lemma busy_locks: "unique_locks (busy_env k) n rec idem event"
  by (auto simp: unique_locks_def busy_env_def request_free_def event_free_def after_stmt_def insert_key_or_nothing_def
      split: sum.splits if_splits)

theorem read_committed_refines_witness:
  "fst busy_scan = Inr sample_record \<and> map kr_gym_id (tb_keys (cn_tables (snd busy_scan))) = [''g1'']
   \<and> (\<exists>E'. rely E' \<and> busy_scan = CreateCheckIn E' sample_record ''fp'' ''i1'' sample_event start_conn)"
proof (intro conjI)
  show "fst busy_scan = Inr sample_record" "map kr_gym_id (tb_keys (cn_tables (snd busy_scan))) = [''g1'']"
    by code_simp+
  have "sys_inv (cn_shared start_conn)"
    using sys.inv_start by (simp add: start_conn_def)
  then show "\<exists>E'. rely E' \<and> busy_scan = CreateCheckIn E' sample_record ''fp'' ''i1'' sample_event start_conn"
    using read_committed_refines [OF busy_rely _ busy_locks] unfolding busy_scan_def by blast
qed

definition busy_claim :: "(err + OutboxEvent list) \<times> conn" where
  "busy_claim = rc_ClaimOutbox (busy_env 8) 50 5000 (snd first_scan)"

lemma busy_row_locks: "row_locks (busy_env k) limit now c"
  by (auto simp: row_locks_def Let_def busy_env_def after_stmt_def insert_key_or_nothing_def split: sum.splits)

theorem claim_read_committed_witness:
  "map_sum id (map ev_ID) (fst busy_claim) = Inr [''e1''] \<and> map kr_gym_id (tb_keys (cn_tables (snd busy_claim))) = [''g1'']
   \<and> (\<exists>E'. rely E' \<and> busy_claim = ClaimOutbox E' 50 5000 (snd first_scan))"
proof (intro conjI)
  show "map_sum id (map ev_ID) (fst busy_claim) = Inr [''e1'']" "map kr_gym_id (tb_keys (cn_tables (snd busy_claim))) = [''g1'']"
    by code_simp+
  have "returning_law (busy_env 8)"
    by (simp add: returning_law_def busy_env_def quiet_env_def)
  then show "\<exists>E'. rely E' \<and> busy_claim = ClaimOutbox E' 50 5000 (snd first_scan)"
    using claim_read_committed [OF busy_rely first_scan_inv _ busy_row_locks] unfolding busy_claim_def by blast
qed

end
