(* ===== verification/System.thy ===== *)
theory System
  imports Lifecycle Rotation Drain Goroutines Isolation
begin

text \<open>
  The deployment: any number of instances that share one database and one broker, each answering the six methods of
  the service and running the relay.  The shared state is all that one instance knows of another, so a deployment is
  the set of shared states that requests and flushes lead to from an empty database; an instance's own memory is
  arbitrary, which covers every restart.
\<close>

section \<open>Requests\<close>

datatype rpc =
    RpcProcessScan ProcessScanRequest
  | RpcGetMyCheckInHistory int int
  | RpcGetMemberCheckInHistory string int int
  | RpcGetDailyCount string string
  | RpcGetDisplayQrPayload string
  | RpcRotateGymQrRootKey string bool
  | RpcReadyz

text \<open>The state an instance is left in by a request; a probe that never returns leaves it alone.\<close>

fun serve :: "(time \<Rightarrow> timestamp) \<Rightarrow> svc_env \<Rightarrow> request_context \<Rightarrow> rpc \<Rightarrow> svc \<Rightarrow> svc" where
  "serve T E ctx (RpcProcessScan request) s = snd (ProcessScan T E ctx request s)"
| "serve T E ctx (RpcGetMyCheckInHistory page limit) s = snd (GetMyCheckInHistory T E ctx page limit s)"
| "serve T E ctx (RpcGetMemberCheckInHistory memberId page limit) s = snd (GetMemberCheckInHistory T E memberId page limit s)"
| "serve T E ctx (RpcGetDailyCount gymId date) s = snd (GetDailyCount E gymId date s)"
| "serve T E ctx (RpcGetDisplayQrPayload gymId) s = snd (GetDisplayQrPayload T E gymId s)"
| "serve T E ctx (RpcRotateGymQrRootKey gymId emergency) s = snd (RotateGymQrRootKey T E gymId emergency s)"
| "serve T E ctx RpcReadyz s = (case healthHandler E ''/readyz'' s of None \<Rightarrow> s | Some (_, t) \<Rightarrow> t)"

lemma handler_smoves [guar_rules]:
  assumes "rely (se_sql E)"
  shows "guar (smoves E) (ProcessScan T E ctx request)" "guar (smoves E) (GetMyCheckInHistory T E ctx page limit)"
    "guar (smoves E) (GetMemberCheckInHistory T E memberId page limit)" "guar (smoves E) (GetDailyCount E gymId date)"
    "guar (smoves E) (GetDisplayQrPayload T E gymId)" "guar (smoves E) (RotateGymQrRootKey T E gymId emergency)"
  unfolding ProcessScan_def GetMyCheckInHistory_def GetMemberCheckInHistory_def GetDailyCount_def GetDisplayQrPayload_def
    RotateGymQrRootKey_def
  by (auto intro!: guar_rules assms)

lemma health_keeps: "healthHandler E path s = Some (status, t) \<Longrightarrow> sv_conn t = sv_conn s \<and> sv_mem t = sv_mem s"
  by (auto simp: healthHandler_def dest: ready_keeps split: if_splits option.splits sum.splits)

lemma serve_moves: "rely (se_sql E) \<Longrightarrow> moves (se_sql E) (sv_conn s) (sv_conn (serve T E ctx r s))"
  using handler_smoves [of E] by (cases r) (auto simp: guar_def smoves_def dest: health_keeps split: option.splits)

lemma bind_answer: "(\<And>x u. snd (k x u) = u) \<Longrightarrow> snd (bindE m k s) = snd (m s)"
  by (auto simp: bindE_def split: prod.splits sum.splits)

lemma bind_lift: "bindE (liftE (Inl e)) k s = (Inl e, s)" "bindE (liftE (Inr x)) k s = k x s"
  by (simp_all add: bindE_def)

lemma serve_inv:
  assumes "rely (se_sql E)" and "svc_inv E {} s"
  shows "svc_inv E {} (serve T E ctx r s)"
proof (cases r)
  case (RpcProcessScan request)
  then show ?thesis
    using assms by (cases ctx) (simp_all add: ProcessScan_def claims_of_def bind_lift bind_answer methods_inv)
next
  case (RpcGetMyCheckInHistory page limit)
  then show ?thesis
    using assms by (cases ctx) (simp_all add: GetMyCheckInHistory_def claims_of_def bind_lift split_def bind_answer methods_inv)
next
  case RpcReadyz
  then show ?thesis
    using assms(2) by (auto simp: svc_inv_def dest!: health_keeps split: option.splits)
qed (use assms in \<open>simp_all add: GetMemberCheckInHistory_def GetDailyCount_def GetDisplayQrPayload_def
    RotateGymQrRootKey_def split_def bind_answer methods_inv\<close>)

text \<open>C10: No request leaves a plaintext key behind: after any sequence of requests to a freshly started instance, whatever
  failed on the way and whatever the other instances did, every array outside the key cache is zero, and every cached
  array is what KMS makes of the stored key under whose gym and version it is filed.\<close>

theorem instance_clean:
  assumes "rely (se_sql E)" and "sys_inv (cn_shared store)"
    and "t = fold (\<lambda>(ctx, r). serve T E ctx r) requests (NewService store)"
  shows "(\<forall>a. a \<in> owned (sv_mem t) \<or> blank (deref (sv_mem t) a))
    \<and> (\<forall>g v bs e. view (sv_mem t) (cacheID g v) = Some (bs, e) \<longrightarrow>
         (\<exists>ct ref at n. key_entry (sv_shared t) (g, uint v) = Some (ct, ref, at) \<and> length bs = 32
            \<and> Decrypt (se_kms E) n (se_protector E) ref ct = Inr bs))"
proof -
  have "svc_inv E {} (fold (\<lambda>(ctx, r). serve T E ctx r) requests s)" if "svc_inv E {} s" for s
    using that by (induction requests arbitrary: s) (auto intro: serve_inv [OF assms(1)])
  then have "svc_inv E {} t"
    using NewService_inv [OF assms(2)] assms(3) by blast
  then show ?thesis
    by (auto simp: svc_inv_def mem_ok_def confined_def sound_view cached_right_def)
qed

section \<open>From the scan to the broker\<close>

text \<open>The check-in of a request and its event have the same position in their tables, and keep it.\<close>

lemma checkin_position:
  assumes inv: "sys_inv sh" and entry: "request_entry sh (userID, idem) = Some row"
  obtains i where "i < length (tb_check_ins (sh_tables sh))" and "tb_check_ins (sh_tables sh) ! i = row"
    and "i < length (tb_outbox (sh_tables sh))" and "cr_user_id row = userID" and "cr_idempotency_key row = idem"
proof -
  have row: "row \<in> set (tb_check_ins (sh_tables sh))" "same_request userID idem row"
    using entry by (auto simp: request_entry_def dest: find_SomeD)
  moreover have "length (tb_check_ins (sh_tables sh)) = length (tb_outbox (sh_tables sh))"
    using inv by (auto simp: sys_inv_def dest: list_all2_lengthD)
  ultimately show thesis
    using that by (fastforce simp: in_set_conv_nth same_request_def)
qed

lemma event_kept:
  assumes "grows sh sh'" and "sys_inv sh'" and "i < length (tb_check_ins (sh_tables sh))" and "i < length (tb_outbox (sh_tables sh))"
  shows "i < length (tb_outbox (sh_tables sh'))"
    and "tb_check_ins (sh_tables sh') ! i = tb_check_ins (sh_tables sh) ! i"
    and "outbox_le (tb_outbox (sh_tables sh) ! i) (tb_outbox (sh_tables sh') ! i)"
    and "event_of (tb_check_ins (sh_tables sh) ! i) (tb_outbox (sh_tables sh') ! i)"
proof -
  show len: "i < length (tb_outbox (sh_tables sh'))"
    and same: "tb_check_ins (sh_tables sh') ! i = tb_check_ins (sh_tables sh) ! i"
    and "outbox_le (tb_outbox (sh_tables sh) ! i) (tb_outbox (sh_tables sh') ! i)"
    using assms(1,3,4) by (auto simp: grows_def ext_def)
  have "list_all2 event_of (tb_check_ins (sh_tables sh')) (tb_outbox (sh_tables sh'))"
    using assms(2) by (simp add: sys_inv_def)
  then show "event_of (tb_check_ins (sh_tables sh) ! i) (tb_outbox (sh_tables sh') ! i)"
    using len same by (auto simp: list_all2_conv_all_nth)
qed

text \<open>C6: A check-in reaches the broker: once a scan has succeeded on some instance, and whatever the instances did since, a
  relay whose surroundings answer and which makes enough rounds returns with the event of that very check-in in a final
  state.  The check-in is the row of the user and the idempotency key, with the identifier the scan returned; its event is
  the one at the same position of the outbox, there already when the scan returned, with the same identifier and payload
  ever since, created at the instant of the check-in and keyed by its member.  In the end its stored frame is at the broker
  on the service's topic, or on the dead-letter topic if earlier attempts were used up, or a relay had already given the
  event up as invalid.\<close>

theorem check_in_delivered:
  assumes "rely (se_sql E)" and "svc_inv E A s" and scan: "Scan E userID gymID payload idem s = (Inr rec, t)"
    and later: "moves (se_sql E) (sv_conn t) (rs_conn r)" and ts: "sq_ts (re_sql R) = sq_ts (se_sql E)"
    and relay: "delivering R" "due R (rs_shared r)"
    and stop: "re_stop R (relay_interval interval) n" "\<forall>m < n. \<not> re_stop R (relay_interval interval) m"
    and enough: "card (unfinished (rs_shared r)) \<le> 50 * Suc n"
  shows "\<exists>u i row begun e. Run R interval r = Some u
    \<and> i < length (tb_check_ins (sh_tables (sv_shared t))) \<and> row = tb_check_ins (sh_tables (sv_shared t)) ! i
    \<and> cr_user_id row = userID \<and> cr_idempotency_key row = idem \<and> cr_checkin_id row = ci_ID rec
    \<and> tb_check_ins (sh_tables (rs_shared u)) ! i = row
    \<and> i < length (tb_outbox (sh_tables (sv_shared t))) \<and> begun = tb_outbox (sh_tables (sv_shared t)) ! i
    \<and> i < length (tb_outbox (sh_tables (rs_shared u))) \<and> e = tb_outbox (sh_tables (rs_shared u)) ! i
    \<and> or_event_id e = or_event_id begun \<and> or_payload e = or_payload begun \<and> or_created_at e = cr_checked_in_at row
    \<and> or_topic e = checkInTopic \<and> or_message_key e = ci_MemberID rec
    \<and> (or_status e = PUBLISHED \<and> (\<exists>x \<in> set (sh_broker (rs_shared u)). frames e x)
       \<or> or_status e = FAILED \<and> (\<exists>x \<in> set (sh_broker (rs_shared u)). dlq_frames e x)
       \<or> or_status e = INVALID \<and> event_row (rs_shared r) (or_event_id e) = Some e)"
proof -
  have t: "sys_inv (sv_shared t)"
    using Scan_inv [OF assms(1,2) scan] by (simp add: svc_inv_def)
  then have r: "sys_inv (rs_shared r)"
    using moves_inv [OF later] by simp
  obtain u where u: "Run R interval r = Some u" "sys_inv (rs_shared u)" "advanced (rs_shared r) (rs_shared u)"
      "unfinished (rs_shared u) = {}"
    using Run_drains [OF relay(1) r relay(2) stop(1) _ enough] stop(2) by blast
  have "rmoves R r u"
    using relay(1) u(1) by (intro Run_moves undisturbed_rely) (auto simp: delivering_def)
  then have "moves (se_sql E) (sv_conn t) (rs_conn u)"
    using moves_trans [OF later] moves_ts [OF ts] by (simp add: rmoves_def)
  then have grow: "grows (sv_shared t) (rs_shared u)"
    using moves_grows t by blast
  obtain row where row: "request_entry (sv_shared t) (userID, idem) = Some row"
      "record_of userID row = rec\<lparr>ci_CheckedInAt := cr_checked_in_at row\<rparr>"
    using scan by (rule Scan_recorded)
  have ids: "cr_checkin_id row = ci_ID rec" "cr_member_id row = ci_MemberID rec"
    using arg_cong [OF row(2), of ci_ID] arg_cong [OF row(2), of ci_MemberID] by (simp_all add: record_of_def)
  obtain i where i: "i < length (tb_check_ins (sh_tables (sv_shared t)))" "tb_check_ins (sh_tables (sv_shared t)) ! i = row"
      "i < length (tb_outbox (sh_tables (sv_shared t)))" "cr_user_id row = userID" "cr_idempotency_key row = idem"
    using t row(1) by (rule checkin_position)
  define e where "e = tb_outbox (sh_tables (rs_shared u)) ! i"
  note kept = event_kept [OF grow u(2) i(1,3), folded e_def, unfolded i(2)]
  have e: "e \<in> set (tb_outbox (sh_tables (rs_shared u)))"
    using kept(1) by (simp add: e_def)
  have mem: "event_row (rs_shared u) (or_event_id e) = Some e"
    using event_row_mem [OF u(2) e] .
  then have "terminal (or_status e)"
    using u(4) by (auto simp: unfinished_def)
  moreover have "event_row (rs_shared r) (or_event_id e) = Some e" if "or_status e = INVALID"
    using u(3) [unfolded advanced_def, THEN spec, of "or_event_id e"] mem that
    by (cases "event_row (rs_shared r) (or_event_id e)") (auto simp: delivered_as_def split: if_splits)
  moreover have "outbox_row_ok (sh_broker (rs_shared u)) e"
    using u(2) e by (simp add: sys_inv_def outbox_inv_def)
  ultimately have final: "or_status e = PUBLISHED \<and> (\<exists>x \<in> set (sh_broker (rs_shared u)). frames e x)
       \<or> or_status e = FAILED \<and> (\<exists>x \<in> set (sh_broker (rs_shared u)). dlq_frames e x)
       \<or> or_status e = INVALID \<and> event_row (rs_shared r) (or_event_id e) = Some e"
    by (auto simp: terminal_def outbox_row_ok_def)
  have "or_event_id e = or_event_id (tb_outbox (sh_tables (sv_shared t)) ! i)"
      "or_payload e = or_payload (tb_outbox (sh_tables (sv_shared t)) ! i)"
      "or_created_at e = cr_checked_in_at row" "or_topic e = checkInTopic" "or_message_key e = ci_MemberID rec"
    using kept(3,4) ids(2) by (simp_all add: outbox_le_def event_of_def)
  with u(1) i ids(1) kept(1,2) final show ?thesis
    unfolding e_def by (intro exI conjI; (rule refl | assumption | simp; fail)?) blast+
qed

section \<open>Deployments\<close>

inductive deployment :: "(time \<Rightarrow> time) \<Rightarrow> shared \<Rightarrow> bool" for ts where
  empty: "deployment ts empty_shared"
| request: "deployment ts (sv_shared s) \<Longrightarrow> rely (se_sql E) \<Longrightarrow> sq_ts (se_sql E) = ts
    \<Longrightarrow> deployment ts (sv_shared (serve T E ctx r s))"
| flush: "deployment ts (rs_shared s) \<Longrightarrow> rely (re_sql E) \<Longrightarrow> sq_ts (re_sql E) = ts \<Longrightarrow> dlq_law (re_lib E)
    \<Longrightarrow> returning_law (re_sql E) \<Longrightarrow> deployment ts (rs_shared (snd (Flush E s)))"

lemma deployment_reachable: "deployment ts sh \<Longrightarrow> (sys_step ts)\<^sup>*\<^sup>* empty_shared sh \<and> sys_inv sh"
proof (induction rule: deployment.induct)
  case empty
  then show ?case
    by (simp add: sys_inv_def empty_shared_def checkins_inv_def outbox_inv_def)
next
  case (request s E T ctx r)
  then show ?case
    using serve_moves [of E s T ctx r] moves_inv [of "se_sql E" "sv_conn s"] by (auto simp: moves_def)
next
  case (flush s E)
  then show ?case
    using Flush_moves [OF flush(2,4,5) surjective_pairing, of s] moves_inv [of "re_sql E" "rs_conn s"]
    by (auto simp: rmoves_def moves_def)
qed

text \<open>C3: Every deployment is safe, whatever fails and however the requests and relays of the instances interleave: a
  gym has at most one current key, it has the highest version, and only the version before it can still be accepted
  beside it; a user's request is recorded at most once; the n-th check-in has the n-th event, for its member and on
  the service's topic; an event is PUBLISHED only with its frame at the broker and FAILED only with it on the
  dead-letter topic; and the broker holds nothing but frames of events.\<close>

theorem deployment_safe:
  assumes "deployment ts sh"
  shows "(\<forall>k \<in> set (tb_keys (sh_tables sh)). \<exists>c \<in> set (tb_keys (sh_tables sh)). kr_gym_id c = kr_gym_id k
        \<and> kr_status c = RootKeyCurrent \<and> kr_key_version k \<le> kr_key_version c
        \<and> (kr_status k = RootKeyCurrent \<longrightarrow> k = c) \<and> (kr_status k = RootKeyPrevious \<longrightarrow> kr_key_version k = kr_key_version c - 1))
    \<and> distinct (map (\<lambda>r. (cr_user_id r, cr_idempotency_key r)) (tb_check_ins (sh_tables sh)))
    \<and> length (tb_outbox (sh_tables sh)) = length (tb_check_ins (sh_tables sh))
    \<and> (\<forall>n < length (tb_check_ins (sh_tables sh)). or_topic (tb_outbox (sh_tables sh) ! n) = checkInTopic
        \<and> or_message_key (tb_outbox (sh_tables sh) ! n) = cr_member_id (tb_check_ins (sh_tables sh) ! n))
    \<and> (\<forall>e \<in> set (tb_outbox (sh_tables sh)).
        (or_status e = PUBLISHED \<longrightarrow> (\<exists>r \<in> set (sh_broker sh). frames e r))
        \<and> (or_status e = FAILED \<longrightarrow> (\<exists>r \<in> set (sh_broker sh). dlq_frames e r)))
    \<and> (\<forall>r \<in> set (sh_broker sh). \<exists>e \<in> set (tb_outbox (sh_tables sh)). frames e r \<or> dlq_frames e r)"
proof -
  have inv: "sys_inv sh"
    using deployment_reachable [OF assms] ..
  note keys = sys_inv_keys [OF inv, unfolded keys_inv_def]
  have "\<exists>c \<in> set (tb_keys (sh_tables sh)). kr_gym_id c = kr_gym_id k \<and> kr_status c = RootKeyCurrent
      \<and> kr_key_version k \<le> kr_key_version c \<and> (kr_status k = RootKeyCurrent \<longrightarrow> k = c)
      \<and> (kr_status k = RootKeyPrevious \<longrightarrow> kr_key_version k = kr_key_version c - 1)" if k: "k \<in> set (tb_keys (sh_tables sh))" for k
  proof -
    obtain c where c: "c \<in> set (tb_keys (sh_tables sh))" "is_current (kr_gym_id k) c" "kr_key_version k \<le> kr_key_version c"
      using keys k by (auto simp: key_row_ok_def)
    moreover have "kr_status k = RootKeyCurrent \<longrightarrow> k = c" "kr_status k = RootKeyPrevious \<longrightarrow> kr_key_version c = kr_key_version k + 1"
      using keys k c(1,2) by blast+
    ultimately show ?thesis
      by (intro bexI [of _ c]) (auto simp: is_current_def)
  qed
  moreover have "outbox_inv (sh_broker sh) (tb_outbox (sh_tables sh))" "checkins_inv (tb_check_ins (sh_tables sh))"
      "list_all2 event_of (tb_check_ins (sh_tables sh)) (tb_outbox (sh_tables sh))"
    using inv by (simp_all add: sys_inv_def)
  ultimately show ?thesis
    by (simp add: outbox_inv_def outbox_row_ok_def checkins_inv_def list_all2_conv_all_nth event_of_def)
qed

text \<open>The first key of a gym is made on request, on an empty database, and a relay flushes.\<close>

definition empty_svc :: svc where
  "empty_svc = NewService \<lparr>cn_shared = empty_shared, cn_calls = 0\<rparr>"

definition first_key :: svc where
  "first_key = serve (\<lambda>t. (t, 0)) sample_env None (RpcRotateGymQrRootKey sample_gym False) empty_svc"

theorem instance_clean_witness:
  "\<forall>a. a \<in> owned (sv_mem first_key) \<or> blank (deref (sv_mem first_key) a)"
  using instance_clean [of sample_env "\<lparr>cn_shared = empty_shared, cn_calls = 0\<rparr>" first_key "\<lambda>t. (t, 0)"
      "[(None, RpcRotateGymQrRootKey sample_gym False)]"] deployment_reachable [OF deployment.empty]
  by (simp add: first_key_def empty_svc_def)

text \<open>A scan, and a relay whose clock is past it.\<close>

definition late_relay :: relay_env where
  "late_relay = sample_relay\<lparr>re_clock := \<lambda>_. 200 * Second\<rparr>"

lemma late_relay_delivering: "delivering late_relay"
  using sample_delivering by (simp add: delivering_def late_relay_def)

theorem check_in_delivered_witness:
  "\<exists>rec t u e. Scan sample_env ''u1'' sample_gym (sample_payload sample_secret) ''i1'' sample_svc = (Inr rec, t)
     \<and> Run late_relay 0 \<lparr>rs_conn = sv_conn t, rs_tick = 0\<rparr> = Some u
     \<and> e = tb_outbox (sh_tables (rs_shared u)) ! 0 \<and> or_event_id e = or_event_id (tb_outbox (sh_tables (sv_shared t)) ! 0)
     \<and> or_message_key e = ci_MemberID rec
     \<and> (or_status e = PUBLISHED \<and> (\<exists>x \<in> set (sh_broker (rs_shared u)). frames e x)
        \<or> or_status e = FAILED \<and> (\<exists>x \<in> set (sh_broker (rs_shared u)). dlq_frames e x))"
proof -
  obtain rec event t where scan: "Scan sample_env ''u1'' sample_gym (sample_payload sample_secret) ''i1'' sample_svc = (Inr rec, t)"
    and t: "sv_shared t = recorded (sq_ts quiet_env) rec (fingerprint sample_gym (sample_payload sample_secret)) ''i1'' event
        (sv_shared sample_svc)" "event_for rec event" "ci_CheckedInAt rec = 150 * Second"
    using sample_scan_record [OF sample_inv sample_rows] by blast
  let ?r = "\<lparr>rs_conn = sv_conn t, rs_tick = 0\<rparr>"
  let ?row = "new_outbox_row (sq_ts quiet_env) event"
  have outbox: "tb_outbox (sh_tables (sv_shared t)) = [?row]"
    using t(1) sample_rows(2) by (simp add: recorded_def)
  have "claimable (sq_ts quiet_env (200 * Second)) stale ?row" for stale
    using t(2,3) by (simp add: claimable_def new_outbox_row_def event_for_def quiet_env_def Second_def)
  moreover have "\<exists>rec w. relay_record late_relay (outbox_event_of ?row) now u = (Inr rec, w)" for now u
    using t(2) by (simp add: relay_record_def fresh_record_def new_outbox_row_def outbox_event_of_def event_for_def
        bindE_def callR_def askR_def late_relay_def sample_relay_def sample_lib_def)
  ultimately have due: "due late_relay (rs_shared ?r)"
    by (simp add: due_def event_row_def outbox) (simp add: late_relay_def sample_relay_def)
  have "unfinished (rs_shared ?r) \<subseteq> {ev_ID event}"
    by (auto simp: unfinished_def event_row_def outbox new_outbox_row_def split: if_splits)
  then have enough: "card (unfinished (rs_shared ?r)) \<le> 50 * Suc 1"
    using card_mono [of "{ev_ID event}" "unfinished (rs_shared ?r)"] by simp
  have stop: "re_stop late_relay d 1" "\<forall>m < 1. \<not> re_stop late_relay d m" for d
    by (simp_all add: late_relay_def sample_relay_def)
  have ts: "sq_ts (re_sql late_relay) = sq_ts (se_sql sample_env)"
    by (simp add: late_relay_def sample_relay_def sample_env_def)
  have later: "moves (se_sql sample_env) (sv_conn t) (rs_conn ?r)"
    by simp
  from check_in_delivered [where interval = 0, OF sample_rely sample_inv scan later ts late_relay_delivering due stop enough]
  obtain u i begun e where u: "Run late_relay 0 ?r = Some u" and i: "i < length (tb_outbox (sh_tables (sv_shared t)))"
    and e: "e = tb_outbox (sh_tables (rs_shared u)) ! i" "begun = tb_outbox (sh_tables (sv_shared t)) ! i"
      "or_event_id e = or_event_id begun" "or_message_key e = ci_MemberID rec"
    and final: "or_status e = PUBLISHED \<and> (\<exists>x \<in> set (sh_broker (rs_shared u)). frames e x)
       \<or> or_status e = FAILED \<and> (\<exists>x \<in> set (sh_broker (rs_shared u)). dlq_frames e x)
       \<or> or_status e = INVALID \<and> event_row (sv_shared t) (or_event_id e) = Some e"
    unfolding relay.select_convs by (elim exE conjE) (rule that; assumption)
  have "i = 0"
    using i by (simp add: outbox)
  moreover have "or_status e \<noteq> INVALID \<or> event_row (sv_shared t) (or_event_id e) \<noteq> Some e"
  proof -
    have "or_status ?row = PENDING"
      by (simp add: new_outbox_row_def)
    then show ?thesis
      by (auto simp: event_row_def outbox split: if_splits)
  qed
  ultimately show ?thesis
    using scan u e final by blast
qed

definition first_flush :: relay where
  "first_flush = snd (Flush sample_relay \<lparr>rs_conn = sv_conn first_key, rs_tick = 0\<rparr>)"

lemma first_key_kept: "length (tb_keys (sh_tables (rs_shared first_flush))) = 1"
  by code_simp

theorem deployment_safe_witness: "\<exists>k \<in> set (tb_keys (sh_tables (rs_shared first_flush))). kr_status k = RootKeyCurrent"
proof -
  have "deployment (sq_ts quiet_env) (sv_shared first_key)"
    unfolding first_key_def by (rule deployment.request) (simp_all add: deployment.empty empty_svc_def NewService_def sample_env_def)
  then have "deployment (sq_ts quiet_env) (rs_shared first_flush)"
    unfolding first_flush_def
    by (intro deployment.flush) (use sample_relay_laws(1-3) in \<open>simp_all add: sample_relay_def\<close>)
  from deployment_safe [OF this] first_key_kept show ?thesis
    by (cases "tb_keys (sh_tables (rs_shared first_flush))") auto
qed

end
