(* ===== verification/Spec2Isabelle.thy ===== *)
theory Spec2Isabelle
  imports System
begin

text \<open>
  \<^bold>\<open>A verification development of ms-gym-checkin\<close>, the check-in service of a gym platform (Go sources under \<open>src/\<close>).

  \<^bold>\<open>The program.\<close>  An instance of the service answers six gRPC methods behind a gateway and runs an outbox relay.
  \<^item> A gym's display shows QR payloads, each signed with HMAC-SHA-256 under the gym's root key for one slot of time
    (\<open>internal/domain/qr.go\<close>).  Root keys are encrypted by KMS (\<open>internal/adapter/kms\<close>) and stored with versions: one is
    current, the one before it may be accepted for a while after a rotation, the others are retired.  Decrypted keys live
    in a small cache (\<open>internal/usecase/key_cache.go\<close>).
  \<^item> A member scans a payload: \<open>Service.Scan\<close> (\<open>internal/usecase/service.go\<close>) looks for the request under its idempotency
    key, checks the payload and the membership, and has the store (\<open>internal/adapter/yugabyte/store.go\<close>) insert the
    check-in and an outbox event in one transaction.
  \<^item> The relay (\<open>internal/adapter/kafka/relay.go\<close>) claims events, stores the frame it will publish, publishes it, and marks
    the event; after repeated failures the frame goes to the dead-letter topic.
  \<^item> \<open>cmd/server/main.go\<close> reads the configuration, opens the resources, starts the servers and the relay, and releases
    everything at the end.
  Instances share the database and the broker and nothing else.

  \<^bold>\<open>How the model is built.\<close>  An operation is a function from a state to a result, \<open>Inl\<close> an error or \<open>Inr\<close> a value, and the
  state it leaves (\<open>Prelude\<close>: \<open>op\<close>, \<open>bindE\<close>, \<open>tryE\<close>).  Code that is not in the repository is a parameter: the SQL driver and
  what other instances do between two database calls (\<open>sql_env\<close>), KMS, the gRPC clients, the clock, identifiers, random bytes
  (\<open>svc_env\<close>), the Kafka library (\<open>kafka_lib\<close>, \<open>relay_env\<close>), files, dials and signals (\<open>run_env\<close>).  A parameter's answer may depend
  on the number of the question, so nothing is assumed to answer twice alike.  What is assumed of them is named: \<open>rely\<close>
  (other instances follow the protocol), \<open>undisturbed\<close> (the database answers and nobody interferes), \<open>uuid_text\<close>, \<open>kms_law\<close>,
  \<open>dlq_law\<close>, \<open>returning_law\<close>, \<open>clock_ok\<close>, \<open>outbox_law\<close>, \<open>unique_locks\<close> and \<open>row_locks\<close> (what a transaction has pending is locked).  Each theorem that has such a hypothesis is applied to a
  concrete instance in its witness.

  \<^bold>\<open>Theories and sources.\<close>
  \<^item> \<open>Prelude\<close>: result and state types, the rule collection \<open>guar_rules\<close>, the locales \<open>state_machine\<close>, \<open>stable\<close>, \<open>write_once\<close> and
    \<open>retry_loop\<close>.
  \<^item> \<open>GoStrings\<close>, \<open>GoTime\<close>, \<open>GoDuration\<close>, \<open>Sha256\<close>: what the program uses of Go's standard library, executable; the locale \<open>codec\<close>
    is interpreted on decimal numbers and on base64.
  \<^item> \<open>Domain\<close>, \<open>QR\<close>: \<open>internal/domain\<close>.  Payloads: parsing reads back what signing prints, a payload is valid for exactly two
    slots, the signed message is unambiguous.
  \<^item> \<open>Tables\<close>: \<open>migrations/001_init.sql\<close> and each SQL statement of the store as a function on the tables.
  \<^item> \<open>Protocol\<close>: the abstract specification of the shared state, an inductive step relation \<open>sys_step\<close> with its invariant
    \<open>sys_inv\<close>; what is written once stays (\<open>requests\<close>, \<open>key_material\<close>, \<open>stored_frames\<close>, \<open>final_events\<close> interpret \<open>write_once\<close>).
  \<^item> \<open>Conn\<close>, \<open>Store\<close>: statements, transactions and lost commits over a connection; every method of the store, shown to move
    the shared state along \<open>sys_step\<close> only, and what each returns.  \<open>Isolation\<close>: the two transactions that ask for the default
    isolation level, with other instances committing between their statements; each run is one of the atomic model in \<open>Store\<close>.
  \<^item> \<open>KeyCache\<close>: the cache over an explicit heap of byte arrays, so that zeroing and aliasing are visible; \<open>cache_contract\<close>.
  \<^item> \<open>Kms\<close>, \<open>Clients\<close>: the adapters of KMS and of the member and plans services.
  \<^item> \<open>Service\<close>: \<open>internal/usecase/service.go\<close>, with the invariant \<open>svc_inv\<close> that every method keeps.  \<open>Requests\<close> and \<open>Rotation\<close>: what
    scans, displays, counts and rotations guarantee across instances.  \<open>Goroutines\<close>: what concurrent requests do in memory, the
    calls of \<open>key\<close> and \<open>newKey\<close> and the deletions, as interleaved steps on one cache (\<open>key_step\<close>); the sequential \<open>key_of\<close> and
    \<open>newKey\<close> are runs of it (\<open>key_of_steps\<close>, \<open>newKey_steps\<close>).
  \<^item> \<open>Relay\<close>: \<open>internal/adapter/kafka/relay.go\<close>; \<open>event_fate\<close> shows that it implements the abstract \<open>fate_of\<close>.  \<open>Drain\<close>:
    its loop settles a backlog of any size.
  \<^item> \<open>Handler\<close>: \<open>internal/adapter/grpc\<close>: the methods, their roles, and the peer's certificate.
  \<^item> \<open>Config\<close>: \<open>internal/config\<close>.  \<open>Server\<close>: \<open>cmd/server/main.go\<close> and the constructors it calls.
    \<open>Lifecycle\<close>: the goroutines of \<open>run\<close> as interleaved steps (\<open>life_step\<close>), which return exactly what \<open>serve_and_stop\<close> does.
  \<^item> \<open>System\<close>: a deployment of any number of instances, and the theorems that span all components.

  \<^bold>\<open>What is shown.\<close>  A request is recorded at most once and its answer repeats; a check-in has exactly one event, and an event is
  marked published or failed only when the broker has its frame; a rotation takes effect on every instance; a displayed
  payload is accepted and a forged or outdated one is not; no plaintext key is left outside the cache by requests that run one after the
  other; the process releases what it opened, never closes the database under the relay and ends soon after its shutdown
  deadline, whatever its goroutines do; configuration, histories, counts and
  certificates are judged exactly as stated.  Liveness is stated as such: a scan that nobody disturbs succeeds, a relay
  whose surroundings answer brings the event of every check-in to the broker, and the loops return exactly when their context ends.

  \<^bold>\<open>Loops and bounds.\<close>  Loops over data are structural recursion; the three attempts of the store's transactions recurse on the
  attempts left.  The loops that may run for ever (\<open>ping_loop\<close>, \<open>run_loop\<close>, \<open>outbox_loop\<close>) are partial functions with values in
  \<open>option\<close>, and the theorems say exactly when they return; there is no fuel.  Key versions are 64-bit words, \<open>int64\<close> and \<open>int32\<close>
  conversions are written out, and instants and durations are integers.

  \<^bold>\<open>Not modelled.\<close>  The interleaving of whole requests of one instance: \<open>Goroutines\<close> interleaves what they do in memory, where
  requests meet in the cache (and shows that two of them can leave a plaintext behind), while elsewhere a method runs alone on
  its instance's memory, and other instances (and so other requests as far as the database is concerned) run between any two
  database calls.  The timing of tickers, timers and deadlines: which of two events a \<open>select\<close> sees first is an answer of the
  environment, or a choice between two steps.
  Letters outside ASCII in \<open>strings.ToLower\<close> and \<open>strings.TrimSpace\<close>.  TLS handshakes, the gRPC and HTTP servers' own loops
  and the enforcement of the method rules, which are library code; logging; the generated protobuf code; \<open>Migrate\<close>, which
  hands a file to the database; the interface declarations of \<open>usecase/port\<close> and the one-line wrappers of
  \<open>usecase/runtime.go\<close> around the clock and the UUID generator.
\<close>

end
